(* ===== verification/Redis_Prelude.thy ===== *)
theory Redis_Prelude
  imports Main "HOL-Library.Word"
begin

text \<open>
  Shared vocabulary of the development: the machine types of the C sources, the
  little-endian byte layout that \<^verbatim>\<open>src/endianconv.h\<close> fixes for every packed Redis
  structure, reads and writes of byte ranges (\<^verbatim>\<open>memcpy\<close>, \<^verbatim>\<open>memmove\<close>, assignment through
  a cast pointer), \<^verbatim>\<open>zrealloc\<close>, and the list and arithmetic facts that several
  components use.  Packed structures are stored little-endian on every host (the
  \<^verbatim>\<open>memrev..ifbe\<close> and \<^verbatim>\<open>intrev..ifbe\<close> macros swap on big-endian hosts only), so a byte
  list below is the memory image on every host.
\<close>

section \<open>Machine types\<close>

type_synonym byte = "8 word"
type_synonym uint32 = "32 word"
type_synonym uint64 = "64 word"

text \<open>
  Signed C integers are \<open>int\<close>; that an argument is an \<^verbatim>\<open>int64_t\<close> is the range predicate
  below.  Unsigned ones are words, so that their wrap-around is the word arithmetic.
\<close>

definition INT16_MIN :: int where "INT16_MIN = - 32768"
definition INT16_MAX :: int where "INT16_MAX = 32767"
definition INT32_MIN :: int where "INT32_MIN = - 2147483648"
definition INT32_MAX :: int where "INT32_MAX = 2147483647"
definition LLONG_MIN :: int where "LLONG_MIN = - 9223372036854775808"
definition LLONG_MAX :: int where "LLONG_MAX = 9223372036854775807"
definition ULLONG_MAX :: int where "ULLONG_MAX = 18446744073709551615"

definition is_int64 :: "int \<Rightarrow> bool" where
  "is_int64 v \<longleftrightarrow> LLONG_MIN \<le> v \<and> v \<le> LLONG_MAX"

named_theorems c_limits \<open>the numeric limits of the C integer types\<close>

declare INT16_MIN_def [c_limits] INT16_MAX_def [c_limits] INT32_MIN_def [c_limits]
  INT32_MAX_def [c_limits] LLONG_MIN_def [c_limits] LLONG_MAX_def [c_limits]
  ULLONG_MAX_def [c_limits]

section \<open>Byte ranges\<close>

text \<open>\<open>get_bytes bs off n\<close> is the \<open>n\<close> bytes that \<^verbatim>\<open>memcpy\<close> reads at \<open>off\<close>.\<close>

definition get_bytes :: "'a list \<Rightarrow> nat \<Rightarrow> nat \<Rightarrow> 'a list" where
  "get_bytes bs off n = take n (drop off bs)"

text \<open>\<open>put_bytes bs off new\<close> overwrites the bytes at \<open>off\<close>; the size stays.\<close>

definition put_bytes :: "'a list \<Rightarrow> nat \<Rightarrow> 'a list \<Rightarrow> 'a list" where
  "put_bytes bs off new = take off bs @ new @ drop (off + length new) bs"

text \<open>\<^verbatim>\<open>memmove\<close> inside one block: the source range is read before it is overwritten.\<close>

definition memmove :: "'a list \<Rightarrow> nat \<Rightarrow> nat \<Rightarrow> nat \<Rightarrow> 'a list" where
  "memmove bs dst src n = put_bytes bs dst (get_bytes bs src n)"

text \<open>
  \<^verbatim>\<open>zrealloc\<close> keeps the common prefix; what a grown block holds beyond it is not
  determined by C, so it is an argument \<open>u\<close> (the byte found at each offset).
\<close>

definition realloc_bytes :: "(nat \<Rightarrow> 'a) \<Rightarrow> 'a list \<Rightarrow> nat \<Rightarrow> 'a list" where
  "realloc_bytes u bs n = take n bs @ map u [length bs..<n]"

section \<open>Little-endian integers\<close>

primrec le_bytes :: "nat \<Rightarrow> int \<Rightarrow> byte list" where
  "le_bytes 0 v = []"
| "le_bytes (Suc n) v = word_of_int v # le_bytes n (v div 256)"

primrec le_uint :: "byte list \<Rightarrow> int" where
  "le_uint [] = 0"
| "le_uint (b # bs) = uint b + 256 * le_uint bs"

text \<open>The two's complement reading of the same bytes.\<close>

definition le_sint :: "byte list \<Rightarrow> int" where
  "le_sint bs = (let u = le_uint bs; m = 256 ^ length bs in if m \<le> 2 * u then u - m else u)"

section \<open>Lemmas\<close>

subsection \<open>Words\<close>

lemma unat_less_byte: "unat (x :: byte) < 256"
  using unsigned_less [of x, where 'a = nat] by simp

lemma unat_less_32: "unat (x :: uint32) < 4294967296"
  using unsigned_less [of x, where 'a = nat] by simp

lemma unat_less_64: "unat (x :: uint64) < 18446744073709551616"
  using unsigned_less [of x, where 'a = nat] by simp

lemma unat_ucast_32_64 [simp]: "unat (ucast (x :: uint32) :: uint64) = unat x"
  using unat_less_32 [of x] by (simp add: unsigned_ucast_eq take_bit_nat_eq_self)

lemma unat_ucast_8_32 [simp]: "unat (ucast (x :: byte) :: uint32) = unat x"
  using unat_less_byte [of x] by (simp add: unsigned_ucast_eq take_bit_nat_eq_self)

lemma unat_ucast_8_64 [simp]: "unat (ucast (x :: byte) :: uint64) = unat x"
  using unat_less_byte [of x] by (simp add: unsigned_ucast_eq take_bit_nat_eq_self)

lemma unat_pow2_64:
  assumes "k < 64"
  shows "unat (2 ^ k :: uint64) = 2 ^ k"
proof -
  have "(2 :: uint64) ^ k = of_nat (2 ^ k)" by simp
  moreover have "(2 :: nat) ^ k < 2 ^ 64"
    using assms by (intro power_strict_increasing) auto
  ultimately show ?thesis
    using assms by (simp only: unsigned_of_nat take_bit_nat_eq_self) simp
qed

lemma unat_of_nat_64: "n < 18446744073709551616 \<Longrightarrow> unat (of_nat n :: uint64) = n"
  by (simp add: unsigned_of_nat take_bit_nat_eq_self)

lemma unat_add_1_64: "unat (x :: uint64) < 18446744073709551615 \<Longrightarrow> unat (x + 1) = Suc (unat x)"
  by (simp add: unat_word_ariths(1))

lemma unat_sub_1_64: "x \<noteq> 0 \<Longrightarrow> unat (x - 1 :: uint64) = unat x - 1"
  by (simp add: unat_minus_one)

lemma sint_small_32:
  assumes "unat (x :: uint32) < 2 ^ 31"
  shows "sint x = int (unat x)"
proof -
  have "uint x < 2 ^ 31"
    using assms by (metis of_nat_less_iff of_nat_numeral of_nat_power uint_nat)
  moreover have "- (2 ^ 31) \<le> uint x"
    by (rule order_trans [of _ 0]) auto
  ultimately have "signed_take_bit 31 (uint x) = uint x"
    by (rule signed_take_bit_int_eq_self [rotated])
  then show ?thesis
    by (simp add: sint_uint)
qed

lemma unat_sub_1_32: "x \<noteq> 0 \<Longrightarrow> unat (x - 1 :: uint32) = unat x - 1"
  by (simp add: unat_minus_one)

lemma unat_add_1_32: "unat (x :: uint32) < 4294967295 \<Longrightarrow> unat (x + 1) = Suc (unat x)"
  by (simp add: unat_word_ariths(1))

subsection \<open>Lists\<close>

text \<open>Inserting at the position that separates the smaller from the larger elements.\<close>

lemma sorted_insert_at:
  fixes v :: "'a::linorder"
  assumes "sorted_wrt (<) xs" "pos \<le> length xs"
    and "\<forall>i < length xs. if i < pos then xs ! i < v else v < xs ! i"
  shows "sorted_wrt (<) (take pos xs @ v # drop pos xs)"
    and "set (take pos xs @ v # drop pos xs) = insert v (set xs)"
    and "v \<notin> set xs"
proof -
  have left: "\<forall>x \<in> set (take pos xs). x < v"
    using assms by (auto simp: in_set_conv_nth)
  have right: "\<forall>x \<in> set (drop pos xs). v < x"
    using assms by (auto simp: in_set_conv_nth)
  have "sorted_wrt (<) (take pos xs @ drop pos xs)"
    using assms(1) by simp
  with left right show "sorted_wrt (<) (take pos xs @ v # drop pos xs)"
    unfolding sorted_wrt_append sorted_wrt.simps by auto
  have "set (take pos xs) \<union> set (drop pos xs) = set xs"
    by (simp flip: set_append)
  then show "set (take pos xs @ v # drop pos xs) = insert v (set xs)"
    by auto
  show "v \<notin> set xs"
    using assms(3) by (fastforce simp: in_set_conv_nth split: if_splits)
qed

lemma sorted_delete_at:
  fixes xs :: "'a::linorder list"
  assumes "sorted_wrt (<) xs" "pos < length xs"
  shows "sorted_wrt (<) (take pos xs @ drop (Suc pos) xs)"
    and "set (take pos xs @ drop (Suc pos) xs) = set xs - {xs ! pos}"
proof -
  have split: "xs = take pos xs @ xs ! pos # drop (Suc pos) xs"
    using assms(2) by (simp add: id_take_nth_drop)
  have sorted: "sorted_wrt (<) (take pos xs @ xs ! pos # drop (Suc pos) xs)"
    using assms(1) split by simp
  then show "sorted_wrt (<) (take pos xs @ drop (Suc pos) xs)"
    by (auto simp: sorted_wrt_append)
  from sorted have "xs ! pos \<notin> set (take pos xs) \<union> set (drop (Suc pos) xs)"
    by (auto simp: sorted_wrt_append)
  moreover have "set xs = insert (xs ! pos) (set (take pos xs) \<union> set (drop (Suc pos) xs))"
    by (subst split) auto
  ultimately show "set (take pos xs @ drop (Suc pos) xs) = set xs - {xs ! pos}"
    by auto
qed

subsection \<open>Byte ranges\<close>

lemma length_get_bytes [simp]: "length (get_bytes bs off n) = min n (length bs - off)"
  by (simp add: get_bytes_def min.commute)

lemma length_put_bytes [simp]:
  "off + length new \<le> length bs \<Longrightarrow> length (put_bytes bs off new) = length bs"
  by (simp add: put_bytes_def)

lemma length_realloc [simp]: "length (realloc_bytes u bs n) = n"
  by (simp add: realloc_bytes_def)

lemma length_memmove [simp]:
  "dst + n \<le> length bs \<Longrightarrow> length (memmove bs dst src n) = length bs"
  by (simp add: memmove_def)

lemma nth_put_bytes:
  assumes "off + length new \<le> length bs" "i < length bs"
  shows "put_bytes bs off new ! i =
    (if off \<le> i \<and> i < off + length new then new ! (i - off) else bs ! i)"
  using assms by (auto simp: put_bytes_def nth_append)

lemma nth_get_bytes [simp]:
  "i < n \<Longrightarrow> off + i < length bs \<Longrightarrow> get_bytes bs off n ! i = bs ! (off + i)"
  by (simp add: get_bytes_def)

lemma get_put_same [simp]:
  "off + length new \<le> length bs \<Longrightarrow> n = length new \<Longrightarrow> get_bytes (put_bytes bs off new) off n = new"
  by (simp add: get_bytes_def put_bytes_def)

lemma get_put_disjoint:
  assumes "off + length new \<le> length bs" "off' + n \<le> off \<or> off + length new \<le> off'"
  shows "get_bytes (put_bytes bs off new) off' n = get_bytes bs off' n"
  using assms by (intro nth_equalityI) (auto simp: nth_put_bytes)

lemma get_bytes_realloc:
  "off + n \<le> length bs \<Longrightarrow> off + n \<le> m \<Longrightarrow> get_bytes (realloc_bytes u bs m) off n = get_bytes bs off n"
  by (intro nth_equalityI) (auto simp: realloc_bytes_def nth_append)

lemma get_memmove_inside:
  assumes "src + n \<le> length bs" "dst + n \<le> length bs" "off + k \<le> n"
  shows "get_bytes (memmove bs dst src n) (dst + off) k = get_bytes bs (src + off) k"
  using assms by (intro nth_equalityI) (auto simp: memmove_def nth_put_bytes add.assoc)

lemma get_memmove_outside:
  assumes "src + n \<le> length bs" "dst + n \<le> length bs" "off + k \<le> dst \<or> dst + n \<le> off"
  shows "get_bytes (memmove bs dst src n) off k = get_bytes bs off k"
  using assms by (simp add: memmove_def get_put_disjoint)

subsection \<open>Little-endian integers\<close>

lemma length_le_bytes [simp]: "length (le_bytes n v) = n"
  by (induction n arbitrary: v) auto

lemma le_uint_range: "0 \<le> le_uint bs \<and> le_uint bs < 256 ^ length bs"
proof (induction bs)
  case (Cons b bs)
  have "0 \<le> uint b" "uint b < 256"
    using uint_bounded [of b] by auto
  with Cons show ?case by simp
qed simp

lemmas le_uint_nonneg [simp] = le_uint_range [THEN conjunct1]
lemmas le_uint_less = le_uint_range [THEN conjunct2]

lemma le_uint_le_bytes: "le_uint (le_bytes n v) = v mod 256 ^ n"
proof (induction n arbitrary: v)
  case (Suc n)
  have "uint (word_of_int v :: byte) = v mod 256"
    by (simp add: uint_word_of_int)
  moreover have "v mod (256 * 256 ^ n) = v mod 256 + 256 * (v div 256 mod 256 ^ n)"
    by (subst zmod_zmult2_eq) auto
  ultimately show ?case
    by (simp add: Suc)
qed simp

lemma le_bytes_le_uint: "le_bytes (length bs) (le_uint bs) = bs"
proof (induction bs)
  case (Cons b bs)
  have b: "0 \<le> uint b" "uint b < 256"
    using uint_bounded [of b] by auto
  then have "(uint b + 256 * le_uint bs) div 256 = le_uint bs"
    by simp
  moreover have "uint (word_of_int (uint b + 256 * le_uint bs) :: byte) = (uint b + 256 * le_uint bs) mod 2 ^ 8"
    by (simp only: uint_word_of_int) simp
  then have "(word_of_int (uint b + 256 * le_uint bs) :: byte) = b"
    using b by (subst word_uint_eq_iff) simp
  ultimately show ?case
    by (simp add: Cons)
qed simp

lemma le_sint_le_bytes:
  assumes "- (256 ^ n) \<le> 2 * v" "2 * v < 256 ^ n"
  shows "le_sint (le_bytes n v) = v"
proof (cases "0 \<le> v")
  case True
  with assms have "v mod 256 ^ n = v" by simp
  with True assms show ?thesis
    by (simp add: le_sint_def le_uint_le_bytes Let_def)
next
  case False
  with assms have "v mod 256 ^ n = v + 256 ^ n"
    by (intro mod_pos_pos_trivial [of "v + 256 ^ n" "256 ^ n", simplified mod_add_self2]) auto
  with False assms show ?thesis
    by (simp add: le_sint_def le_uint_le_bytes Let_def)
qed

lemma le_sint_range: "bs \<noteq> [] \<Longrightarrow>
  - (256 ^ length bs) \<le> 2 * le_sint bs \<and> 2 * le_sint bs < 256 ^ length bs"
proof -
  have "- m \<le> 2 * (if m \<le> 2 * u then u - m else u) \<and> 2 * (if m \<le> 2 * u then u - m else u) < m"
    if "0 \<le> u" "u < m" for u m :: int
    using that by (cases "m \<le> 2 * u") auto
  from this [OF le_uint_nonneg le_uint_less] show ?thesis
    by (simp only: le_sint_def Let_def)
qed

end
