(* ===== verification/Refinement.thy ===== *)
theory Refinement
  imports Main
begin

text \<open>
  The contract between a data structure of the program and the abstract value it represents,
  shared by the integer set, the hash table, the linked list, the dynamic string and the
  listpack.  A structure is given by a fallible operation \<open>cstep\<close> on concrete states; the
  contract says that under the invariant every valid operation returns, keeps the invariant
  and does to the abstract value what \<open>astep\<close> does, with the same reply.  Some structures have a
  size limit; \<open>load\<close> measures how full a state is and an operation raises it by at most \<open>cost\<close>.
\<close>

section \<open>Sequences of operations\<close>

fun run_concrete :: "('op \<Rightarrow> 's \<Rightarrow> ('s \<times> 'r) option) \<Rightarrow> 'op list \<Rightarrow> 's \<Rightarrow> ('s \<times> 'r list) option" where
  "run_concrete cstep [] s = Some (s, [])"
| "run_concrete cstep (op # ops) s =
     (case cstep op s of None \<Rightarrow> None
      | Some (s', r) \<Rightarrow>
          (case run_concrete cstep ops s' of None \<Rightarrow> None
           | Some (s'', rs) \<Rightarrow> Some (s'', r # rs)))"

fun run_abstract :: "('op \<Rightarrow> 'a \<Rightarrow> 'a \<times> 'r) \<Rightarrow> 'op list \<Rightarrow> 'a \<Rightarrow> 'a \<times> 'r list" where
  "run_abstract astep [] a = (a, [])"
| "run_abstract astep (op # ops) a =
     (case astep op a of (a', r) \<Rightarrow>
        case run_abstract astep ops a' of (a'', rs) \<Rightarrow> (a'', r # rs))"

section \<open>The contract\<close>

locale data_refinement =
  fixes inv :: "'s \<Rightarrow> bool"
    and abs :: "'s \<Rightarrow> 'a"
    and valid :: "'op \<Rightarrow> bool"
    and load :: "'s \<Rightarrow> nat"
    and cost :: "'op \<Rightarrow> nat"
    and cap :: nat
    and cstep :: "'op \<Rightarrow> 's \<Rightarrow> ('s \<times> 'r) option"
    and astep :: "'op \<Rightarrow> 'a \<Rightarrow> 'a \<times> 'r"
  assumes step_refines:
    "inv s \<Longrightarrow> valid op \<Longrightarrow> load s + cost op \<le> cap \<Longrightarrow>
     \<exists>s' r. cstep op s = Some (s', r) \<and> inv s' \<and> load s' \<le> load s + cost op \<and>
       astep op (abs s) = (abs s', r)"
begin

lemma run_refines:
  assumes "inv s" "list_all valid ops" "load s + sum_list (map cost ops) \<le> cap"
  shows "\<exists>s' rs. run_concrete cstep ops s = Some (s', rs) \<and> inv s' \<and>
    run_abstract astep ops (abs s) = (abs s', rs)"
  using assms
proof (induction ops arbitrary: s)
  case (Cons op ops)
  then obtain s1 r where s1: "cstep op s = Some (s1, r)" "inv s1" "load s1 \<le> load s + cost op"
    "astep op (abs s) = (abs s1, r)"
    using step_refines [of s op] by auto
  with Cons.IH [of s1] Cons.prems show ?case by fastforce
qed simp

end

end
