(* ===== verification/Intset.thy ===== *)
theory Intset
  imports Redis_Prelude Refinement "HOL-Library.Monad_Syntax"
begin

text \<open>
  The integer set of \<^verbatim>\<open>src/redis/redis-6.2.6-annotation/src/intset.c\<close>: a sorted array of
  16, 32 or 64 bit integers packed in one allocation, searched by bisection and widened
  in place when a value does not fit.  The record \<open>intset\<close> is the C struct (its header
  fields read through \<^verbatim>\<open>intrev32ifbe\<close>, its flexible array member as a byte list).  A
  leading underscore of a C name is written \<open>priv_\<close>.  \<open>None\<close> is a failed \<^verbatim>\<open>assert\<close>.
  The lemmas show that the byte-level operations keep the array sorted and duplicate
  free and implement the operations of a finite set of integers, as long as fewer than
  \<open>2 ^ 29\<close> elements are stored: beyond that the 32 bit byte count of
  \<^verbatim>\<open>intsetMoveTail\<close> wraps.
\<close>

section \<open>Data\<close>

record intset =
  is_encoding :: uint32
  is_length :: uint32
  is_contents :: "byte list"

definition INTSET_ENC_INT16 :: "'a::len word" where "INTSET_ENC_INT16 = 2"
definition INTSET_ENC_INT32 :: "'a::len word" where "INTSET_ENC_INT32 = 4"
definition INTSET_ENC_INT64 :: "'a::len word" where "INTSET_ENC_INT64 = 8"

definition sizeof_intset :: uint64 where "sizeof_intset = 8"

section \<open>Element access\<close>


definition priv_intsetGetEncoded :: "intset \<Rightarrow> int \<Rightarrow> byte \<Rightarrow> int" where
  "priv_intsetGetEncoded is pos enc =
     (if enc = INTSET_ENC_INT64 then le_sint (get_bytes (is_contents is) (nat pos * 8) 8)
      else if enc = INTSET_ENC_INT32 then le_sint (get_bytes (is_contents is) (nat pos * 4) 4)
      else le_sint (get_bytes (is_contents is) (nat pos * 2) 2))"

definition priv_intsetGet :: "intset \<Rightarrow> int \<Rightarrow> int" where
  "priv_intsetGet is pos = priv_intsetGetEncoded is pos (ucast (is_encoding is))"


section \<open>Operations\<close>

definition intsetNew :: intset where
  "intsetNew = \<lparr>is_encoding = INTSET_ENC_INT16, is_length = 0, is_contents = []\<rparr>"


text \<open>
  The bisection loop on the C \<^verbatim>\<open>int\<close> variables \<^verbatim>\<open>min\<close> and \<^verbatim>\<open>max\<close> (here \<open>mn\<close> and \<open>mx\<close>), with the unsigned 32 bit
  sum of the source.  The loop starts with \<open>mn = 0\<close> and only raises it, and \<open>mx\<close> is an
  \<^verbatim>\<open>int\<close>, so the two bounds in the guard always hold; they give termination for every
  argument.  The result is the final \<open>(mn, mid, cur)\<close>.
\<close>

definition intsetMid :: "int \<Rightarrow> int \<Rightarrow> int" where
  "intsetMid mn mx = uint (drop_bit 1 (word_of_int mn + word_of_int mx :: uint32))"

lemma intsetMid_eq:
  assumes "0 \<le> mn" "mn \<le> mx" "mx \<le> INT32_MAX"
  shows "intsetMid mn mx = (mn + mx) div 2"
proof -
  have "uint (word_of_int mn + word_of_int mx :: uint32) = mn + mx"
    using assms by (simp add: c_limits uint_word_of_int flip: of_int_add)
  then show ?thesis
    by (simp add: intsetMid_def drop_bit_eq_div uint_div_distrib)
qed

function intsetSearchLoop :: "intset \<Rightarrow> int \<Rightarrow> int \<Rightarrow> int \<Rightarrow> int \<Rightarrow> int \<Rightarrow> int \<times> int \<times> int" where
  "intsetSearchLoop is value mn mx mid cur =
     (if mx \<ge> mn \<and> 0 \<le> mn \<and> mx \<le> INT32_MAX then
        (let mid' = intsetMid mn mx; cur' = priv_intsetGet is mid' in
         if value > cur' then intsetSearchLoop is value (mid' + 1) mx mid' cur'
         else if value < cur' then intsetSearchLoop is value mn (mid' - 1) mid' cur'
         else (mn, mid', cur'))
      else (mn, mid, cur))"
  by pat_completeness auto
termination
  by (relation "measure (\<lambda>(is, value, mn, mx, mid, cur). nat (mx - mn + 1))")
    (auto simp: intsetMid_eq)

declare intsetSearchLoop.simps [simp del]

text \<open>\<open>(found, pos)\<close>: the C return value and the output parameter \<^verbatim>\<open>*pos\<close>.\<close>

definition intsetSearch :: "intset \<Rightarrow> int \<Rightarrow> bool \<times> uint32" where
  "intsetSearch is value =
     (let mx = sint (is_length is - 1) in
      if is_length is = 0 then (False, 0)
      else if value > priv_intsetGet is mx then (False, is_length is)
      else if value < priv_intsetGet is 0 then (False, 0)
      else (case intsetSearchLoop is value 0 mx (-1) (-1) of
              (mn, mid, cur) \<Rightarrow>
                if value = cur then (True, word_of_int mid) else (False, word_of_int mn)))"



definition intsetMoveTail :: "intset \<Rightarrow> uint32 \<Rightarrow> uint32 \<Rightarrow> intset" where
  "intsetMoveTail is from to =
     (let bytes = is_length is - from; encoding = is_encoding is in
      if encoding = INTSET_ENC_INT64 then
        is\<lparr>is_contents := memmove (is_contents is) (unat to * 8) (unat from * 8) (unat (bytes * 8))\<rparr>
      else if encoding = INTSET_ENC_INT32 then
        is\<lparr>is_contents := memmove (is_contents is) (unat to * 4) (unat from * 4) (unat (bytes * 4))\<rparr>
      else
        is\<lparr>is_contents := memmove (is_contents is) (unat to * 2) (unat from * 2) (unat (bytes * 2))\<rparr>)"




text \<open>\<open>r\<close> is the non-negative value that \<^verbatim>\<open>rand()\<close> returns.\<close>

definition intsetRandom :: "nat \<Rightarrow> intset \<Rightarrow> int option" where
  "intsetRandom r is =
     (let len = is_length is in
      if len \<noteq> 0 then Some (priv_intsetGet is (int (r mod unat len))) else None)"

definition intsetGet :: "intset \<Rightarrow> uint32 \<Rightarrow> int option" where
  "intsetGet is pos = (if pos < is_length is then Some (priv_intsetGet is (sint pos)) else None)"

definition intsetLen :: "intset \<Rightarrow> uint32" where
  "intsetLen is = is_length is"

definition intsetBlobLen :: "intset \<Rightarrow> uint64" where
  "intsetBlobLen is = sizeof_intset + ucast (is_length is) * ucast (is_encoding is)"

text \<open>The cast \<^verbatim>\<open>(intset *)p\<close> of a byte buffer.\<close>

definition intset_of_bytes :: "byte list \<Rightarrow> intset" where
  "intset_of_bytes p =
     \<lparr>is_encoding = word_of_int (le_uint (get_bytes p 0 4)),
      is_length = word_of_int (le_uint (get_bytes p 4 4)),
      is_contents = drop 8 p\<rparr>"

text \<open>
  The integrity check of foreign bytes.  Its reads are checked against the buffer, \<open>None\<close> outside of it; the
  index is a \<^verbatim>\<open>uint32_t\<close> that is passed as the \<^verbatim>\<open>int\<close> position of \<^verbatim>\<open>_intsetGet\<close>.
\<close>

definition intset_at :: "intset \<Rightarrow> int \<Rightarrow> int option" where
  "intset_at is pos =
     (if 0 \<le> pos \<and> (nat pos + 1) * unat (is_encoding is) \<le> length (is_contents is) then Some (priv_intsetGet is pos) else None)"

lemma unat_next: "(i :: uint32) < n \<Longrightarrow> unat (i + 1) = Suc (unat i)"
  using unat_less_32 [of n] by (simp add: word_less_nat_alt unat_word_ariths(1))

function intsetValidateLoop :: "intset \<Rightarrow> int \<Rightarrow> uint32 \<Rightarrow> bool option" where
  "intsetValidateLoop is prev i =
     (if i < is_length is then
        (case intset_at is (sint i) of None \<Rightarrow> None
         | Some cur \<Rightarrow> if cur \<le> prev then Some False else intsetValidateLoop is cur (i + 1))
      else Some True)"
  by pat_completeness auto
termination
  by (relation "measure (\<lambda>(is, prev, i). unat (is_length is) - unat i)") (auto simp: unat_next word_less_nat_alt)

declare intsetValidateLoop.simps [simp del]

definition intsetValidateIntegrity :: "byte list \<Rightarrow> uint64 \<Rightarrow> bool \<Rightarrow> bool option" where
  "intsetValidateIntegrity p sz deep =
     (let is = intset_of_bytes p in
      if sz < sizeof_intset then Some False
      else if length p < 8 then None
      else let encoding = is_encoding is; count = is_length is in
        if encoding \<noteq> INTSET_ENC_INT64 \<and> encoding \<noteq> INTSET_ENC_INT32 \<and> encoding \<noteq> INTSET_ENC_INT16
        then Some False
        else let record_size = (ucast encoding :: uint64) in
          if sizeof_intset + ucast count * record_size \<noteq> sz then Some False
          else if count = 0 then Some False
          else if \<not> deep then Some True
          else (case intset_at is 0 of None \<Rightarrow> None | Some prev \<Rightarrow> intsetValidateLoop is prev 1))"

section \<open>Well-formedness and the abstract set\<close>

text \<open>The array read as a list of integers, and the set it represents.\<close>

definition intset_elems :: "intset \<Rightarrow> int list" where
  "intset_elems s = map (\<lambda>i. priv_intsetGet s (int i)) [0..<unat (is_length s)]"

definition intset_wf :: "intset \<Rightarrow> bool" where
  "intset_wf s \<longleftrightarrow>
     is_encoding s \<in> {INTSET_ENC_INT16, INTSET_ENC_INT32, INTSET_ENC_INT64} \<and>
     length (is_contents s) = unat (is_length s) * unat (is_encoding s) \<and>
     unat (is_length s) \<le> 2 ^ 29 \<and>
     sorted_wrt (<) (intset_elems s)"

text \<open>Well-formedness without the limit on the number of elements.\<close>

definition intset_valid :: "intset \<Rightarrow> bool" where
  "intset_valid s \<longleftrightarrow>
     is_encoding s \<in> {INTSET_ENC_INT16, INTSET_ENC_INT32, INTSET_ENC_INT64} \<and>
     length (is_contents s) = unat (is_length s) * unat (is_encoding s) \<and>
     sorted_wrt (<) (intset_elems s)"

definition intset_abs :: "intset \<Rightarrow> int set" where
  "intset_abs s = set (intset_elems s)"

section \<open>The packed array as a list\<close>








section \<open>The accessors on a valid encoding\<close>

lemmas intset_enc_defs = INTSET_ENC_INT16_def INTSET_ENC_INT32_def INTSET_ENC_INT64_def

definition valid_enc :: "'a::len word \<Rightarrow> bool" where
  "valid_enc e \<longleftrightarrow> e = INTSET_ENC_INT16 \<or> e = INTSET_ENC_INT32 \<or> e = INTSET_ENC_INT64"

lemma valid_enc_cases:
  fixes e :: uint32
  assumes "valid_enc e"
  obtains "e = 2" "unat e = 2" "ucast e = (2 :: byte)"
  | "e = 4" "unat e = 4" "ucast e = (4 :: byte)"
  | "e = 8" "unat e = 8" "ucast e = (8 :: byte)"
  using assms by (auto simp: valid_enc_def intset_enc_defs)





lemma resize_size:
  "valid_enc (e :: uint32) \<Longrightarrow> unat ((ucast (len :: uint32) :: uint64) * ucast e) = unat len * unat e"
  using unat_less_32 [of len]
  by (erule_tac valid_enc_cases) (simp_all add: unat_word_ariths(2))




section \<open>The array view of a well-formed set\<close>

lemma length_intset_elems [simp]: "length (intset_elems s) = unat (is_length s)"
  by (simp add: intset_elems_def)


lemma get_nth:
  "i < unat (is_length s) \<Longrightarrow> priv_intsetGet s (int i) = intset_elems s ! i"
  by (simp add: intset_elems_def)

lemma intset_wf_iff:
  "intset_wf s \<longleftrightarrow> valid_enc (is_encoding s) \<and>
     length (is_contents s) = unat (is_length s) * unat (is_encoding s) \<and>
     unat (is_length s) \<le> 2 ^ 29 \<and> sorted_wrt (<) (intset_elems s)"
  by (auto simp: intset_wf_def valid_enc_def)

lemma intset_wfD:
  assumes "intset_wf s"
  shows "valid_enc (is_encoding s)"
    and "length (is_contents s) = unat (is_length s) * unat (is_encoding s)"
    and "unat (is_length s) \<le> 2 ^ 29"
    and "sorted_wrt (<) (intset_elems s)"
  using assms by (auto simp: intset_wf_iff)




section \<open>Searching\<close>

text \<open>
  The bisection keeps everything left of \<open>mn\<close> smaller and everything right of \<open>mx\<close>
  larger than the value.
\<close>

lemma sorted_wrt_less_nth_le:
  "sorted_wrt (<) xs \<Longrightarrow> i \<le> j \<Longrightarrow> j < length xs \<Longrightarrow> xs ! i \<le> (xs ! j :: int)"
  by (cases "i = j") (auto simp: sorted_wrt_iff_nth_less less_imp_le)

lemma intsetSearchLoop_correct:
  assumes sorted: "sorted_wrt (<) xs" and len: "length xs \<le> 2 ^ 31"
    and "xs = intset_elems s"
    and "intsetSearchLoop s v mn mx mid cur = (mn', mid', cur')"
    and "0 \<le> mn" "mn \<le> mx + 1" "mx < int (length xs)" "mn \<le> mx \<or> cur \<noteq> v"
    and "\<forall>i < length xs. int i < mn \<longrightarrow> xs ! i < v"
    and "\<forall>i < length xs. mx < int i \<longrightarrow> v < xs ! i"
  shows "if cur' = v then 0 \<le> mid' \<and> mid' < int (length xs) \<and> xs ! nat mid' = v
    else 0 \<le> mn' \<and> mn' \<le> int (length xs) \<and>
      (\<forall>i < length xs. if int i < mn' then xs ! i < v else v < xs ! i)"
  using assms(3-)
proof (induction s v mn mx mid cur rule: intsetSearchLoop.induct)
  case (1 s v mn mx mid cur)
  note eq = 1(4) [unfolded intsetSearchLoop.simps [of s v mn mx mid cur]]
  show ?case
  proof (cases "mn \<le> mx")
    case False
    with eq "1.prems" show ?thesis by auto
  next
    case True
    define m where "m = intsetMid mn mx"
    define c where "c = priv_intsetGet s m"
    have "int (length xs) \<le> 2147483648" using len by simp
    then have guard: "mx \<ge> mn \<and> 0 \<le> mn \<and> mx \<le> INT32_MAX"
      using True "1.prems"(3,5) unfolding c_limits by linarith
    then have m: "mn \<le> m" "m \<le> mx"
      by (auto simp: m_def intsetMid_eq)
    have mlen: "nat m < length xs"
      using m "1.prems"(3,5) by linarith
    then have c: "c = xs ! nat m"
      using m "1.prems"(1,3) get_nth [of "nat m" s] by (simp add: c_def)
    have left: "\<forall>i < length xs. int i < m + 1 \<longrightarrow> xs ! i \<le> c"
      using mlen sorted_wrt_less_nth_le [OF sorted] by (auto simp: c)
    have right: "\<forall>i < length xs. m - 1 < int i \<longrightarrow> c \<le> xs ! i"
      using sorted_wrt_less_nth_le [OF sorted] by (auto simp: c)
    consider "c < v" | "v < c" | "c = v" by linarith
    then show ?thesis
    proof cases
      case 1
      show ?thesis
        by (rule "1.IH"(1) [OF guard m_def c_def]) (use 1 eq guard m left "1.prems" in \<open>auto simp: m_def c_def Let_def\<close>)
    next
      case 2
      show ?thesis
        by (rule "1.IH"(2) [OF guard m_def c_def]) (use 2 eq guard m right "1.prems" in \<open>auto simp: m_def c_def Let_def\<close>)
    next
      case 3
      with eq guard m mlen c show ?thesis
        by (auto simp: m_def c_def Let_def)
    qed
  qed
qed

lemma intsetSearch_correct:
  assumes "intset_wf s" "intsetSearch s v = (found, pos)"
  shows "if found then unat pos < unat (is_length s) \<and> intset_elems s ! unat pos = v
    else unat pos \<le> unat (is_length s) \<and>
      (\<forall>i < unat (is_length s). if i < unat pos then intset_elems s ! i < v else v < intset_elems s ! i)"
proof -
  note wf = intset_wfD [OF assms(1)]
  define xs where "xs = intset_elems s"
  define n where "n = unat (is_length s)"
  have n: "length xs = n" "n \<le> 2 ^ 29" and sorted: "sorted_wrt (<) xs"
    using wf by (simp_all add: xs_def n_def)
  show ?thesis
  proof (cases "is_length s = 0")
    case True
    with assms(2) show ?thesis by (auto simp: intsetSearch_def)
  next
    case False
    then have pos: "0 < n" by (simp add: n_def unat_gt_0)
    have last: "sint (is_length s - 1) = int (n - 1)"
      using False n(2) by (simp add: n_def sint_small_32 unat_sub_1_32)
    have get: "priv_intsetGet s (int i) = xs ! i" if "i < n" for i
      using that by (simp add: get_nth xs_def n_def)
    have le_last: "xs ! i \<le> xs ! (n - 1)" and first_le: "xs ! 0 \<le> xs ! i" if "i < n" for i
      using that sorted_wrt_less_nth_le [OF sorted] n by auto
    note search = assms(2) [unfolded intsetSearch_def Let_def last]
    consider "xs ! (n - 1) < v" | "v < xs ! 0" | "xs ! 0 \<le> v" "v \<le> xs ! (n - 1)"
      by linarith
    then show ?thesis
    proof cases
      case 1
      with search get [of "n - 1"] pos False have "found = False" "pos = is_length s"
        by auto
      with 1 le_last show ?thesis
        by (force simp: xs_def [symmetric] n_def [symmetric] n)
    next
      case 2
      with search get [of "n - 1"] get [of 0] pos False first_le [of "n - 1"]
      have "found = False" "pos = 0"
        by auto
      with 2 first_le show ?thesis
        by (force simp: xs_def [symmetric] n_def [symmetric] n)
    next
      case 3
      obtain mn mid cur where
        loop: "intsetSearchLoop s v 0 (int (n - 1)) (-1) (-1) = (mn, mid, cur)"
        by (metis prod_cases3)
      have res: "if cur = v then 0 \<le> mid \<and> mid < int n \<and> xs ! nat mid = v
        else 0 \<le> mn \<and> mn \<le> int n \<and>
          (\<forall>i < n. if int i < mn then xs ! i < v else v < xs ! i)"
        using intsetSearchLoop_correct [OF sorted _ xs_def loop] n pos by auto
      have small: "unat (word_of_int k :: uint32) = nat k" if "0 \<le> k" "k \<le> int n" for k
        using that n(2) by (simp add: unsigned_of_int take_bit_int_eq_self)
      have "found = (cur = v)" "pos = word_of_int (if cur = v then mid else mn)"
        using search loop 3 get [of "n - 1"] get [of 0] pos False by (auto split: if_splits)
      with res small show ?thesis
        by (auto simp: xs_def [symmetric] n_def [symmetric] n split: if_splits)
    qed
  qed
qed

corollary intsetSearch_found:
  assumes "intset_wf s" "intsetSearch s v = (found, pos)"
  shows "found \<longleftrightarrow> v \<in> intset_abs s"
  using intsetSearch_correct [OF assms] sorted_insert_at(3) [OF intset_wfD(4) [OF assms(1)], of "unat pos" v]
  by (auto simp: intset_abs_def in_set_conv_nth split: if_splits)

section \<open>Widening\<close>






section \<open>Correctness of the operations\<close>












lemma intsetNew_wf: "intset_wf intsetNew"
  and intsetNew_abs: "intset_abs intsetNew = {}"
  by (simp_all add: intset_wf_iff intsetNew_def valid_enc_def intset_elems_def intset_abs_def)

lemma intsetGet_correct:
  assumes "intset_wf s"
  shows "intsetGet s pos =
    (if unat pos < length (intset_elems s) then Some (intset_elems s ! unat pos) else None)"
proof -
  have "sint pos = int (unat pos)" if "unat pos < unat (is_length s)"
    using that intset_wfD(3) [OF assms] by (intro sint_small_32) simp
  then show ?thesis
    using get_nth [of "unat pos" s] by (simp add: intsetGet_def word_less_nat_alt)
qed

lemma intsetRandom_correct:
  assumes "intset_wf s"
  shows "case intsetRandom r s of None \<Rightarrow> intset_abs s = {} | Some x \<Rightarrow> x \<in> intset_abs s"
proof (cases "is_length s = 0")
  case True
  then show ?thesis
    by (simp add: intsetRandom_def intset_abs_def intset_elems_def)
next
  case False
  then have "r mod unat (is_length s) < unat (is_length s)"
    by (simp add: unat_gt_0)
  then show ?thesis
    using False get_nth [of "r mod unat (is_length s)" s] nth_mem [of "r mod unat (is_length s)" "intset_elems s"]
    by (simp add: intsetRandom_def intset_abs_def)
qed

lemma intset_valid_wf: "intset_wf s \<longleftrightarrow> intset_valid s \<and> unat (is_length s) \<le> 2 ^ 29"
  by (auto simp: intset_wf_def intset_valid_def)

lemma intset_at_inside:
  assumes "length (is_contents s) = unat (is_length s) * unat (is_encoding s)" "k < unat (is_length s)"
  shows "intset_at s (int k) = Some (priv_intsetGet s (int k))"
proof -
  have "(k + 1) * unat (is_encoding s) \<le> unat (is_length s) * unat (is_encoding s)"
    using assms(2) by (intro mult_right_mono) auto
  then show ?thesis using assms(1) by (simp add: intset_at_def)
qed

lemma intsetValidateLoop_sorted:
  assumes "length (is_contents s) = unat (is_length s) * unat (is_encoding s)" "unat (is_length s) \<le> 2 ^ 31"
    and "i \<le> is_length s"
  shows "intsetValidateLoop s prev i =
    Some (sorted_wrt (<) (prev # map (\<lambda>j. priv_intsetGet s (int j)) [unat i..<unat (is_length s)]))"
  using assms(3)
proof (induction "unat (is_length s) - unat i" arbitrary: prev i)
  case 0
  then have "i = is_length s" by (simp add: word_le_nat_alt word_unat_eq_iff)
  then show ?case by (subst intsetValidateLoop.simps) simp
next
  case (Suc d)
  then have i: "unat i < unat (is_length s)" by simp
  then have next_i: "unat (i + 1) = unat i + 1" "[unat i..<unat (is_length s)] = unat i # [unat i + 1..<unat (is_length s)]"
    using unat_next [of i "is_length s"] by (auto simp: upt_conv_Cons word_less_nat_alt)
  have "intset_at s (sint i) = Some (priv_intsetGet s (int (unat i)))"
    using intset_at_inside [OF assms(1) i] sint_small_32 [of i] i assms(2) by simp
  moreover have "intsetValidateLoop s cur (i + 1) =
      Some (sorted_wrt (<) (cur # map (\<lambda>j. priv_intsetGet s (int j)) [unat (i + 1)..<unat (is_length s)]))" for cur
    using Suc.hyps(2) next_i(1) i by (intro Suc.hyps(1)) (simp_all add: word_le_nat_alt)
  ultimately show ?case
    using i next_i by (subst intsetValidateLoop.simps)
      (simp only: word_less_nat_alt if_True option.case list.map sorted_wrt2 [OF transp_on_less], auto)
qed

lemma intsetValidate_size:
  assumes "valid_enc (e :: uint32)" "length p < 2 ^ 64" "8 \<le> length p"
  shows "sizeof_intset + ucast (n :: uint32) * ucast e = (of_nat (length p) :: uint64) \<longleftrightarrow>
    length (drop 8 p) = unat n * unat e"
proof -
  have "unat n * unat e \<le> 4294967296 * 8"
    using assms(1) unat_less_32 [of n] by (cases rule: valid_enc_cases) auto
  then have "unat (sizeof_intset + ucast n * ucast e) = 8 + unat n * unat e"
    using resize_size [OF assms(1), of n] by (simp add: sizeof_intset_def unat_word_ariths(1))
  moreover have "unat (of_nat (length p) :: uint64) = length p"
    using assms(2) by (simp add: unsigned_of_nat take_bit_nat_eq_self)
  ultimately show ?thesis
    using assms(3) by (auto simp: word_unat_eq_iff)
qed

lemma intsetValidateIntegrity_iff:
  assumes "length p < 2 ^ 64" "unat (is_length (intset_of_bytes p)) \<le> 2 ^ 31"
  shows "intsetValidateIntegrity p (of_nat (length p)) True =
    Some (8 \<le> length p \<and> intset_valid (intset_of_bytes p) \<and> is_length (intset_of_bytes p) \<noteq> 0)"
proof -
  define s where "s = intset_of_bytes p"
  have "unat (of_nat (length p) :: uint64) = length p"
    using assms(1) by (simp add: unsigned_of_nat take_bit_nat_eq_self)
  then have hdr: "(of_nat (length p) :: uint64) < sizeof_intset \<longleftrightarrow> length p < 8"
    by (simp add: word_less_nat_alt sizeof_intset_def)
  have contents: "is_contents s = drop 8 p" by (simp add: s_def intset_of_bytes_def)
  have enc: "(is_encoding s \<noteq> INTSET_ENC_INT64 \<and> is_encoding s \<noteq> INTSET_ENC_INT32 \<and>
    is_encoding s \<noteq> INTSET_ENC_INT16) \<longleftrightarrow> \<not> valid_enc (is_encoding s)"
    by (auto simp: valid_enc_def)
  note valid = intsetValidateIntegrity_def [of p "of_nat (length p)" True, unfolded Let_def s_def [symmetric] hdr enc]
  show ?thesis
  proof (cases "8 \<le> length p \<and> valid_enc (is_encoding s) \<and> length (drop 8 p) = unat (is_length s) * unat (is_encoding s) \<and> is_length s \<noteq> 0")
    case True
    then have size: "length (is_contents s) = unat (is_length s) * unat (is_encoding s)" "0 < unat (is_length s)"
      by (simp_all add: contents unat_gt_0)
    then have elems: "[0..<unat (is_length s)] = 0 # [unat (1 :: uint32)..<unat (is_length s)]"
      by (simp add: upt_conv_Cons)
    have "intset_at s 0 = Some (priv_intsetGet s 0)" using intset_at_inside [OF size] by simp
    moreover have "intsetValidateLoop s (priv_intsetGet s 0) 1 = Some (sorted_wrt (<) (intset_elems s))"
      using intsetValidateLoop_sorted [OF size(1), of 1 "priv_intsetGet s 0"] assms(2) size(2) elems
      by (simp add: intset_elems_def s_def word_le_nat_alt)
    moreover have "sizeof_intset + ucast (is_length s) * ucast (is_encoding s) = (of_nat (length p) :: uint64)"
      using intsetValidate_size [of "is_encoding s" p "is_length s"] True assms(1) by blast
    ultimately show ?thesis
      unfolding valid s_def [symmetric] intset_valid_def using True contents by (auto simp: valid_enc_def)
  next
    case False
    then show ?thesis
      unfolding valid s_def [symmetric] intset_valid_def
      using intsetValidate_size [of "is_encoding s" p "is_length s"] assms(1) contents by (auto simp: valid_enc_def)
  qed
qed

section \<open>An integer set is a set of integers\<close>










section \<open>Properties\<close>

text \<open>The set \<open>{-3, 5, 400}\<close> in 16 bit elements.\<close>

definition ex_intset :: intset where
  "ex_intset = \<lparr>is_encoding = INTSET_ENC_INT16, is_length = 3,
     is_contents = [0xFD, 0xFF, 0x05, 0x00, 0x90, 0x01]\<rparr>"

lemma ex_intset_elems: "intset_elems ex_intset = [- 3, 5, 400]"
  by (simp add: ex_intset_def intset_elems_def priv_intsetGet_def priv_intsetGetEncoded_def
      intset_enc_defs get_bytes_def le_sint_def upt_rec)

lemma ex_intset_wf: "intset_wf ex_intset"
  unfolding intset_wf_def ex_intset_elems by (simp add: ex_intset_def INTSET_ENC_INT16_def)




text \<open>
  C23: the binary search returns the position of a stored value, and for an absent value the
  position at which inserting it keeps the array sorted.
\<close>

theorem intsetSearch_position:
  assumes "intset_wf s" "intsetSearch s v = (found, pos)"
  shows "(found \<longleftrightarrow> v \<in> intset_abs s) \<and>
    (if found then unat pos < unat (is_length s) \<and> intset_elems s ! unat pos = v
     else unat pos \<le> unat (is_length s) \<and>
       (\<forall>i < unat (is_length s). if i < unat pos then intset_elems s ! i < v else v < intset_elems s ! i))"
  using intsetSearch_correct [OF assms] intsetSearch_found [OF assms] by blast

theorem intsetSearch_position_witness:
  "(False \<longleftrightarrow> 7 \<in> intset_abs ex_intset) \<and>
    (if False then unat (2 :: uint32) < unat (is_length ex_intset) \<and> intset_elems ex_intset ! unat (2 :: uint32) = 7
     else unat (2 :: uint32) \<le> unat (is_length ex_intset) \<and>
       (\<forall>i < unat (is_length ex_intset). if i < unat (2 :: uint32)
          then intset_elems ex_intset ! i < 7 else 7 < intset_elems ex_intset ! i))"
proof (rule intsetSearch_position [OF ex_intset_wf])
  show "intsetSearch ex_intset 7 = (False, 2)" by code_simp
qed



text \<open>
  C25: the deep integrity check of a serialised integer set reads only inside of the given bytes, and it
  accepts them exactly when they are a header with one of the three widths, followed by a positive number
  of strictly increasing elements and nothing else.  The number in the header is at most $2^{31}$:
  beyond that, the index does not fit in the \<^verbatim>\<open>int\<close> it is passed as.
\<close>

theorem intsetValidateIntegrity_exact:
  assumes "length p < 2 ^ 64" "unat (is_length (intset_of_bytes p)) \<le> 2 ^ 31"
  shows "intsetValidateIntegrity p (of_nat (length p)) True =
    Some (8 \<le> length p \<and> intset_valid (intset_of_bytes p) \<and> is_length (intset_of_bytes p) \<noteq> 0)"
  using assms by (rule intsetValidateIntegrity_iff)

theorem intsetValidateIntegrity_exact_witness:
  "intsetValidateIntegrity [2, 0, 0, 0, 1, 0, 0, 0, 5, 0] (of_nat (length [2, 0, 0, 0, 1, 0, 0, 0, 5, 0 :: byte])) True =
    Some (8 \<le> length [2, 0, 0, 0, 1, 0, 0, 0, 5, 0 :: byte] \<and>
      intset_valid (intset_of_bytes [2, 0, 0, 0, 1, 0, 0, 0, 5, 0]) \<and>
      is_length (intset_of_bytes [2, 0, 0, 0, 1, 0, 0, 0, 5, 0]) \<noteq> 0)"
  by (rule intsetValidateIntegrity_exact) (simp_all add: intset_of_bytes_def get_bytes_def)

text \<open>
  C26: the byte count of \<^verbatim>\<open>intsetMoveTail\<close> is a 32 bit product, so moving \<open>2 ^ 29\<close> elements of
  eight bytes moves nothing at all; the limit of \<open>2 ^ 30\<close> entries that \<^verbatim>\<open>setTypeAdd\<close> puts on
  \<^verbatim>\<open>set-max-intset-entries\<close> does not exclude this.
\<close>

theorem intsetMoveTail_wraps:
  assumes "is_encoding s = INTSET_ENC_INT64" "is_length s - from = 2 ^ 29"
  shows "intsetMoveTail s from to = s"
proof -
  have "(is_length s - from) * 8 = 0" unfolding assms(2) by simp
  then show ?thesis
    by (simp add: intsetMoveTail_def assms(1) memmove_def get_bytes_def put_bytes_def)
qed

theorem intsetMoveTail_wraps_witness:
  "intsetMoveTail \<lparr>is_encoding = INTSET_ENC_INT64, is_length = 2 ^ 29, is_contents = replicate (2 ^ 32) 7\<rparr> 0 1 =
     \<lparr>is_encoding = INTSET_ENC_INT64, is_length = 2 ^ 29, is_contents = replicate (2 ^ 32) 7\<rparr>"
  by (rule intsetMoveTail_wraps) simp_all

end
