(* ===== verification/Dict.thy ===== *)
theory Dict
  imports Redis_Prelude "HOL-Library.Monad_Syntax" "HOL-Library.Multiset"
begin

unbundle bit_operations_syntax

text \<open>
  The hash table of \<^verbatim>\<open>src/redis/redis-6.2.6-annotation/src/dict.c\<close> and \<^verbatim>\<open>dict.h\<close>: chained
  buckets in a table whose size is a power of two, resized by incremental rehashing
  from \<open>ht0\<close> (C: \<^verbatim>\<open>ht[0]\<close>) into \<open>ht1\<close> (\<^verbatim>\<open>ht[1]\<close>), one bucket per operation.  A chain of
  \<^verbatim>\<open>dictEntry\<close> nodes is the list of its entries in \<^verbatim>\<open>next\<close> order, the table is the list of
  its chains, and the pointer to an entry that an operation returns is its place
  \<open>(table, bucket, position)\<close>.  Sizes, masks, counters and hashes are 64 bit words.  An
  operation returns \<open>None\<close> where the code would stop at an \<^verbatim>\<open>assert\<close>, read outside a table
  or follow a null pointer; \<^verbatim>\<open>zmalloc\<close> and \<^verbatim>\<open>zcalloc\<close> do not return on failure, and the
  outcome of \<^verbatim>\<open>ztrycalloc\<close> is an argument.  The hash function, the comparison, the
  duplication functions and \<^verbatim>\<open>expandAllowed\<close> come from the \<^verbatim>\<open>dictType\<close> of the user of the
  table.  Key and value destructors only release memory that the table no longer
  reaches; they have no counterpart here.
\<close>

section \<open>Data\<close>

text \<open>The value union is \<open>None\<close> between \<^verbatim>\<open>zmalloc\<close> and the first \<^verbatim>\<open>dictSetVal\<close>.\<close>

record ('k, 'v) dictEntry =
  de_key :: 'k
  de_v :: "'v option"

text \<open>
  \<open>expandAllowed\<close> receives the operands of the load factor; C passes their quotient as a
  double.
\<close>

record ('k, 'v) dictType =
  hashFunction :: "'k \<Rightarrow> uint64"
  keyDup :: "('k \<Rightarrow> 'k) option"
  valDup :: "('v \<Rightarrow> 'v) option"
  keyCompare :: "('k \<Rightarrow> 'k \<Rightarrow> bool) option"
  expandAllowed :: "(uint64 \<Rightarrow> uint64 \<times> uint64 \<Rightarrow> bool) option"

record ('k, 'v) dictht =
  ht_table :: "('k, 'v) dictEntry list list"
  ht_size :: uint64
  ht_sizemask :: uint64
  ht_used :: uint64

record ('k, 'v) dict =
  dict_type :: "('k, 'v) dictType"
  ht0 :: "('k, 'v) dictht"
  ht1 :: "('k, 'v) dictht"
  rehashidx :: int
  pauserehash :: int

type_synonym entry_ref = "nat \<times> nat \<times> nat"

datatype dict_status = DICT_OK | DICT_ERR

definition DICT_HT_INITIAL_SIZE :: nat where "DICT_HT_INITIAL_SIZE = 4"
definition LONG_MAX :: nat where "LONG_MAX = 9223372036854775807"
definition dict_force_resize_ratio :: uint64 where "dict_force_resize_ratio = 5"
definition sizeof_ptr :: uint64 where "sizeof_ptr = 8"

section \<open>The macros of dict.h\<close>

definition dictSize :: "('k, 'v) dict \<Rightarrow> uint64" where
  "dictSize d = ht_used (ht0 d) + ht_used (ht1 d)"

definition dictSlots :: "('k, 'v) dict \<Rightarrow> uint64" where
  "dictSlots d = ht_size (ht0 d) + ht_size (ht1 d)"

definition dictIsRehashing :: "('k, 'v) dict \<Rightarrow> bool" where
  "dictIsRehashing d \<longleftrightarrow> rehashidx d \<noteq> - 1"

definition dictHashKey :: "('k, 'v) dict \<Rightarrow> 'k \<Rightarrow> uint64" where
  "dictHashKey d key = hashFunction (dict_type d) key"

definition dictCompareKeys :: "('k, 'v) dict \<Rightarrow> 'k \<Rightarrow> 'k \<Rightarrow> bool" where
  "dictCompareKeys d key1 key2 =
     (case keyCompare (dict_type d) of Some cmp \<Rightarrow> cmp key1 key2 | None \<Rightarrow> key1 = key2)"

definition dictPauseRehashing :: "('k, 'v) dict \<Rightarrow> ('k, 'v) dict" where
  "dictPauseRehashing d = d\<lparr>pauserehash := pauserehash d + 1\<rparr>"

definition dictResumeRehashing :: "('k, 'v) dict \<Rightarrow> ('k, 'v) dict" where
  "dictResumeRehashing d = d\<lparr>pauserehash := pauserehash d - 1\<rparr>"

text \<open>The test \<^verbatim>\<open>key==he->key || dictCompareKeys(d, key, he->key)\<close> of every chain walk.\<close>

definition keyMatches :: "('k, 'v) dict \<Rightarrow> 'k \<Rightarrow> ('k, 'v) dictEntry \<Rightarrow> bool" where
  "keyMatches d key he \<longleftrightarrow> key = de_key he \<or> dictCompareKeys d key (de_key he)"

section \<open>Table access\<close>

definition the_ht :: "('k, 'v) dict \<Rightarrow> nat \<Rightarrow> ('k, 'v) dictht" where
  "the_ht d t = (if t = 0 then ht0 d else ht1 d)"

definition set_ht :: "('k, 'v) dict \<Rightarrow> nat \<Rightarrow> ('k, 'v) dictht \<Rightarrow> ('k, 'v) dict" where
  "set_ht d t h = (if t = 0 then d\<lparr>ht0 := h\<rparr> else d\<lparr>ht1 := h\<rparr>)"

definition bucket :: "('k, 'v) dictht \<Rightarrow> nat \<Rightarrow> ('k, 'v) dictEntry list option" where
  "bucket h i = (if i < length (ht_table h) then Some (ht_table h ! i) else None)"

definition set_bucket :: "('k, 'v) dictht \<Rightarrow> nat \<Rightarrow> ('k, 'v) dictEntry list \<Rightarrow> ('k, 'v) dictht" where
  "set_bucket h i c = h\<lparr>ht_table := (ht_table h)[i := c]\<rparr>"

definition bucketIndex :: "('k, 'v) dictht \<Rightarrow> uint64 \<Rightarrow> nat" where
  "bucketIndex h hash = unat (hash AND ht_sizemask h)"

text \<open>The entry a pointer denotes, and assignment through it.\<close>

definition deref :: "('k, 'v) dict \<Rightarrow> entry_ref \<Rightarrow> ('k, 'v) dictEntry option" where
  "deref d r = (case r of (t, i, p) \<Rightarrow>
     (case bucket (the_ht d t) i of None \<Rightarrow> None
      | Some c \<Rightarrow> if p < length c then Some (c ! p) else None))"

definition assign :: "('k, 'v) dict \<Rightarrow> entry_ref \<Rightarrow> ('k, 'v) dictEntry \<Rightarrow> ('k, 'v) dict" where
  "assign d r e = (case r of (t, i, p) \<Rightarrow>
     set_ht d t (set_bucket (the_ht d t) i ((ht_table (the_ht d t) ! i)[p := e])))"

definition dictSetVal :: "('k, 'v) dict \<Rightarrow> entry_ref \<Rightarrow> 'v \<Rightarrow> ('k, 'v) dict option" where
  "dictSetVal d r v =
     map_option (\<lambda>e. assign d r (e\<lparr>de_v :=
         Some (case valDup (dict_type d) of Some dup \<Rightarrow> dup v | None \<Rightarrow> v)\<rparr>))
       (deref d r)"

definition dictSetKey :: "('k, 'v) dict \<Rightarrow> entry_ref \<Rightarrow> 'k \<Rightarrow> ('k, 'v) dict option" where
  "dictSetKey d r k =
     map_option (\<lambda>e. assign d r (e\<lparr>de_key :=
         (case keyDup (dict_type d) of Some dup \<Rightarrow> dup k | None \<Rightarrow> k)\<rparr>))
       (deref d r)"

section \<open>Creation and resizing\<close>

definition priv_dictReset :: "('k, 'v) dictht" where
  "priv_dictReset = \<lparr>ht_table = [], ht_size = 0, ht_sizemask = 0, ht_used = 0\<rparr>"

definition dictCreate :: "('k, 'v) dictType \<Rightarrow> ('k, 'v) dict" where
  "dictCreate ty =
     \<lparr>dict_type = ty, ht0 = priv_dictReset, ht1 = priv_dictReset, rehashidx = - 1, pauserehash = 0\<rparr>"

text \<open>
  The doubling loop of \<^verbatim>\<open>_dictNextPower\<close> runs only for \<^verbatim>\<open>size < LONG_MAX\<close>, so \<^verbatim>\<open>i\<close> stays at or
  below \<open>2 ^ 63\<close> and the multiplication does not wrap; \<open>i\<close> starts at 4 and is never 0.
\<close>

function dictNextPowerLoop :: "nat \<Rightarrow> nat \<Rightarrow> nat" where
  "dictNextPowerLoop i sz = (if sz \<le> i \<or> i = 0 then i else dictNextPowerLoop (i * 2) sz)"
  by pat_completeness auto
termination
  by (relation "measure (\<lambda>(i, sz). sz - i)") auto

declare dictNextPowerLoop.simps [simp del]

definition priv_dictNextPower :: "uint64 \<Rightarrow> uint64" where
  "priv_dictNextPower sz =
     (if LONG_MAX \<le> unat sz then of_nat (LONG_MAX + 1)
      else of_nat (dictNextPowerLoop DICT_HT_INITIAL_SIZE (unat sz)))"

text \<open>
  \<open>alloc\<close> is \<open>None\<close> for a null \<^verbatim>\<open>malloc_failed\<close> argument and otherwise tells whether
  \<^verbatim>\<open>ztrycalloc\<close> succeeds; the last component of the result is \<^verbatim>\<open>*malloc_failed\<close>.
\<close>

definition priv_dictExpand ::
    "('k, 'v) dict \<Rightarrow> uint64 \<Rightarrow> bool option \<Rightarrow> ('k, 'v) dict \<times> dict_status \<times> bool" where
  "priv_dictExpand d sz alloc =
     (if dictIsRehashing d \<or> ht_used (ht0 d) > sz then (d, DICT_ERR, False)
      else let realsize = priv_dictNextPower sz in
        if realsize < sz \<or> realsize * sizeof_ptr < realsize then (d, DICT_ERR, False)
        else if realsize = ht_size (ht0 d) then (d, DICT_ERR, False)
        else if alloc = Some False then (d, DICT_ERR, True)
        else let n = \<lparr>ht_table = replicate (unat realsize) [], ht_size = realsize,
                      ht_sizemask = realsize - 1, ht_used = 0\<rparr> in
          if ht_table (ht0 d) = [] then (d\<lparr>ht0 := n\<rparr>, DICT_OK, False)
          else (d\<lparr>ht1 := n, rehashidx := 0\<rparr>, DICT_OK, False))"

definition dictExpand :: "('k, 'v) dict \<Rightarrow> uint64 \<Rightarrow> ('k, 'v) dict \<times> dict_status" where
  "dictExpand d sz = (case priv_dictExpand d sz None of (d', st, _) \<Rightarrow> (d', st))"

definition dictTryExpand :: "bool \<Rightarrow> ('k, 'v) dict \<Rightarrow> uint64 \<Rightarrow> ('k, 'v) dict \<times> dict_status" where
  "dictTryExpand alloc_ok d sz =
     (case priv_dictExpand d sz (Some alloc_ok) of
        (d', _, malloc_failed) \<Rightarrow> (d', if malloc_failed then DICT_ERR else DICT_OK))"

definition dictResize :: "bool \<Rightarrow> ('k, 'v) dict \<Rightarrow> ('k, 'v) dict \<times> dict_status" where
  "dictResize dict_can_resize d =
     (if \<not> dict_can_resize \<or> dictIsRehashing d then (d, DICT_ERR)
      else let minimal = ht_used (ht0 d);
               minimal' = (if minimal < of_nat DICT_HT_INITIAL_SIZE
                           then of_nat DICT_HT_INITIAL_SIZE else minimal) in
        dictExpand d minimal')"

section \<open>Incremental rehashing\<close>

text \<open>
  \<^verbatim>\<open>while(d->ht[0].table[d->rehashidx] == NULL)\<close>: skips empty buckets, at most
  \<open>empty_visits\<close> of them.  The result is the new index, the visits left, and whether the
  budget ran out.
\<close>

fun dictSkipEmpty :: "('k, 'v) dictht \<Rightarrow> nat \<Rightarrow> nat \<Rightarrow> (nat \<times> nat \<times> bool) option" where
  "dictSkipEmpty h idx empty_visits =
     (case bucket h idx of None \<Rightarrow> None
      | Some c \<Rightarrow>
          if c \<noteq> [] then Some (idx, empty_visits, False)
          else if empty_visits \<le> 1 then Some (idx + 1, 0, True)
          else dictSkipEmpty h (idx + 1) (empty_visits - 1))"

declare dictSkipEmpty.simps [simp del]

text \<open>The inner loop: the entries of one chain move, in order, to the heads of their new chains.\<close>

fun dictMoveChain :: "('k, 'v) dict \<Rightarrow> ('k, 'v) dictEntry list \<Rightarrow> ('k, 'v) dict option" where
  "dictMoveChain d [] = Some d"
| "dictMoveChain d (de # rest) =
     (let h = bucketIndex (ht1 d) (dictHashKey d (de_key de)) in
      case bucket (ht1 d) h of None \<Rightarrow> None
      | Some c \<Rightarrow>
          dictMoveChain
            (d\<lparr>ht0 := (ht0 d)\<lparr>ht_used := ht_used (ht0 d) - 1\<rparr>,
               ht1 := (set_bucket (ht1 d) h (de # c))\<lparr>ht_used := ht_used (ht1 d) + 1\<rparr>\<rparr>)
            rest)"

text \<open>\<open>(d, empty_visits, out of visits)\<close> after at most \<open>n\<close> buckets.\<close>

fun dictRehashLoop :: "('k, 'v) dict \<Rightarrow> nat \<Rightarrow> nat \<Rightarrow> (('k, 'v) dict \<times> bool) option" where
  "dictRehashLoop d 0 empty_visits = Some (d, False)"
| "dictRehashLoop d (Suc n) empty_visits =
     (if ht_used (ht0 d) = 0 then Some (d, False)
      else if \<not> (rehashidx d < int (unat (ht_size (ht0 d)))) then None
      else do {
        (idx, visits, out) \<leftarrow> dictSkipEmpty (ht0 d) (nat (rehashidx d)) empty_visits;
        if out then Some (d\<lparr>rehashidx := int idx\<rparr>, True)
        else do {
          chain \<leftarrow> bucket (ht0 d) idx;
          d1 \<leftarrow> dictMoveChain d chain;
          dictRehashLoop
            (d1\<lparr>ht0 := set_bucket (ht0 d1) idx [], rehashidx := int idx + 1\<rparr>) n visits
        }
      })"

text \<open>
  The boolean is the C return value: whether there are still keys to move.  The number of buckets is not
  negative; \<^verbatim>\<open>int empty_visits = n*10\<close> is computed first and overflows for large \<open>n\<close>, \<open>None\<close>.
\<close>

definition dictRehash :: "('k, 'v) dict \<Rightarrow> nat \<Rightarrow> (('k, 'v) dict \<times> bool) option" where
  "dictRehash d n =
     (if int n * 10 > INT32_MAX then None
      else if \<not> dictIsRehashing d then Some (d, False)
      else do {
        (d1, out) \<leftarrow> dictRehashLoop d n (n * 10);
        if out then Some (d1, True)
        else if ht_used (ht0 d1) = 0 then
          Some (d1\<lparr>ht0 := ht1 d1, ht1 := priv_dictReset, rehashidx := - 1\<rparr>, False)
        else Some (d1, True)
      })"

definition priv_dictRehashStep :: "('k, 'v) dict \<Rightarrow> ('k, 'v) dict option" where
  "priv_dictRehashStep d =
     (if pauserehash d = 0 then map_option fst (dictRehash d 1) else Some d)"

section \<open>Insertion\<close>

definition dictTypeExpandAllowed :: "('k, 'v) dict \<Rightarrow> bool" where
  "dictTypeExpandAllowed d =
     (case expandAllowed (dict_type d) of None \<Rightarrow> True
      | Some allowed \<Rightarrow>
          allowed (priv_dictNextPower (ht_used (ht0 d) + 1) * sizeof_ptr)
            (ht_used (ht0 d), ht_size (ht0 d)))"

definition priv_dictExpandIfNeeded :: "bool \<Rightarrow> ('k, 'v) dict \<Rightarrow> ('k, 'v) dict \<times> dict_status" where
  "priv_dictExpandIfNeeded dict_can_resize d =
     (if dictIsRehashing d then (d, DICT_OK)
      else if ht_size (ht0 d) = 0 then dictExpand d (of_nat DICT_HT_INITIAL_SIZE)
      else if ht_used (ht0 d) \<ge> ht_size (ht0 d) \<and>
              (dict_can_resize \<or>
               ht_used (ht0 d) div ht_size (ht0 d) > dict_force_resize_ratio) \<and>
              dictTypeExpandAllowed d
           then dictExpand d (ht_used (ht0 d) + 1)
      else (d, DICT_OK))"

text \<open>The position of the first matching entry of a chain.\<close>

fun chainFind :: "('a \<Rightarrow> bool) \<Rightarrow> 'a list \<Rightarrow> nat option" where
  "chainFind P [] = None"
| "chainFind P (x # xs) = (if P x then Some 0 else map_option Suc (chainFind P xs))"

text \<open>
  The walk of \<^verbatim>\<open>_dictKeyIndex\<close>, \<^verbatim>\<open>dictFind\<close> and \<^verbatim>\<open>dictGenericDelete\<close> over the chain of one
  table: the bucket index and the place of the matching entry, if any.
\<close>

definition dictWalk :: "('k, 'v) dict \<Rightarrow> nat \<Rightarrow> uint64 \<Rightarrow> 'k \<Rightarrow> (nat \<times> entry_ref option) option" where
  "dictWalk d t hash key =
     (let idx = bucketIndex (the_ht d t) hash in
      case bucket (the_ht d t) idx of None \<Rightarrow> None
      | Some c \<Rightarrow> Some (idx, map_option (\<lambda>p. (t, idx, p)) (chainFind (keyMatches d key) c)))"

text \<open>\<open>(d, index, existing)\<close>; an index of \<open>None\<close> is the C value \<^verbatim>\<open>-1\<close>.\<close>

definition priv_dictKeyIndex ::
    "bool \<Rightarrow> ('k, 'v) dict \<Rightarrow> 'k \<Rightarrow> uint64 \<Rightarrow> (('k, 'v) dict \<times> nat option \<times> entry_ref option) option" where
  "priv_dictKeyIndex dict_can_resize d key hash =
     (case priv_dictExpandIfNeeded dict_can_resize d of (d1, st) \<Rightarrow>
      if st = DICT_ERR then Some (d1, None, None)
      else do {
        (idx0, r0) \<leftarrow> dictWalk d1 0 hash key;
        if r0 \<noteq> None then Some (d1, None, r0)
        else if \<not> dictIsRehashing d1 then Some (d1, Some idx0, None)
        else do {
          (idx1, r1) \<leftarrow> dictWalk d1 1 hash key;
          if r1 \<noteq> None then Some (d1, None, r1) else Some (d1, Some idx1, None)
        }
      })"

text \<open>\<open>(d, entry, existing)\<close>: the returned pointer and the output parameter.\<close>

definition dictAddRaw ::
    "bool \<Rightarrow> ('k, 'v) dict \<Rightarrow> 'k \<Rightarrow> (('k, 'v) dict \<times> entry_ref option \<times> entry_ref option) option" where
  "dictAddRaw dict_can_resize d key =
     do {
       d1 \<leftarrow> (if dictIsRehashing d then priv_dictRehashStep d else Some d);
       (d2, index, existing) \<leftarrow> priv_dictKeyIndex dict_can_resize d1 key (dictHashKey d1 key);
       case index of None \<Rightarrow> Some (d2, None, existing)
       | Some i \<Rightarrow>
           (let t = (if dictIsRehashing d2 then 1 else 0);
                ht = the_ht d2 t in
            do {
              c \<leftarrow> bucket ht i;
              let entry = \<lparr>de_key = key, de_v = None\<rparr>;
              let d3 = set_ht d2 t ((set_bucket ht i (entry # c))\<lparr>ht_used := ht_used ht + 1\<rparr>);
              d4 \<leftarrow> dictSetKey d3 (t, i, 0) key;
              Some (d4, Some (t, i, 0), existing)
            })
     }"

definition dictAdd :: "bool \<Rightarrow> ('k, 'v) dict \<Rightarrow> 'k \<Rightarrow> 'v \<Rightarrow> (('k, 'v) dict \<times> dict_status) option" where
  "dictAdd dict_can_resize d key val =
     do {
       (d1, entry, _) \<leftarrow> dictAddRaw dict_can_resize d key;
       case entry of None \<Rightarrow> Some (d1, DICT_ERR)
       | Some r \<Rightarrow> do { d2 \<leftarrow> dictSetVal d1 r val; Some (d2, DICT_OK) }
     }"

text \<open>The boolean is the C result: whether the key was added from scratch.\<close>

definition dictReplace :: "bool \<Rightarrow> ('k, 'v) dict \<Rightarrow> 'k \<Rightarrow> 'v \<Rightarrow> (('k, 'v) dict \<times> bool) option" where
  "dictReplace dict_can_resize d key val =
     do {
       (d1, entry, existing) \<leftarrow> dictAddRaw dict_can_resize d key;
       case entry of Some r \<Rightarrow> do { d2 \<leftarrow> dictSetVal d1 r val; Some (d2, True) }
       | None \<Rightarrow> do { r \<leftarrow> existing; d2 \<leftarrow> dictSetVal d1 r val; Some (d2, False) }
     }"

definition dictAddOrFind :: "bool \<Rightarrow> ('k, 'v) dict \<Rightarrow> 'k \<Rightarrow> (('k, 'v) dict \<times> entry_ref option) option" where
  "dictAddOrFind dict_can_resize d key =
     do {
       (d1, entry, existing) \<leftarrow> dictAddRaw dict_can_resize d key;
       Some (d1, case entry of Some r \<Rightarrow> Some r | None \<Rightarrow> existing)
     }"

section \<open>Deletion and lookup\<close>

text \<open>Unlinking the entry at a place; \<open>nofree\<close> only decides who frees it.\<close>

definition dictUnlinkAt :: "('k, 'v) dict \<Rightarrow> entry_ref \<Rightarrow> (('k, 'v) dict \<times> ('k, 'v) dictEntry option) option" where
  "dictUnlinkAt d r = (case r of (t, i, p) \<Rightarrow>
     do {
       c \<leftarrow> bucket (the_ht d t) i;
       he \<leftarrow> deref d r;
       let ht = set_bucket (the_ht d t) i (take p c @ drop (Suc p) c);
       Some (set_ht d t (ht\<lparr>ht_used := ht_used ht - 1\<rparr>), Some he)
     })"

definition dictGenericDelete ::
    "('k, 'v) dict \<Rightarrow> 'k \<Rightarrow> (('k, 'v) dict \<times> ('k, 'v) dictEntry option) option" where
  "dictGenericDelete d key =
     (if ht_used (ht0 d) = 0 \<and> ht_used (ht1 d) = 0 then Some (d, None)
      else do {
        d1 \<leftarrow> (if dictIsRehashing d then priv_dictRehashStep d else Some d);
        let h = dictHashKey d1 key;
        (idx0, r0) \<leftarrow> dictWalk d1 0 h key;
        case r0 of Some r \<Rightarrow> dictUnlinkAt d1 r
        | None \<Rightarrow>
            if \<not> dictIsRehashing d1 then Some (d1, None)
            else do {
              (idx1, r1) \<leftarrow> dictWalk d1 1 h key;
              case r1 of Some r \<Rightarrow> dictUnlinkAt d1 r | None \<Rightarrow> Some (d1, None)
            }
      })"

definition dictDelete :: "('k, 'v) dict \<Rightarrow> 'k \<Rightarrow> (('k, 'v) dict \<times> dict_status) option" where
  "dictDelete d key =
     map_option (\<lambda>(d', he). (d', if he \<noteq> None then DICT_OK else DICT_ERR)) (dictGenericDelete d key)"

definition dictUnlink :: "('k, 'v) dict \<Rightarrow> 'k \<Rightarrow> (('k, 'v) dict \<times> ('k, 'v) dictEntry option) option" where
  "dictUnlink d key = dictGenericDelete d key"

definition dictFind :: "('k, 'v) dict \<Rightarrow> 'k \<Rightarrow> (('k, 'v) dict \<times> entry_ref option) option" where
  "dictFind d key =
     (if dictSize d = 0 then Some (d, None)
      else do {
        d1 \<leftarrow> (if dictIsRehashing d then priv_dictRehashStep d else Some d);
        let h = dictHashKey d1 key;
        (idx0, r0) \<leftarrow> dictWalk d1 0 h key;
        if r0 \<noteq> None then Some (d1, r0)
        else if \<not> dictIsRehashing d1 then Some (d1, None)
        else do {
          (idx1, r1) \<leftarrow> dictWalk d1 1 h key;
          Some (d1, r1)
        }
      })"

definition dictFetchValue :: "('k, 'v) dict \<Rightarrow> 'k \<Rightarrow> (('k, 'v) dict \<times> 'v option) option" where
  "dictFetchValue d key =
     do {
       (d1, he) \<leftarrow> dictFind d key;
       case he of None \<Rightarrow> Some (d1, None)
       | Some r \<Rightarrow> do { e \<leftarrow> deref d1 r; Some (d1, de_v e) }
     }"

section \<open>Clearing\<close>

text \<open>
  \<^verbatim>\<open>_dictClear\<close> walks the buckets while entries remain, counting \<open>used\<close> down, then frees
  the table and resets the header.  The first component is the counter at loop exit.
\<close>

fun dictClearLoop :: "('k, 'v) dictEntry list list \<Rightarrow> uint64 \<Rightarrow> uint64" where
  "dictClearLoop [] used = used"
| "dictClearLoop (c # cs) used =
     (if used > 0 then dictClearLoop cs (used - of_nat (length c)) else used)"

definition priv_dictClear :: "('k, 'v) dictht \<Rightarrow> uint64 \<times> ('k, 'v) dictht" where
  "priv_dictClear h = (dictClearLoop (ht_table h) (ht_used h), priv_dictReset)"

definition dictEmpty :: "('k, 'v) dict \<Rightarrow> ('k, 'v) dict" where
  "dictEmpty d = d\<lparr>ht0 := snd (priv_dictClear (ht0 d)), ht1 := snd (priv_dictClear (ht1 d)),
     rehashidx := - 1, pauserehash := 0\<rparr>"

section \<open>Invariant and abstract view\<close>

definition ht_entries :: "('k, 'v) dictht \<Rightarrow> ('k, 'v) dictEntry list" where
  "ht_entries h = concat (ht_table h)"

definition dict_entries :: "('k, 'v) dict \<Rightarrow> ('k, 'v) dictEntry list" where
  "dict_entries d = ht_entries (ht0 d) @ ht_entries (ht1 d)"

text \<open>
  An allocated table: \<open>2 ^ k\<close> chains, the mask that goes with it, the right count, and every
  entry in the chain its hash selects.
\<close>

definition ht_ok :: "('k \<Rightarrow> uint64) \<Rightarrow> ('k, 'v) dictht \<Rightarrow> bool" where
  "ht_ok hf h \<longleftrightarrow>
     (\<exists>k < 61. ht_size h = 2 ^ k \<and> ht_sizemask h = mask k \<and> length (ht_table h) = 2 ^ k) \<and>
     unat (ht_used h) = length (ht_entries h) \<and>
     (\<forall>i < length (ht_table h). \<forall>e \<in> set (ht_table h ! i). bucketIndex h (hf (de_key e)) = i)"

definition keys_distinct :: "('k, 'v) dict \<Rightarrow> bool" where
  "keys_distinct d \<longleftrightarrow>
     (\<forall>e \<in> set (dict_entries d).
        length (filter (keyMatches d (de_key e)) (dict_entries d)) \<le> 1)"

definition dict_ok :: "('k, 'v) dict \<Rightarrow> bool" where
  "dict_ok d \<longleftrightarrow>
     (if dictIsRehashing d then
        ht_ok (dictHashKey d) (ht0 d) \<and> ht_ok (dictHashKey d) (ht1 d) \<and>
        0 \<le> rehashidx d \<and> rehashidx d \<le> int (length (ht_table (ht0 d))) \<and>
        (\<forall>i < nat (rehashidx d). ht_table (ht0 d) ! i = [])
      else (ht0 d = priv_dictReset \<or> ht_ok (dictHashKey d) (ht0 d)) \<and> ht1 d = priv_dictReset) \<and>
     keys_distinct d \<and> length (dict_entries d) \<le> 2 ^ 60"

text \<open>The entry a key denotes.\<close>

definition dict_lookup :: "('k, 'v) dict \<Rightarrow> 'k \<Rightarrow> ('k, 'v) dictEntry option" where
  "dict_lookup d key = List.find (keyMatches d key) (dict_entries d)"

section \<open>Tables\<close>

lemma ht_ok_size:
  assumes "ht_ok hf h"
  obtains k where "k < 61" "ht_size h = 2 ^ k" "ht_sizemask h = mask k" "length (ht_table h) = 2 ^ k"
    "unat (ht_size h) = 2 ^ k"
proof -
  from assms obtain k where k: "k < 61" "ht_size h = 2 ^ k" "ht_sizemask h = mask k"
    "length (ht_table h) = 2 ^ k"
    by (auto simp: ht_ok_def)
  have "unat (2 ^ k :: uint64) = 2 ^ k"
    using k(1) by (intro unat_pow2_64) simp
  with k that show ?thesis by simp
qed

lemma bucketIndex_take_bit:
  "ht_sizemask h = mask k \<Longrightarrow> bucketIndex h hash = unat (take_bit k hash)"
  by (simp add: bucketIndex_def take_bit_eq_mask)

lemma unat_take_bit_less: "unat (take_bit k (x :: uint64)) < 2 ^ k"
  by (metis take_bit_nat_less_exp unsigned_take_bit_eq)

lemma bucketIndex_less:
  assumes "ht_ok hf h"
  shows "bucketIndex h hash < length (ht_table h)"
  using assms by (rule ht_ok_size) (simp add: bucketIndex_take_bit unat_take_bit_less)

lemma bucket_Some: "i < length (ht_table h) \<Longrightarrow> bucket h i = Some (ht_table h ! i)"
  by (simp add: bucket_def)

lemma ht_ok_bucketD:
  "ht_ok hf h \<Longrightarrow> i < length (ht_table h) \<Longrightarrow> e \<in> set (ht_table h ! i) \<Longrightarrow>
     bucketIndex h (hf (de_key e)) = i"
  by (auto simp: ht_ok_def)

text \<open>An entry of the table is in the chain its hash selects.\<close>

lemma ht_entry_in_bucket:
  assumes "ht_ok hf h" "e \<in> set (ht_entries h)"
  shows "e \<in> set (ht_table h ! bucketIndex h (hf (de_key e)))"
proof -
  from assms(2) obtain i where "i < length (ht_table h)" "e \<in> set (ht_table h ! i)"
    unfolding ht_entries_def set_concat by (auto dest!: iffD1 [OF in_set_conv_nth])
  with ht_ok_bucketD [OF assms(1) this] show ?thesis by simp
qed

lemma bucket_in_entries:
  "i < length (ht_table h) \<Longrightarrow> e \<in> set (ht_table h ! i) \<Longrightarrow> e \<in> set (ht_entries h)"
  by (auto simp: ht_entries_def)

lemma mset_concat_update:
  assumes "i < length xss"
  shows "mset (concat (xss[i := ys])) + mset (xss ! i) = mset (concat xss) + mset ys"
  using assms
proof (induction xss arbitrary: i)
  case (Cons xs xss)
  then show ?case by (cases i) (auto simp: algebra_simps)
qed simp

lemma length_concat_update:
  assumes "i < length xss"
  shows "length (concat (xss[i := ys])) + length (xss ! i) = length (concat xss) + length ys"
  using arg_cong [OF mset_concat_update [OF assms, of ys], of size] by simp

text \<open>Replacing one chain by entries that belong to it.\<close>

lemma ht_ok_set_bucket:
  assumes "ht_ok hf h" "i < length (ht_table h)"
    and "\<forall>e \<in> set c. bucketIndex h (hf (de_key e)) = i"
    and "h' = h\<lparr>ht_table := (ht_table h)[i := c], ht_used := u\<rparr>"
    and "unat u = length (ht_entries h')"
  shows "ht_ok hf h'"
  using assms by (auto simp: ht_ok_def bucketIndex_def nth_list_update)

section \<open>The contract of a dictType\<close>

text \<open>What a stored key and a stored value are, given the duplication functions.\<close>

definition dup_key :: "('k, 'v) dictType \<Rightarrow> 'k \<Rightarrow> 'k" where
  "dup_key ty k = (case keyDup ty of Some dup \<Rightarrow> dup k | None \<Rightarrow> k)"

definition dup_val :: "('k, 'v) dictType \<Rightarrow> 'v \<Rightarrow> 'v" where
  "dup_val ty v = (case valDup ty of Some dup \<Rightarrow> dup v | None \<Rightarrow> v)"

definition key_eq :: "('k, 'v) dictType \<Rightarrow> 'k \<Rightarrow> 'k \<Rightarrow> bool" where
  "key_eq ty a b \<longleftrightarrow> a = b \<or> (case keyCompare ty of Some cmp \<Rightarrow> cmp a b | None \<Rightarrow> a = b)"

text \<open>
  What \<^verbatim>\<open>dict.c\<close> relies on: the comparison is an equivalence, keys that compare equal have
  the same hash, and a duplicated key compares equal to the original.
\<close>

locale lawful_dictType =
  fixes ty :: "('k, 'v) dictType"
  assumes key_sym: "key_eq ty a b \<Longrightarrow> key_eq ty b a"
    and key_trans: "key_eq ty a b \<Longrightarrow> key_eq ty b c \<Longrightarrow> key_eq ty a c"
    and key_hash: "key_eq ty a b \<Longrightarrow> hashFunction ty a = hashFunction ty b"
    and key_dup: "keyDup ty = Some dup \<Longrightarrow> key_eq ty (dup a) a"

lemma keyMatches_key_eq: "keyMatches d key he \<longleftrightarrow> key_eq (dict_type d) key (de_key he)"
  by (simp add: keyMatches_def key_eq_def dictCompareKeys_def)

lemma keyMatches_cong: "dict_type d = dict_type d' \<Longrightarrow> keyMatches d = keyMatches d'"
  by (intro ext) (simp add: keyMatches_key_eq)

lemma dictHashKey_cong: "dict_type d = dict_type d' \<Longrightarrow> dictHashKey d = dictHashKey d'"
  by (intro ext) (simp add: dictHashKey_def)

lemma filter_le_1_unique:
  assumes "length (filter P xs) \<le> 1" "x \<in> set xs" "P x" "y \<in> set xs" "P y"
  shows "x = y"
proof -
  have "x \<in> set (filter P xs)" "y \<in> set (filter P xs)" using assms by auto
  with assms(1) show ?thesis by (cases "filter P xs") auto
qed

lemma keys_distinct_mset:
  assumes "mset (dict_entries d') = mset (dict_entries d)" "dict_type d' = dict_type d"
  shows "keys_distinct d' \<longleftrightarrow> keys_distinct d"
proof -
  have "length (filter P (dict_entries d')) = length (filter P (dict_entries d))" for P
    using assms(1) by (metis mset_filter size_mset)
  moreover have "set (dict_entries d') = set (dict_entries d)"
    using assms(1) by (rule mset_eq_setD)
  ultimately show ?thesis
    using keyMatches_cong [OF assms(2)] by (simp add: keys_distinct_def)
qed

context lawful_dictType
begin

lemma matches_iff:
  assumes "dict_type d = ty" "keyMatches d key e"
  shows "keyMatches d key = keyMatches d (de_key e)"
  using assms key_sym key_trans unfolding keyMatches_key_eq fun_eq_iff by blast

lemma filter_matches_le_1:
  assumes "dict_type d = ty" "keys_distinct d"
  shows "length (filter (keyMatches d key) (dict_entries d)) \<le> 1"
proof (cases "\<exists>e \<in> set (dict_entries d). keyMatches d key e")
  case True
  with assms matches_iff show ?thesis
    unfolding keys_distinct_def by metis
next
  case False
  then show ?thesis by (simp add: filter_False)
qed

lemma match_unique:
  assumes "dict_type d = ty" "keys_distinct d"
    and "e1 \<in> set (dict_entries d)" "keyMatches d key e1" "e2 \<in> set (dict_entries d)" "keyMatches d key e2"
  shows "e1 = e2"
  using filter_le_1_unique [OF filter_matches_le_1 [OF assms(1,2)]] assms(3-) by blast

text \<open>What a lookup yields does not depend on where the entries are.\<close>

lemma dict_lookup_Some:
  assumes "dict_type d = ty" "keys_distinct d"
  shows "dict_lookup d key = Some e \<longleftrightarrow> e \<in> set (dict_entries d) \<and> keyMatches d key e"
proof
  assume "dict_lookup d key = Some e"
  then show "e \<in> set (dict_entries d) \<and> keyMatches d key e"
    unfolding dict_lookup_def find_Some_iff by (auto simp: in_set_conv_nth)
next
  assume e: "e \<in> set (dict_entries d) \<and> keyMatches d key e"
  then obtain e' where e': "dict_lookup d key = Some e'"
    unfolding dict_lookup_def by (cases "find (keyMatches d key) (dict_entries d)") (auto simp: find_None_iff)
  then have "e' \<in> set (dict_entries d)" "keyMatches d key e'"
    unfolding dict_lookup_def find_Some_iff by (auto simp: in_set_conv_nth)
  with e e' match_unique [OF assms] show "dict_lookup d key = Some e" by metis
qed

lemma dict_lookup_None:
  "dict_lookup d key = None \<longleftrightarrow> (\<forall>e \<in> set (dict_entries d). \<not> keyMatches d key e)"
  by (auto simp: dict_lookup_def find_None_iff)

lemma dict_lookup_mset:
  assumes "dict_type d = ty" "dict_type d' = ty" "keys_distinct d"
    and "mset (dict_entries d') = mset (dict_entries d)"
  shows "dict_lookup d' = dict_lookup d"
proof
  fix key
  have "keys_distinct d'" using keys_distinct_mset assms by metis
  moreover have "set (dict_entries d') = set (dict_entries d)" using assms(4) by (rule mset_eq_setD)
  moreover have "keyMatches d' = keyMatches d" using assms(1,2) by (simp add: keyMatches_cong)
  ultimately have "dict_lookup d' key = Some e \<longleftrightarrow> dict_lookup d key = Some e" for e
    using dict_lookup_Some [OF assms(1,3), of key e] dict_lookup_Some [OF assms(2), of key e] by simp
  then show "dict_lookup d' key = dict_lookup d key"
    by (metis not_None_eq)
qed

end

section \<open>Chain walks\<close>

lemma chainFind_None: "chainFind P xs = None \<longleftrightarrow> (\<forall>x \<in> set xs. \<not> P x)"
  by (induction xs) auto

lemma chainFind_Some: "chainFind P xs = Some p \<Longrightarrow> p < length xs \<and> P (xs ! p)"
  by (induction xs arbitrary: p) (auto split: if_splits)

lemma the_ht_simps [simp]: "the_ht d 0 = ht0 d" "the_ht d (Suc 0) = ht1 d"
  by (simp_all add: the_ht_def)

lemma set_ht_simps [simp]: "set_ht d 0 h = d\<lparr>ht0 := h\<rparr>" "set_ht d (Suc 0) h = d\<lparr>ht1 := h\<rparr>"
  by (simp_all add: set_ht_def)

lemma deref_in_entries:
  "deref d (t, i, p) = Some e \<Longrightarrow> t \<le> 1 \<Longrightarrow> e \<in> set (dict_entries d)"
  by (auto simp: deref_def bucket_def dict_entries_def the_ht_def bucket_in_entries
      split: if_splits option.splits)

context lawful_dictType
begin

lemma dictWalk_correct:
  assumes "dict_type d = ty" "ht_ok (dictHashKey d) (the_ht d t)"
  shows "\<exists>idx r. dictWalk d t (dictHashKey d key) key = Some (idx, r) \<and>
    idx = bucketIndex (the_ht d t) (dictHashKey d key) \<and> idx < length (ht_table (the_ht d t)) \<and>
    (case r of
       None \<Rightarrow> \<forall>e \<in> set (ht_entries (the_ht d t)). \<not> keyMatches d key e
     | Some ref \<Rightarrow> \<exists>p e. ref = (t, idx, p) \<and> p < length (ht_table (the_ht d t) ! idx) \<and>
         e = ht_table (the_ht d t) ! idx ! p \<and> keyMatches d key e \<and> deref d ref = Some e)"
proof -
  define h where "h = the_ht d t"
  define idx where "idx = bucketIndex h (dictHashKey d key)"
  define c where "c = ht_table h ! idx"
  have idx: "idx < length (ht_table h)"
    using bucketIndex_less assms(2) by (simp add: idx_def h_def)
  have walk: "dictWalk d t (dictHashKey d key) key =
    Some (idx, map_option (\<lambda>p. (t, idx, p)) (chainFind (keyMatches d key) c))"
    using idx by (simp add: dictWalk_def bucket_Some h_def [symmetric] idx_def [symmetric] c_def)
  show ?thesis
  proof (cases "chainFind (keyMatches d key) c")
    case None
    have "\<not> keyMatches d key e" if e: "e \<in> set (ht_entries h)" for e
    proof
      assume m: "keyMatches d key e"
      then have "dictHashKey d key = dictHashKey d (de_key e)"
        using assms(1) key_hash by (simp add: keyMatches_key_eq dictHashKey_def)
      then have "e \<in> set c"
        using ht_entry_in_bucket [OF assms(2) [folded h_def] e] by (simp add: c_def idx_def)
      with None m show False by (simp add: chainFind_None)
    qed
    with walk idx None show ?thesis
      by (auto simp: idx_def h_def)
  next
    case (Some p)
    then have "p < length c" "keyMatches d key (c ! p)"
      by (auto dest: chainFind_Some)
    with walk idx Some show ?thesis
      by (auto simp: idx_def h_def c_def deref_def bucket_Some)
  qed
qed

end

section \<open>Rehashing keeps the entries\<close>

definition rehash_inv :: "('k, 'v) dict \<Rightarrow> bool" where
  "rehash_inv d \<longleftrightarrow>
     ht_ok (dictHashKey d) (ht0 d) \<and> ht_ok (dictHashKey d) (ht1 d) \<and>
     0 \<le> rehashidx d \<and> rehashidx d \<le> int (length (ht_table (ht0 d))) \<and>
     (\<forall>i < nat (rehashidx d). ht_table (ht0 d) ! i = []) \<and>
     length (dict_entries d) \<le> 2 ^ 60"

lemma ht_push_ok:
  assumes "ht_ok hf h" "i = bucketIndex h (hf (de_key e))" "length (ht_entries h) < 2 ^ 61"
    and "h' = (set_bucket h i (e # ht_table h ! i))\<lparr>ht_used := ht_used h + 1\<rparr>"
  shows "ht_ok hf h'" "mset (ht_entries h') = add_mset e (mset (ht_entries h))"
proof -
  have i: "i < length (ht_table h)" using bucketIndex_less [OF assms(1)] assms(2) by simp
  have h': "h' = h\<lparr>ht_table := (ht_table h)[i := e # ht_table h ! i], ht_used := ht_used h + 1\<rparr>"
    by (simp add: assms(4) set_bucket_def)
  show mset: "mset (ht_entries h') = add_mset e (mset (ht_entries h))"
    using mset_concat_update [OF i, of "e # ht_table h ! i"] by (simp add: h' ht_entries_def)
  then have "length (ht_entries h') = Suc (length (ht_entries h))"
    by (metis size_mset size_add_mset)
  moreover have "unat (ht_used h) = length (ht_entries h)"
    using assms(1) by (simp add: ht_ok_def)
  ultimately have "unat (ht_used h + 1) = length (ht_entries h')"
    using assms(3) by (simp add: unat_add_1_64)
  with i show "ht_ok hf h'"
    using ht_ok_bucketD [OF assms(1)] assms(2)
    by (intro ht_ok_set_bucket [OF assms(1) i _ h']) auto
qed

lemma dictMoveChain_correct:
  assumes "ht_ok (dictHashKey d) (ht1 d)" "length (ht_entries (ht1 d)) + length chain < 2 ^ 61"
  shows "\<exists>h1. dictMoveChain d chain =
      Some (d\<lparr>ht0 := (ht0 d)\<lparr>ht_used := ht_used (ht0 d) - of_nat (length chain)\<rparr>, ht1 := h1\<rparr>) \<and>
    ht_ok (dictHashKey d) h1 \<and>
    mset (ht_entries h1) = mset chain + mset (ht_entries (ht1 d))"
  using assms
proof (induction chain arbitrary: d)
  case Nil
  then show ?case by (intro exI [of _ "ht1 d"]) simp
next
  case (Cons e chain)
  define i where "i = bucketIndex (ht1 d) (dictHashKey d (de_key e))"
  define h where "h = (set_bucket (ht1 d) i (e # ht_table (ht1 d) ! i))\<lparr>ht_used := ht_used (ht1 d) + 1\<rparr>"
  define d1 where "d1 = d\<lparr>ht0 := (ht0 d)\<lparr>ht_used := ht_used (ht0 d) - 1\<rparr>, ht1 := h\<rparr>"
  have i: "i < length (ht_table (ht1 d))" using bucketIndex_less [OF Cons.prems(1)] by (simp add: i_def)
  have push: "ht_ok (dictHashKey d) h" "mset (ht_entries h) = add_mset e (mset (ht_entries (ht1 d)))"
    using ht_push_ok [OF Cons.prems(1) i_def _ h_def] Cons.prems(2) by auto
  have hash: "dictHashKey d1 = dictHashKey d" by (rule dictHashKey_cong) (simp add: d1_def)
  have "length (ht_entries h) = Suc (length (ht_entries (ht1 d)))"
    using push(2) by (metis size_mset size_add_mset)
  then obtain h1 where h1: "dictMoveChain d1 chain =
      Some (d1\<lparr>ht0 := (ht0 d1)\<lparr>ht_used := ht_used (ht0 d1) - of_nat (length chain)\<rparr>, ht1 := h1\<rparr>)"
    "ht_ok (dictHashKey d) h1" "mset (ht_entries h1) = mset chain + mset (ht_entries h)"
    using Cons.IH [of d1] Cons.prems(2) push(1) hash by (auto simp: d1_def)
  moreover have "dictMoveChain d (e # chain) = dictMoveChain d1 chain"
    using i by (simp add: bucket_Some i_def [symmetric] h_def [symmetric] d1_def [symmetric] Let_def)
  ultimately show ?case
    using push(2) by (intro exI [of _ h1]) (simp add: d1_def algebra_simps)
qed

lemma dictSkipEmpty_correct:
  assumes "j < length (ht_table h)" "ht_table h ! j \<noteq> []" "idx \<le> j"
  shows "\<exists>idx' v out. dictSkipEmpty h idx ev = Some (idx', v, out) \<and>
    idx \<le> idx' \<and> idx' \<le> j \<and> (\<forall>i. idx \<le> i \<longrightarrow> i < idx' \<longrightarrow> ht_table h ! i = []) \<and>
    (out \<longrightarrow> idx < idx') \<and> (\<not> out \<longrightarrow> ht_table h ! idx' \<noteq> [])"
  using assms
proof (induction h idx ev rule: dictSkipEmpty.induct)
  case (1 h idx ev)
  have b: "bucket h idx = Some (ht_table h ! idx)"
    using "1.prems" by (simp add: bucket_Some)
  note unfold = dictSkipEmpty.simps [of h idx ev]
  show ?case
  proof (cases "ht_table h ! idx = []")
    case False
    with b "1.prems" show ?thesis by (auto simp: unfold)
  next
    case empty: True
    with "1.prems" have lt: "idx < j" by (metis le_neq_implies_less)
    show ?thesis
    proof (cases "ev \<le> 1")
      case True
      with b empty lt show ?thesis by (auto simp: unfold less_Suc_eq)
    next
      case False
      with empty have "\<exists>idx' v out. dictSkipEmpty h (idx + 1) (ev - 1) = Some (idx', v, out) \<and>
        idx + 1 \<le> idx' \<and> idx' \<le> j \<and> (\<forall>i. idx + 1 \<le> i \<longrightarrow> i < idx' \<longrightarrow> ht_table h ! i = []) \<and>
        (out \<longrightarrow> idx + 1 < idx') \<and> (\<not> out \<longrightarrow> ht_table h ! idx' \<noteq> [])"
        using lt "1.prems" by (intro "1.IH" [OF b]) auto
      then obtain idx' v out where *: "dictSkipEmpty h (idx + 1) (ev - 1) = Some (idx', v, out)"
        "idx + 1 \<le> idx'" "idx' \<le> j" "\<forall>i. idx + 1 \<le> i \<longrightarrow> i < idx' \<longrightarrow> ht_table h ! i = []"
        "\<not> out \<longrightarrow> ht_table h ! idx' \<noteq> []"
        by blast
      have "ht_table h ! i = []" if "idx \<le> i" "i < idx'" for i
        using that *(4) empty by (cases "i = idx") auto
      with * b empty False show ?thesis by (simp add: unfold)
    qed
  qed
qed

lemma nonempty_bucket:
  assumes "ht_ok hf h" "ht_used h \<noteq> 0"
  obtains j where "j < length (ht_table h)" "ht_table h ! j \<noteq> []"
proof -
  have "unat (ht_used h) = length (ht_entries h)" using assms(1) by (simp add: ht_ok_def)
  moreover have "0 < unat (ht_used h)" using assms(2) by (simp add: unat_gt_0)
  ultimately have "concat (ht_table h) \<noteq> []"
    unfolding ht_entries_def by (metis length_greater_0_conv)
  then obtain c where "c \<in> set (ht_table h)" "c \<noteq> []" by auto
  then show ?thesis using that by (auto simp: in_set_conv_nth)
qed

text \<open>One round of the outer loop: chain \<open>idx\<close> moves, and the table behind it is empty.\<close>

lemma rehash_bucket_correct:
  assumes "rehash_inv d" "idx < length (ht_table (ht0 d))" "nat (rehashidx d) \<le> idx"
    and "\<forall>i. nat (rehashidx d) \<le> i \<longrightarrow> i < idx \<longrightarrow> ht_table (ht0 d) ! i = []"
  shows "\<exists>d1. dictMoveChain d (ht_table (ht0 d) ! idx) = Some d1 \<and>
    (let d2 = d1\<lparr>ht0 := set_bucket (ht0 d1) idx [], rehashidx := int idx + 1\<rparr> in
     rehash_inv d2 \<and> mset (dict_entries d2) = mset (dict_entries d) \<and>
     dict_type d2 = dict_type d \<and> pauserehash d2 = pauserehash d \<and>
     length (ht_table (ht0 d2)) = length (ht_table (ht0 d)))"
proof -
  define c where "c = ht_table (ht0 d) ! idx"
  note inv = assms(1) [unfolded rehash_inv_def]
  have "mset (concat ((ht_table (ht0 d))[idx := []])) + mset c = mset (ht_entries (ht0 d))"
    using mset_concat_update [OF assms(2), of "[]"] by (simp add: c_def ht_entries_def)
  note moved = this and len = arg_cong [OF this, of size, simplified]
  have "length (ht_entries (ht1 d)) + length c < 2 ^ 61"
    using inv len by (simp add: dict_entries_def)
  then obtain h1 where h1: "dictMoveChain d c =
      Some (d\<lparr>ht0 := (ht0 d)\<lparr>ht_used := ht_used (ht0 d) - of_nat (length c)\<rparr>, ht1 := h1\<rparr>)"
    "ht_ok (dictHashKey d) h1" "mset (ht_entries h1) = mset c + mset (ht_entries (ht1 d))"
    using dictMoveChain_correct inv by blast
  define d1 where "d1 = d\<lparr>ht0 := (ht0 d)\<lparr>ht_used := ht_used (ht0 d) - of_nat (length c)\<rparr>, ht1 := h1\<rparr>"
  define d2 where "d2 = d1\<lparr>ht0 := set_bucket (ht0 d1) idx [], rehashidx := int idx + 1\<rparr>"
  have hash: "dictHashKey d2 = dictHashKey d"
    by (rule dictHashKey_cong) (simp add: d2_def d1_def)
  have h0: "ht0 d2 = (ht0 d)\<lparr>ht_table := (ht_table (ht0 d))[idx := []],
      ht_used := ht_used (ht0 d) - of_nat (length c)\<rparr>"
    by (simp add: d2_def d1_def set_bucket_def)
  have used: "unat (ht_used (ht0 d)) = length (ht_entries (ht0 d))"
    using inv by (simp add: ht_ok_def)
  have "unat (of_nat (length c) :: uint64) = length c"
    using len inv by (intro unat_of_nat_64) (simp add: dict_entries_def)
  then have "unat (ht_used (ht0 d) - of_nat (length c)) = length (ht_entries (ht0 d2))"
    using used len by (subst unat_sub) (auto simp: word_le_nat_alt h0 ht_entries_def)
  then have ok0: "ht_ok (dictHashKey d) (ht0 d2)"
    using inv assms(2) by (intro ht_ok_set_bucket [OF _ _ _ h0]) auto
  have mset: "mset (dict_entries d2) = mset (dict_entries d)"
  proof -
    have "mset (dict_entries d2) = mset (ht_entries (ht0 d2)) + (mset c + mset (ht_entries (ht1 d)))"
      using h1(3) by (simp add: dict_entries_def d2_def d1_def)
    also have "mset (ht_entries (ht0 d2)) = mset (concat ((ht_table (ht0 d))[idx := []]))"
      by (simp add: h0 ht_entries_def)
    finally show ?thesis using moved by (simp add: dict_entries_def algebra_simps)
  qed
  have "ht_table (ht0 d2) ! i = []" if "i < idx + 1" for i
  proof -
    consider "i < nat (rehashidx d)" | "nat (rehashidx d) \<le> i" "i < idx" | "i = idx"
      using \<open>i < idx + 1\<close> by linarith
    then show ?thesis
      using inv assms(2,4) by cases (auto simp: h0 nth_list_update)
  qed
  moreover have "length (dict_entries d2) = length (dict_entries d)"
    using mset by (metis size_mset)
  moreover have "ht1 d2 = h1" "rehashidx d2 = int idx + 1" by (simp_all add: d2_def d1_def)
  moreover have "length (ht_table (ht0 d2)) = length (ht_table (ht0 d))" by (simp add: h0)
  ultimately have "rehash_inv d2"
    using ok0 h1(2) inv assms(2) hash by (simp add: rehash_inv_def nat_add_distrib)
  then show ?thesis
    using h1(1) mset by (intro exI [of _ d1])
      (simp add: c_def [symmetric] d1_def [symmetric] d2_def [symmetric] Let_def, simp add: d2_def d1_def set_bucket_def)
qed

lemma rehash_inv_cong:
  assumes "ht0 d' = ht0 d" "ht1 d' = ht1 d" "dict_type d' = dict_type d"
    and "0 \<le> rehashidx d'" "rehashidx d' \<le> int (length (ht_table (ht0 d)))"
    and "\<forall>i < nat (rehashidx d'). ht_table (ht0 d) ! i = []"
    and "rehash_inv d"
  shows "rehash_inv d'"
  using assms dictHashKey_cong [OF assms(3)] by (simp add: rehash_inv_def dict_entries_def)

lemma dictRehashLoop_correct:
  assumes "rehash_inv d"
  shows "\<exists>d' out. dictRehashLoop d n ev = Some (d', out) \<and> rehash_inv d' \<and>
    mset (dict_entries d') = mset (dict_entries d) \<and> dict_type d' = dict_type d \<and>
    pauserehash d' = pauserehash d \<and> rehashidx d \<le> rehashidx d' \<and>
    length (ht_table (ht0 d')) = length (ht_table (ht0 d)) \<and>
    (0 < n \<longrightarrow> ht_used (ht0 d) \<noteq> 0 \<longrightarrow> rehashidx d < rehashidx d')"
  using assms
proof (induction n arbitrary: d ev)
  case 0
  then show ?case by auto
next
  case (Suc n)
  note inv = Suc.prems [unfolded rehash_inv_def]
  show ?case
  proof (cases "ht_used (ht0 d) = 0")
    case True
    with Suc.prems show ?thesis by auto
  next
    case False
    obtain j where j: "j < length (ht_table (ht0 d))" "ht_table (ht0 d) ! j \<noteq> []"
      using nonempty_bucket False inv by blast
    then have "nat (rehashidx d) \<le> j" using inv by (metis not_less)
    then obtain idx v out where skip: "dictSkipEmpty (ht0 d) (nat (rehashidx d)) ev = Some (idx, v, out)"
      "nat (rehashidx d) \<le> idx" "idx \<le> j"
      "\<forall>i. nat (rehashidx d) \<le> i \<longrightarrow> i < idx \<longrightarrow> ht_table (ht0 d) ! i = []"
      "out \<longrightarrow> nat (rehashidx d) < idx"
      using dictSkipEmpty_correct [OF j] by blast
    have size: "rehashidx d < int (unat (ht_size (ht0 d)))"
    proof -
      obtain k where "length (ht_table (ht0 d)) = 2 ^ k" "unat (ht_size (ht0 d)) = 2 ^ k"
        using inv ht_ok_size by metis
      with j \<open>nat (rehashidx d) \<le> j\<close> inv show ?thesis by linarith
    qed
    show ?thesis
    proof (cases out)
      case True
      define d' where "d' = d\<lparr>rehashidx := int idx\<rparr>"
      have "ht_table (ht0 d) ! i = []" if "i < idx" for i
        using that inv skip(4) by (cases "i < nat (rehashidx d)") auto
      then have "rehash_inv d'"
        using skip(3) j(1) Suc.prems by (intro rehash_inv_cong [of d' d]) (auto simp: d'_def)
      moreover have "dictRehashLoop d (Suc n) ev = Some (d', True)"
        using False size skip(1) True by (simp add: d'_def)
      ultimately show ?thesis
        using skip(5) True inv by (auto simp: d'_def dict_entries_def)
    next
      case out: False
      have idx: "idx < length (ht_table (ht0 d))" using skip(3) j(1) by simp
      obtain d1 where d1: "dictMoveChain d (ht_table (ht0 d) ! idx) = Some d1"
        and post: "let d2 = d1\<lparr>ht0 := set_bucket (ht0 d1) idx [], rehashidx := int idx + 1\<rparr> in
          rehash_inv d2 \<and> mset (dict_entries d2) = mset (dict_entries d) \<and>
          dict_type d2 = dict_type d \<and> pauserehash d2 = pauserehash d \<and>
          length (ht_table (ht0 d2)) = length (ht_table (ht0 d))"
        using rehash_bucket_correct [OF Suc.prems idx skip(2,4)] by blast
      define d2 where "d2 = d1\<lparr>ht0 := set_bucket (ht0 d1) idx [], rehashidx := int idx + 1\<rparr>"
      note post = post [unfolded Let_def, folded d2_def]
      obtain d' out' where IH: "dictRehashLoop d2 n v = Some (d', out')" "rehash_inv d'"
        "mset (dict_entries d') = mset (dict_entries d2)" "dict_type d' = dict_type d2"
        "pauserehash d' = pauserehash d2" "rehashidx d2 \<le> rehashidx d'"
        "length (ht_table (ht0 d')) = length (ht_table (ht0 d2))"
        using Suc.IH post by blast
      have "dictRehashLoop d (Suc n) ev = Some (d', out')"
        using False size skip(1) out d1 idx IH(1) by (simp add: bucket_Some d2_def)
      moreover have "rehashidx d < rehashidx d2"
        using skip(2) inv by (simp add: d2_def)
      ultimately show ?thesis
        using IH post by auto
    qed
  qed
qed

lemma dict_ok_rehashing:
  "dictIsRehashing d \<Longrightarrow> dict_ok d \<longleftrightarrow> rehash_inv d \<and> keys_distinct d"
  by (auto simp: dict_ok_def rehash_inv_def)

lemma dictRehash_correct:
  assumes "dict_ok d" "int n * 10 \<le> INT32_MAX"
  shows "\<exists>d' more. dictRehash d n = Some (d', more) \<and> dict_ok d' \<and>
    mset (dict_entries d') = mset (dict_entries d) \<and> dict_type d' = dict_type d \<and>
    pauserehash d' = pauserehash d \<and> (more \<longleftrightarrow> dictIsRehashing d') \<and>
    (dictIsRehashing d' \<longrightarrow> 0 < n \<longrightarrow> rehashidx d < rehashidx d' \<and>
       length (ht_table (ht0 d')) = length (ht_table (ht0 d)))"
proof (cases "dictIsRehashing d")
  case False
  with assms show ?thesis by (simp add: dictRehash_def)
next
  case True
  with assms(1) have inv: "rehash_inv d" "keys_distinct d" by (simp_all add: dict_ok_rehashing)
  obtain d1 out where loop: "dictRehashLoop d n (n * 10) = Some (d1, out)" "rehash_inv d1"
    "mset (dict_entries d1) = mset (dict_entries d)" "dict_type d1 = dict_type d"
    "pauserehash d1 = pauserehash d" "rehashidx d \<le> rehashidx d1"
    "length (ht_table (ht0 d1)) = length (ht_table (ht0 d))"
    "0 < n \<longrightarrow> ht_used (ht0 d) \<noteq> 0 \<longrightarrow> rehashidx d < rehashidx d1"
    using dictRehashLoop_correct [OF inv(1)] by blast
  have empty: "d1 = d \<and> \<not> out" if "ht_used (ht0 d) = 0"
    using that loop(1) by (cases n) auto
  note inv1 = loop(2) [unfolded rehash_inv_def]
  have used: "unat (ht_used (ht0 d1)) = length (ht_entries (ht0 d1))"
    using inv1 by (simp add: ht_ok_def)
  have distinct: "keys_distinct d1"
    using keys_distinct_mset [OF loop(3,4)] inv(2) by simp
  show ?thesis
  proof (cases "\<not> out \<and> ht_used (ht0 d1) = 0")
    case fin: True
    define d' where "d' = d1\<lparr>ht0 := ht1 d1, ht1 := priv_dictReset, rehashidx := - 1\<rparr>"
    have "dict_entries d' = dict_entries d1"
      using used fin by (simp add: d'_def dict_entries_def ht_entries_def priv_dictReset_def)
    moreover have "dictHashKey d' = dictHashKey d1" "dict_type d' = dict_type d1"
      by (auto intro: dictHashKey_cong simp: d'_def)
    ultimately have "dict_ok d'" "mset (dict_entries d') = mset (dict_entries d)"
      using inv1 distinct loop(3) keys_distinct_mset [of d' d1]
      by (simp_all add: dict_ok_def, simp_all add: d'_def dictIsRehashing_def)
    moreover have "dictRehash d n = Some (d', False)"
      using True loop(1) fin assms(2) by (simp add: dictRehash_def d'_def)
    ultimately show ?thesis
      using loop(4,5) by (intro exI [of _ d'] exI [of _ False]) (simp add: d'_def dictIsRehashing_def)
  next
    case False
    have more: "dictRehash d n = Some (d1, True)"
      using True loop(1) False assms(2) by (auto simp: dictRehash_def)
    have "0 \<le> rehashidx d1" using inv1 by simp
    then have rehashing: "dictIsRehashing d1" by (simp add: dictIsRehashing_def)
    then have "dict_ok d1" using loop(2) distinct by (simp add: dict_ok_rehashing)
    moreover have "ht_used (ht0 d) \<noteq> 0" using empty False by auto
    ultimately show ?thesis
      using more loop rehashing by auto
  qed
qed

lemma priv_dictRehashStep_correct:
  assumes "dict_ok d"
  shows "\<exists>d'. priv_dictRehashStep d = Some d' \<and> dict_ok d' \<and>
    mset (dict_entries d') = mset (dict_entries d) \<and> dict_type d' = dict_type d \<and>
    pauserehash d' = pauserehash d"
  using dictRehash_correct [OF assms, of 1] assms by (auto simp: priv_dictRehashStep_def INT32_MAX_def)

text \<open>The prologue of every operation.\<close>

lemma maybe_step_correct:
  assumes "dict_ok d"
  shows "\<exists>d'. (if dictIsRehashing d then priv_dictRehashStep d else Some d) = Some d' \<and> dict_ok d' \<and>
    mset (dict_entries d') = mset (dict_entries d) \<and> dict_type d' = dict_type d \<and>
    pauserehash d' = pauserehash d"
  using priv_dictRehashStep_correct [OF assms] assms by auto

section \<open>Resizing\<close>

lemma dictNextPowerLoop_pow2:
  assumes "i = 2 ^ j"
  shows "\<exists>k \<ge> j. dictNextPowerLoop i sz = 2 ^ k \<and> sz \<le> 2 ^ k \<and> (k = j \<or> 2 ^ (k - 1) < sz)"
  using assms
proof (induction i sz arbitrary: j rule: dictNextPowerLoop.induct)
  case (1 i sz)
  show ?case
  proof (cases "sz \<le> i")
    case True
    then have "dictNextPowerLoop i sz = i" by (simp add: dictNextPowerLoop.simps [of i sz])
    with True "1.prems" show ?thesis by (intro exI [of _ j]) simp
  next
    case False
    with "1.prems" obtain k where k: "k \<ge> Suc j" "dictNextPowerLoop (i * 2) sz = 2 ^ k" "sz \<le> 2 ^ k"
      "k = Suc j \<or> 2 ^ (k - 1) < sz"
      using "1.IH" [of "Suc j"] by auto
    from k(4) have "2 ^ (k - 1) < sz"
    proof
      assume "k = Suc j"
      with False "1.prems" show ?thesis by simp
    qed
    moreover have "i \<noteq> 0" using "1.prems" by simp
    then have "dictNextPowerLoop i sz = dictNextPowerLoop (i * 2) sz"
      using False by (simp add: dictNextPowerLoop.simps [of i sz])
    moreover have "j \<le> k" using k(1) by simp
    ultimately show ?thesis using k(2,3) by auto
  qed
qed

text \<open>The least power of two that is at least \<open>sz\<close> and at least 4.\<close>

lemma priv_dictNextPower_correct:
  obtains k where "2 \<le> k" "k \<le> 63" "priv_dictNextPower sz = 2 ^ k"
    "unat sz < LONG_MAX \<Longrightarrow> unat sz \<le> 2 ^ k" "k = 2 \<or> 2 ^ (k - 1) < unat sz"
proof (cases "LONG_MAX \<le> unat sz")
  case True
  have "priv_dictNextPower sz = 2 ^ 63"
    using True by (simp add: priv_dictNextPower_def LONG_MAX_def)
  moreover have "2 ^ (63 - 1) < unat sz" using True by (simp add: LONG_MAX_def)
  ultimately show ?thesis using that [of 63] True by simp
next
  case False
  obtain k where k: "k \<ge> 2" "dictNextPowerLoop 4 (unat sz) = 2 ^ k" "unat sz \<le> 2 ^ k"
    "k = 2 \<or> 2 ^ (k - 1) < unat sz"
    using dictNextPowerLoop_pow2 [of 4 2 "unat sz"] by auto
  have "k \<le> 63"
  proof (rule ccontr)
    assume "\<not> k \<le> 63"
    then have "(2 :: nat) ^ 63 \<le> 2 ^ (k - 1)" by (intro power_increasing) auto
    with k \<open>\<not> k \<le> 63\<close> False show False by (simp add: LONG_MAX_def)
  qed
  moreover have "priv_dictNextPower sz = 2 ^ k"
    using False k(2) by (simp add: priv_dictNextPower_def DICT_HT_INITIAL_SIZE_def)
  ultimately show ?thesis using that k by blast
qed

definition fresh_table :: "nat \<Rightarrow> ('k, 'v) dictht" where
  "fresh_table k = \<lparr>ht_table = replicate (2 ^ k) [], ht_size = 2 ^ k, ht_sizemask = mask k, ht_used = 0\<rparr>"

lemma fresh_table_entries [simp]: "ht_entries (fresh_table k) = []"
  by (simp add: ht_entries_def fresh_table_def)

lemma fresh_table_ok: "k < 61 \<Longrightarrow> ht_ok hf (fresh_table k)"
  by (auto simp: ht_ok_def, auto simp: fresh_table_def ht_entries_def)

lemma pow2_mul_8_wraps:
  assumes "k \<le> 63"
  shows "(2 :: uint64) ^ k * sizeof_ptr < 2 ^ k \<longleftrightarrow> 61 \<le> k"
proof -
  have eq: "(2 :: uint64) ^ k * sizeof_ptr = 2 ^ (k + 3)"
    by (simp add: sizeof_ptr_def power_add)
  show ?thesis
  proof (cases "61 \<le> k")
    case True
    then have "k = 61 \<or> k = 62 \<or> k = 63" using assms by auto
    then show ?thesis by (auto simp: sizeof_ptr_def)
  next
    case False
    then have "unat (2 ^ k :: uint64) \<le> unat (2 ^ (k + 3) :: uint64)"
      by (simp add: unat_pow2_64 power_increasing)
    then have "\<not> (2 :: uint64) ^ (k + 3) < 2 ^ k"
      by (simp add: word_less_nat_alt)
    with False show ?thesis unfolding eq by simp
  qed
qed

text \<open>What an expansion can do: nothing, or add a fresh table of the size it computed.\<close>

lemma priv_dictExpand_cases:
  assumes "priv_dictExpand d sz alloc = (d', st, failed)"
  obtains "d' = d" "st = DICT_ERR"
  | k where "k < 61" "priv_dictNextPower sz = 2 ^ k" "\<not> dictIsRehashing d" "st = DICT_OK"
      "d' = (if ht_table (ht0 d) = [] then d\<lparr>ht0 := fresh_table k\<rparr> else d\<lparr>ht1 := fresh_table k, rehashidx := 0\<rparr>)"
proof -
  obtain k where k: "k \<le> 63" "priv_dictNextPower sz = 2 ^ k" by (rule priv_dictNextPower_correct)
  have n: "\<lparr>ht_table = replicate (unat (2 ^ k :: uint64)) [], ht_size = 2 ^ k,
    ht_sizemask = 2 ^ k - 1, ht_used = 0\<rparr> = fresh_table k"
    using k(1) by (simp add: fresh_table_def unat_pow2_64 mask_eq_exp_minus_1)
  define skip where "skip \<longleftrightarrow> (dictIsRehashing d \<or> ht_used (ht0 d) > sz) \<or>
    ((2 :: uint64) ^ k < sz \<or> (2 :: uint64) ^ k * sizeof_ptr < 2 ^ k) \<or>
    2 ^ k = ht_size (ht0 d) \<or> alloc = Some False"
  show ?thesis
  proof (cases skip)
    case True
    then have "d' = d \<and> st = DICT_ERR"
      using assms unfolding priv_dictExpand_def Let_def k(2) skip_def by (auto split: if_split_asm)
    then show ?thesis using that(1) by blast
  next
    case False
    then have "priv_dictExpand d sz alloc =
      (if ht_table (ht0 d) = [] then d\<lparr>ht0 := fresh_table k\<rparr> else d\<lparr>ht1 := fresh_table k, rehashidx := 0\<rparr>,
       DICT_OK, False)"
      unfolding priv_dictExpand_def Let_def k(2) n skip_def by simp
    moreover have "k < 61" using False pow2_mul_8_wraps [OF k(1)] by (simp add: skip_def)
    moreover have "\<not> dictIsRehashing d" using False by (simp add: skip_def)
    ultimately show ?thesis using that(2) [of k] k(2) assms by auto
  qed
qed

lemma priv_dictExpand_ok:
  assumes "dict_ok d" "priv_dictExpand d sz alloc = (d', st, failed)"
  shows "dict_ok d' \<and> dict_entries d' = dict_entries d \<and> dict_type d' = dict_type d \<and>
    pauserehash d' = pauserehash d"
  using assms(2)
proof (cases rule: priv_dictExpand_cases)
  case 1
  with assms(1) show ?thesis by simp
next
  case (2 k)
  have h1: "ht1 d = priv_dictReset" and h0: "ht0 d = priv_dictReset \<or> ht_ok (dictHashKey d) (ht0 d)"
    using assms(1) 2(3) by (auto simp: dict_ok_def)
  have type: "dict_type d' = dict_type d" using 2(5) by simp
  note hash = dictHashKey_cong [OF type]
  show ?thesis
  proof (cases "ht_table (ht0 d) = []")
    case True
    then have "ht0 d = priv_dictReset"
      using h0 ht_ok_size by (metis length_0_conv power_not_zero zero_neq_numeral)
    then have entries: "dict_entries d' = dict_entries d"
      using True 2(5) h1 by (simp add: dict_entries_def ht_entries_def priv_dictReset_def fresh_table_def)
    then show ?thesis
      using True 2 assms(1) keys_distinct_mset [of d' d] fresh_table_ok [of k] hash type
      by (auto simp: dict_ok_def dictIsRehashing_def)
  next
    case False
    then have entries: "dict_entries d' = dict_entries d"
      using 2(5) h1 by (simp add: dict_entries_def ht_entries_def priv_dictReset_def fresh_table_def)
    moreover have "ht_ok (dictHashKey d) (ht0 d)" using False h0 by (auto simp: priv_dictReset_def)
    ultimately show ?thesis
      using False 2 assms(1) keys_distinct_mset [of d' d] fresh_table_ok [of k] hash type
      by (auto simp: dict_ok_def dictIsRehashing_def)
  qed
qed

lemma dictExpand_ok:
  assumes "dict_ok d" "dictExpand d sz = (d', st)"
  shows "dict_ok d' \<and> dict_entries d' = dict_entries d \<and> dict_type d' = dict_type d \<and>
    pauserehash d' = pauserehash d"
  using priv_dictExpand_ok [OF assms(1)] assms(2) by (auto simp: dictExpand_def split: prod.splits)

lemma dictResize_ok:
  assumes "dict_ok d" "dictResize b d = (d', st)"
  shows "dict_ok d' \<and> dict_entries d' = dict_entries d \<and> dict_type d' = dict_type d \<and>
    pauserehash d' = pauserehash d"
  using dictExpand_ok [OF assms(1)] assms by (auto simp: dictResize_def Let_def split: if_splits)

lemma dictExpand_success:
  assumes "\<not> dictIsRehashing d" "unat sz \<le> 2 ^ 60" "ht_used (ht0 d) \<le> sz"
    and "ht_size (ht0 d) \<noteq> priv_dictNextPower sz"
  shows "snd (dictExpand d sz) = DICT_OK"
proof -
  obtain k where k: "2 \<le> k" "k \<le> 63" "priv_dictNextPower sz = 2 ^ k"
    "unat sz < LONG_MAX \<Longrightarrow> unat sz \<le> 2 ^ k" "k = 2 \<or> 2 ^ (k - 1) < unat sz"
    by (rule priv_dictNextPower_correct [of sz]) blast
  have "k < 61"
  proof (rule ccontr)
    assume "\<not> k < 61"
    then have "(2 :: nat) ^ 60 \<le> 2 ^ (k - 1)" by (intro power_increasing) auto
    with k(5) assms(2) \<open>\<not> k < 61\<close> show False by auto
  qed
  then have "\<not> (2 :: uint64) ^ k * sizeof_ptr < 2 ^ k" using pow2_mul_8_wraps [OF k(2)] by simp
  moreover have "\<not> (2 :: uint64) ^ k < sz"
    using k(2,4) assms(2) by (simp add: word_less_nat_alt unat_pow2_64 LONG_MAX_def)
  ultimately show ?thesis
    using assms(1,3,4) unfolding dictExpand_def priv_dictExpand_def Let_def k(3)
    by (simp add: not_less)
qed

lemma pow2_nonzero_64: "k < 64 \<Longrightarrow> (2 :: uint64) ^ k \<noteq> 0"
  using unat_pow2_64 [of k] by auto

lemma dictExpand_table:
  assumes "dictExpand d sz = (d', st)" "dict_ok d"
  shows "ht_ok (dictHashKey d) (ht0 d) \<Longrightarrow> ht_ok (dictHashKey d) (ht0 d')"
    and "st = DICT_OK \<Longrightarrow> ht_ok (dictHashKey d) (ht0 d')"
proof -
  obtain failed where "priv_dictExpand d sz None = (d', st, failed)"
    using assms(1) by (auto simp: dictExpand_def split: prod.splits)
  then show "ht_ok (dictHashKey d) (ht0 d) \<Longrightarrow> ht_ok (dictHashKey d) (ht0 d')"
    by (cases rule: priv_dictExpand_cases) (auto simp: fresh_table_ok)
  have "ht_table (ht0 d) \<noteq> [] \<Longrightarrow> \<not> dictIsRehashing d \<Longrightarrow> ht_ok (dictHashKey d) (ht0 d)"
    using assms(2) by (auto simp: dict_ok_def priv_dictReset_def)
  with \<open>priv_dictExpand d sz None = (d', st, failed)\<close>
  show "st = DICT_OK \<Longrightarrow> ht_ok (dictHashKey d) (ht0 d')"
    by (cases rule: priv_dictExpand_cases) (auto simp: fresh_table_ok)
qed

lemma priv_dictExpandIfNeeded_correct:
  assumes "dict_ok d" "length (dict_entries d) < 2 ^ 60" "priv_dictExpandIfNeeded b d = (d', st)"
  shows "st = DICT_OK \<and> dict_ok d' \<and> dict_entries d' = dict_entries d \<and> dict_type d' = dict_type d \<and>
    pauserehash d' = pauserehash d \<and> ht_ok (dictHashKey d) (ht0 d')"
proof (cases "dictIsRehashing d")
  case True
  with assms show ?thesis by (auto simp: priv_dictExpandIfNeeded_def dict_ok_def)
next
  case False
  then have h: "ht0 d = priv_dictReset \<or> ht_ok (dictHashKey d) (ht0 d)" and h1: "ht1 d = priv_dictReset"
    using assms(1) by (auto simp: dict_ok_def)
  have grown: ?thesis if exp: "dictExpand d sz = (d', st)" and "snd (dictExpand d sz) = DICT_OK" for sz
    using dictExpand_ok [OF assms(1) exp] dictExpand_table [OF exp assms(1)] that by auto
  show ?thesis
  proof (cases "ht0 d = priv_dictReset")
    case True
    obtain k where "k \<le> 63" "priv_dictNextPower 4 = 2 ^ k" by (rule priv_dictNextPower_correct)
    then have "priv_dictNextPower 4 \<noteq> 0" using pow2_nonzero_64 [of k] by simp
    then have "snd (dictExpand d 4) = DICT_OK"
      using True False by (intro dictExpand_success) (simp_all add: priv_dictReset_def)
    moreover have "dictExpand d 4 = (d', st)"
      using assms(3) True False
      by (simp add: priv_dictExpandIfNeeded_def priv_dictReset_def DICT_HT_INITIAL_SIZE_def)
    ultimately show ?thesis by (intro grown)
  next
    case reset: False
    with h have ok: "ht_ok (dictHashKey d) (ht0 d)" by simp
    then obtain k where k: "k < 61" "ht_size (ht0 d) = 2 ^ k" by (rule ht_ok_size)
    then have size: "ht_size (ht0 d) \<noteq> 0" using pow2_nonzero_64 [of k] by simp
    have used: "unat (ht_used (ht0 d)) < 2 ^ 60"
      using ok assms(2) by (simp add: ht_ok_def dict_entries_def)
    then have inc: "unat (ht_used (ht0 d) + 1) = Suc (unat (ht_used (ht0 d)))"
      by (simp add: unat_add_1_64)
    show ?thesis
    proof (cases "dictExpand d (ht_used (ht0 d) + 1) = (d', st) \<and> ht_size (ht0 d) \<le> ht_used (ht0 d)")
      case True
      obtain k' where k': "k' \<le> 63" "priv_dictNextPower (ht_used (ht0 d) + 1) = 2 ^ k'"
        "unat (ht_used (ht0 d) + 1) < LONG_MAX \<Longrightarrow> unat (ht_used (ht0 d) + 1) \<le> 2 ^ k'"
        by (rule priv_dictNextPower_correct [of "ht_used (ht0 d) + 1"]) blast
      have "unat (ht_size (ht0 d)) < unat (priv_dictNextPower (ht_used (ht0 d) + 1))"
        using True k' inc used by (simp add: word_le_nat_alt unat_pow2_64 LONG_MAX_def)
      then have "snd (dictExpand d (ht_used (ht0 d) + 1)) = DICT_OK"
        using False inc used by (intro dictExpand_success) (auto simp: word_le_nat_alt)
      with True show ?thesis by (intro grown) auto
    next
      case False
      then have "d' = d" "st = DICT_OK"
        using assms(3) \<open>\<not> dictIsRehashing d\<close> size
        by (auto simp: priv_dictExpandIfNeeded_def split: if_splits)
      with assms(1) ok show ?thesis by simp
    qed
  qed
qed

section \<open>Writing through an entry pointer\<close>

lemma mset_update_nth:
  "p < length xs \<Longrightarrow> add_mset (xs ! p) (mset (xs[p := y])) = add_mset y (mset xs)"
proof (induction xs arbitrary: p)
  case (Cons x xs)
  then show ?case by (cases p) (auto simp: add_mset_commute)
qed simp

text \<open>An element replaced in a part is replaced in the whole.\<close>

lemma mset_replace_part:
  assumes "A' + C = A + C'" "add_mset e C' = add_mset e' C"
  shows "add_mset e A' = add_mset e' A"
proof -
  have "add_mset e A' + C = add_mset e (A + C')" using assms(1) by simp
  also have "\<dots> = A + add_mset e' C" using assms(2) by (simp flip: union_mset_add_mset_right)
  also have "\<dots> = add_mset e' A + C" by simp
  finally show ?thesis by (simp only: add_right_cancel)
qed

lemma dict_entries_set_ht:
  assumes "t \<le> 1"
  shows "mset (dict_entries (set_ht d t h)) + mset (ht_entries (the_ht d t)) =
    mset (dict_entries d) + mset (ht_entries h)"
  using assms by (cases "t = 0") (auto simp: dict_entries_def set_ht_def the_ht_def)

lemma set_ht_type [simp]:
  "dict_type (set_ht d t h) = dict_type d" "pauserehash (set_ht d t h) = pauserehash d"
  "rehashidx (set_ht d t h) = rehashidx d"
  by (simp_all add: set_ht_def)

lemma set_ht_rehashing [simp]: "dictIsRehashing (set_ht d t h) = dictIsRehashing d"
  by (simp add: dictIsRehashing_def)

lemma the_ht_set_ht [simp]: "t \<le> 1 \<Longrightarrow> the_ht (set_ht d t h) t = h"
  by (simp add: set_ht_def the_ht_def)

context lawful_dictType
begin

lemma keys_distinct_all:
  assumes "dict_type d = ty"
  shows "keys_distinct d \<longleftrightarrow>
    (\<forall>key. size (filter_mset (keyMatches d key) (mset (dict_entries d))) \<le> 1)"
  using filter_matches_le_1 [OF assms] by (auto simp: keys_distinct_def simp flip: mset_filter)

end

text \<open>Replacing a table in which entries can sit: the general step of every update.\<close>

lemma dict_ok_set_ht:
  assumes "dict_ok d" "t \<le> 1" "ht_ok (dictHashKey d) (the_ht d t)" "ht_ok (dictHashKey d) h"
    and "length (ht_table h) = length (ht_table (the_ht d t))"
    and "\<forall>i < length (ht_table h). ht_table (the_ht d t) ! i = [] \<longrightarrow> t = 0 \<longrightarrow> dictIsRehashing d \<longrightarrow> ht_table h ! i = []"
    and "keys_distinct (set_ht d t h)" "length (dict_entries (set_ht d t h)) \<le> 2 ^ 60"
  shows "dict_ok (set_ht d t h)"
proof -
  have hash: "dictHashKey (set_ht d t h) = dictHashKey d" by (rule dictHashKey_cong) simp
  have t1: "dictIsRehashing d" if "t = 1"
    using assms(1,3) that by (auto simp: dict_ok_def ht_ok_def priv_dictReset_def split: if_splits)
  consider "t = 0" | "t = 1" using assms(2) by linarith
  then show ?thesis
  proof cases
    case 1
    with assms hash show ?thesis by (auto simp: dict_ok_def dictIsRehashing_def)
  next
    case 2
    with assms hash t1 show ?thesis by (auto simp: dict_ok_def dictIsRehashing_def)
  qed
qed

lemma derefD:
  assumes "deref d (t, i, p) = Some e"
  shows "i < length (ht_table (the_ht d t))" "p < length (ht_table (the_ht d t) ! i)"
    "e = ht_table (the_ht d t) ! i ! p"
  using assms by (auto simp: deref_def bucket_def split: if_splits option.splits)

lemma deref_ht_ok:
  assumes "dict_ok d" "deref d (t, i, p) = Some e"
  shows "ht_ok (dictHashKey d) (the_ht d t)"
proof -
  have "ht_table (the_ht d t) \<noteq> []" using derefD(1) [OF assms(2)] by auto
  then show ?thesis
    using assms(1) by (auto simp: dict_ok_def the_ht_def priv_dictReset_def split: if_splits)
qed

context lawful_dictType
begin

lemma matches_key_eq_iff:
  assumes "dict_type d = ty" "key_eq ty (de_key e') (de_key e)"
  shows "keyMatches d key e' \<longleftrightarrow> keyMatches d key e"
  using assms key_sym key_trans unfolding keyMatches_key_eq by blast

text \<open>Overwriting an entry by one with an equal key.\<close>

lemma assign_correct:
  assumes "dict_ok d" "dict_type d = ty" "deref d (t, i, p) = Some e" "t \<le> 1"
    and "key_eq ty (de_key e') (de_key e)"
  defines "d' \<equiv> assign d (t, i, p) e'"
  shows "dict_ok d'" "add_mset e (mset (dict_entries d')) = add_mset e' (mset (dict_entries d))"
    "deref d' (t, i, p) = Some e'" "dict_type d' = ty" "pauserehash d' = pauserehash d"
proof -
  define h where "h = the_ht d t"
  define c where "c = ht_table h ! i"
  define h' where "h' = h\<lparr>ht_table := (ht_table h)[i := c[p := e']], ht_used := ht_used h\<rparr>"
  note ref = derefD [OF assms(3), folded h_def, folded c_def]
  have ok: "ht_ok (dictHashKey d) h" using deref_ht_ok [OF assms(1,3)] by (simp add: h_def)
  have d': "d' = set_ht d t h'"
    by (simp add: d'_def assign_def h_def [symmetric] set_bucket_def c_def [symmetric] h'_def)
  have mset0: "add_mset e (mset (ht_entries h')) = add_mset e' (mset (ht_entries h))"
  proof (rule mset_replace_part)
    show "mset (ht_entries h') + mset c = mset (ht_entries h) + mset (c[p := e'])"
      using mset_concat_update [OF ref(1), of "c[p := e']"] by (simp add: h'_def ht_entries_def c_def)
    show "add_mset e (mset (c[p := e'])) = add_mset e' (mset c)"
      using mset_update_nth [OF ref(2), of e'] ref(3) by simp
  qed
  have hash: "dictHashKey d (de_key e') = dictHashKey d (de_key e)"
    using key_hash [OF assms(5)] assms(2) by (simp add: dictHashKey_def)
  have mem: "\<forall>x \<in> set (c[p := e']). bucketIndex h (dictHashKey d (de_key x)) = i"
    using ht_ok_bucketD [OF ok ref(1)] ref(2,3) hash set_update_subset_insert [of c p e']
    by (auto simp: c_def)
  have "length (ht_entries h') = length (ht_entries h)"
    using arg_cong [OF mset0, of size] by simp
  then have ok': "ht_ok (dictHashKey d) h'"
    using ok ref(1) mem by (intro ht_ok_set_bucket [OF ok ref(1) mem h'_def]) (simp add: ht_ok_def)
  have "mset (dict_entries d') + mset (ht_entries h) = mset (dict_entries d) + mset (ht_entries h')"
    unfolding d' using dict_entries_set_ht [OF assms(4)] by (simp add: h_def)
  then show mset: "add_mset e (mset (dict_entries d')) = add_mset e' (mset (dict_entries d))"
    using mset0 by (rule mset_replace_part)
  have type: "dict_type d' = ty" using assms(2) by (simp add: d')
  have "keyMatches d' = keyMatches d" using type assms(2) by (simp add: keyMatches_cong)
  then have "size (filter_mset (keyMatches d' key) (mset (dict_entries d'))) =
      size (filter_mset (keyMatches d key) (mset (dict_entries d)))" for key
    using arg_cong [OF mset, of "\<lambda>M. size (filter_mset (keyMatches d key) M)"]
      matches_key_eq_iff [OF assms(2,5), of key] by (cases "keyMatches d key e") simp_all
  then have "keys_distinct d'"
    using assms(1,2) type by (simp add: keys_distinct_all dict_ok_def)
  moreover have "length (dict_entries d') = length (dict_entries d)"
    using arg_cong [OF mset, of size] by simp
  ultimately show "dict_ok d'"
    unfolding d' using assms(1,4) ok ok' ref
    by (intro dict_ok_set_ht) (auto simp: h_def [symmetric] h'_def nth_list_update c_def dict_ok_def d' [symmetric])
  show "deref d' (t, i, p) = Some e'" "dict_type d' = ty" "pauserehash d' = pauserehash d"
    using ref assms(2,4) by (simp_all add: d' deref_def bucket_Some h'_def)
qed

lemma dictSetVal_correct:
  assumes "dict_ok d" "dict_type d = ty" "deref d (t, i, p) = Some e" "t \<le> 1"
    and "e' = e\<lparr>de_v := Some (dup_val ty v)\<rparr>"
  shows "\<exists>d'. dictSetVal d (t, i, p) v = Some d' \<and> dict_ok d' \<and> dict_type d' = ty \<and>
    pauserehash d' = pauserehash d \<and> deref d' (t, i, p) = Some e' \<and>
    add_mset e (mset (dict_entries d')) = add_mset e' (mset (dict_entries d))"
proof -
  have "key_eq ty (de_key e') (de_key e)" by (simp add: assms(5) key_eq_def)
  from assign_correct [OF assms(1-4) this] show ?thesis
    using assms(2,3,5) by (simp add: dictSetVal_def dup_val_def)
qed

lemma dictSetKey_correct:
  assumes "dict_ok d" "dict_type d = ty" "deref d (t, i, p) = Some e" "t \<le> 1"
    and "key_eq ty k (de_key e)"
    and "e' = e\<lparr>de_key := dup_key ty k\<rparr>"
  shows "\<exists>d'. dictSetKey d (t, i, p) k = Some d' \<and> dict_ok d' \<and> dict_type d' = ty \<and>
    pauserehash d' = pauserehash d \<and> deref d' (t, i, p) = Some e' \<and>
    add_mset e (mset (dict_entries d')) = add_mset e' (mset (dict_entries d))"
proof -
  have "key_eq ty (de_key e') (de_key e)"
    using assms(5,6) key_trans [OF key_dup] by (cases "keyDup ty") (simp_all add: dup_key_def)
  from assign_correct [OF assms(1-4) this] show ?thesis
    using assms(2,3,6) by (simp add: dictSetKey_def dup_key_def)
qed

end

section \<open>Insertion\<close>

context lawful_dictType
begin

lemma lookup_in_tables:
  assumes "dict_type d = ty" "keys_distinct d"
    and "e \<in> set (ht_entries (the_ht d t))" "t \<le> 1" "keyMatches d key e"
  shows "dict_lookup d key = Some e"
proof -
  have "e \<in> set (dict_entries d)"
    using assms(3,4) by (auto simp: dict_entries_def the_ht_def split: if_splits)
  with assms show ?thesis by (simp add: dict_lookup_Some)
qed

text \<open>
  Walking the one or two tables that can hold the key finds the entry the key denotes,
  or the chain where it belongs.
\<close>

lemma dictWalk_lookup:
  assumes "dict_ok d" "dict_type d = ty" "ht_ok (dictHashKey d) (the_ht d t)" "t \<le> 1"
  shows "\<exists>r. dictWalk d t (dictHashKey d key) key = Some (bucketIndex (the_ht d t) (dictHashKey d key), r) \<and>
    (case r of
       None \<Rightarrow> \<forall>e \<in> set (ht_entries (the_ht d t)). \<not> keyMatches d key e
     | Some ref \<Rightarrow> \<exists>p e. ref = (t, bucketIndex (the_ht d t) (dictHashKey d key), p) \<and>
         deref d ref = Some e \<and> dict_lookup d key = Some e)"
proof -
  define i where "i = bucketIndex (the_ht d t) (dictHashKey d key)"
  obtain r where walk: "dictWalk d t (dictHashKey d key) key = Some (i, r)"
    "i < length (ht_table (the_ht d t))"
    "case r of
       None \<Rightarrow> \<forall>e \<in> set (ht_entries (the_ht d t)). \<not> keyMatches d key e
     | Some ref \<Rightarrow> \<exists>p e. ref = (t, i, p) \<and> p < length (ht_table (the_ht d t) ! i) \<and>
         e = ht_table (the_ht d t) ! i ! p \<and> keyMatches d key e \<and> deref d ref = Some e"
    using dictWalk_correct [OF assms(2,3), of key] unfolding i_def by blast
  have "keys_distinct d" using assms(1) by (simp add: dict_ok_def)
  then have "dict_lookup d key = Some (ht_table (the_ht d t) ! i ! p)"
    if "p < length (ht_table (the_ht d t) ! i)" "keyMatches d key (ht_table (the_ht d t) ! i ! p)" for p
    using that walk(2) assms(2,4) by (intro lookup_in_tables) (auto intro!: bucket_in_entries)
  with walk show ?thesis
    unfolding i_def [symmetric] by (cases r) auto
qed

lemma priv_dictKeyIndex_correct:
  assumes "dict_ok d" "dict_type d = ty" "length (dict_entries d) < 2 ^ 60"
  shows "\<exists>d' i ex. priv_dictKeyIndex b d key (dictHashKey d key) = Some (d', i, ex) \<and>
    dict_ok d' \<and> dict_entries d' = dict_entries d \<and> dict_type d' = ty \<and>
    pauserehash d' = pauserehash d \<and>
    (case dict_lookup d key of
       Some e \<Rightarrow> i = None \<and> (\<exists>t j p. ex = Some (t, j, p) \<and> t \<le> 1 \<and> deref d' (t, j, p) = Some e)
     | None \<Rightarrow> ex = None \<and>
         (let h = the_ht d' (if dictIsRehashing d' then 1 else 0) in
          ht_ok (dictHashKey d) h \<and> i = Some (bucketIndex h (dictHashKey d key))))"
proof -
  obtain d' st where exp: "priv_dictExpandIfNeeded b d = (d', st)" by fastforce
  note post = priv_dictExpandIfNeeded_correct [OF assms(1,3) exp]
  have type: "dict_type d' = ty" using post assms(2) by simp
  have same: "dictHashKey d' = dictHashKey d" "keyMatches d' = keyMatches d"
    using type assms(2) by (auto intro: dictHashKey_cong keyMatches_cong)
  then have lookup: "dict_lookup d' = dict_lookup d"
    using post by (intro ext) (simp add: dict_lookup_def)
  obtain r0 where w0: "dictWalk d' 0 (dictHashKey d key) key =
      Some (bucketIndex (ht0 d') (dictHashKey d key), r0)"
    "case r0 of None \<Rightarrow> \<forall>e \<in> set (ht_entries (ht0 d')). \<not> keyMatches d key e
     | Some ref \<Rightarrow> \<exists>p e. ref = (0, bucketIndex (ht0 d') (dictHashKey d key), p) \<and>
         deref d' ref = Some e \<and> dict_lookup d key = Some e"
    using dictWalk_lookup [of d' 0 key, unfolded same lookup the_ht_simps] post type by auto
  show ?thesis
  proof (cases r0)
    case (Some ref)
    with w0 post type show ?thesis
      by (auto simp: priv_dictKeyIndex_def exp)
  next
    case r0: None
    show ?thesis
    proof (cases "dictIsRehashing d'")
      case False
      then have "ht1 d' = priv_dictReset" using post by (simp add: dict_ok_def)
      then have "dict_entries d' = ht_entries (ht0 d')"
        by (simp add: dict_entries_def ht_entries_def priv_dictReset_def)
      then have "dict_lookup d key = None"
        using w0(2) r0 post by (simp add: dict_lookup_None)
      with w0(1) r0 post type False show ?thesis
        by (simp add: priv_dictKeyIndex_def exp)
    next
      case True
      then have ok1: "ht_ok (dictHashKey d) (ht1 d')" using post same by (simp add: dict_ok_def)
      obtain r1 where w1: "dictWalk d' (Suc 0) (dictHashKey d key) key =
          Some (bucketIndex (ht1 d') (dictHashKey d key), r1)"
        "case r1 of None \<Rightarrow> \<forall>e \<in> set (ht_entries (ht1 d')). \<not> keyMatches d key e
         | Some ref \<Rightarrow> \<exists>p e. ref = (Suc 0, bucketIndex (ht1 d') (dictHashKey d key), p) \<and>
             deref d' ref = Some e \<and> dict_lookup d key = Some e"
        using dictWalk_lookup [of d' "Suc 0" key, unfolded same lookup the_ht_simps] ok1 post type by auto
      show ?thesis
      proof (cases r1)
        case (Some ref)
        with w0 w1 r0 post type True show ?thesis
          by (auto simp: priv_dictKeyIndex_def exp)
      next
        case None
        then have "dict_lookup d' key = None"
          using w0(2) w1(2) r0 same by (simp add: dict_lookup_None dict_entries_def ball_Un)
        with None w0(1) w1(1) r0 post type True ok1 lookup show ?thesis
          by (simp add: priv_dictKeyIndex_def exp)
      qed
    qed
  qed
qed

text \<open>Pushing a new entry on the chain its hash selects.\<close>

lemma dict_push_correct:
  assumes "dict_ok d" "dict_type d = ty" "length (dict_entries d) < 2 ^ 60" "dict_lookup d key = None"
    and "t = (if dictIsRehashing d then 1 else 0)" "h = the_ht d t"
    and "ht_ok (dictHashKey d) h" "i = bucketIndex h (dictHashKey d key)" "de_key e = key"
    and "d' = set_ht d t ((set_bucket h i (e # ht_table h ! i))\<lparr>ht_used := ht_used h + 1\<rparr>)"
  shows "dict_ok d'" "mset (dict_entries d') = add_mset e (mset (dict_entries d))"
    "deref d' (t, i, 0) = Some e" "dict_type d' = ty" "pauserehash d' = pauserehash d"
proof -
  define h' where "h' = (set_bucket h i (e # ht_table h ! i))\<lparr>ht_used := ht_used h + 1\<rparr>"
  have t: "t \<le> 1" using assms(5) by simp
  have i: "i < length (ht_table h)" using bucketIndex_less [OF assms(7)] assms(8) by simp
  have sub: "length (ht_entries h) \<le> length (dict_entries d)"
    using t assms(6) by (auto simp: the_ht_def dict_entries_def)
  have push: "ht_ok (dictHashKey d) h'" "mset (ht_entries h') = add_mset e (mset (ht_entries h))"
    using ht_push_ok [OF assms(7) _ _ h'_def] assms(3,8,9) sub by auto
  have d': "d' = set_ht d t h'" by (simp add: assms(10) h'_def)
  have "mset (dict_entries d') + mset (ht_entries h) = mset (dict_entries d) + mset (ht_entries h')"
    unfolding d' using dict_entries_set_ht [OF t] assms(6) by simp
  then show mset: "mset (dict_entries d') = add_mset e (mset (dict_entries d))"
    unfolding push(2) by simp
  show type: "dict_type d' = ty" "pauserehash d' = pauserehash d" using assms(2) by (simp_all add: d')
  have "\<not> keyMatches d k e" if "x \<in> set (dict_entries d)" "keyMatches d k x" for k x
    using that assms(2,4,9) key_sym key_trans
    unfolding dict_lookup_None keyMatches_key_eq by blast
  then have "size (filter_mset (keyMatches d k) (add_mset e (mset (dict_entries d)))) \<le> 1" for k
    using assms(1,2) keys_distinct_all [OF assms(2)]
    by (cases "\<exists>x \<in> set (dict_entries d). keyMatches d k x") (auto simp: dict_ok_def filter_mset_eq_conv)
  then have distinct: "keys_distinct d'"
    using keys_distinct_all [OF type(1)] mset keyMatches_cong [of d' d] type(1) assms(2) by simp
  have "length (dict_entries d') = Suc (length (dict_entries d))"
    using arg_cong [OF mset, of size] by simp
  then show "dict_ok d'"
    unfolding d' using assms(1,3,5-7) t push(1) distinct d' i
    by (intro dict_ok_set_ht) (auto simp: h'_def set_bucket_def)
  show "deref d' (t, i, 0) = Some e"
    using t i by (simp add: d' deref_def bucket_Some h'_def set_bucket_def)
qed

lemma dictAddRaw_correct:
  assumes "dict_ok d" "dict_type d = ty" "length (dict_entries d) < 2 ^ 60"
  shows "\<exists>d' entry ex. dictAddRaw b d key = Some (d', entry, ex) \<and> dict_ok d' \<and> dict_type d' = ty \<and>
    pauserehash d' = pauserehash d \<and>
    (case dict_lookup d key of
       Some e \<Rightarrow> entry = None \<and> mset (dict_entries d') = mset (dict_entries d) \<and>
         (\<exists>t j p. ex = Some (t, j, p) \<and> t \<le> 1 \<and> deref d' (t, j, p) = Some e)
     | None \<Rightarrow> \<exists>t j p. entry = Some (t, j, p) \<and> t \<le> 1 \<and>
         (let e = \<lparr>de_key = dup_key ty key, de_v = None\<rparr> in
          deref d' (t, j, p) = Some e \<and> mset (dict_entries d') = add_mset e (mset (dict_entries d))))"
proof -
  obtain d1 where d1: "(if dictIsRehashing d then priv_dictRehashStep d else Some d) = Some d1"
    "dict_ok d1" "mset (dict_entries d1) = mset (dict_entries d)" "dict_type d1 = ty"
    "pauserehash d1 = pauserehash d"
    using maybe_step_correct [OF assms(1)] assms(2) by auto
  have len1: "length (dict_entries d1) < 2 ^ 60" using d1(3) assms(3) by (metis size_mset)
  have "keys_distinct d" using assms(1) by (simp add: dict_ok_def)
  then have lookup: "dict_lookup d1 = dict_lookup d"
    using dict_lookup_mset [OF assms(2) d1(4) _ d1(3)] by simp
  obtain d2 i ex where d2: "priv_dictKeyIndex b d1 key (dictHashKey d1 key) = Some (d2, i, ex)"
    "dict_ok d2" "dict_entries d2 = dict_entries d1" "dict_type d2 = ty" "pauserehash d2 = pauserehash d"
    "case dict_lookup d key of
       Some e \<Rightarrow> i = None \<and> (\<exists>t j p. ex = Some (t, j, p) \<and> t \<le> 1 \<and> deref d2 (t, j, p) = Some e)
     | None \<Rightarrow> ex = None \<and>
         (let h = the_ht d2 (if dictIsRehashing d2 then 1 else 0) in
          ht_ok (dictHashKey d1) h \<and> i = Some (bucketIndex h (dictHashKey d1 key)))"
    using priv_dictKeyIndex_correct [OF d1(2,4) len1, of b key] lookup d1(5) by auto
  show ?thesis
  proof (cases "dict_lookup d key")
    case (Some e)
    with d1 d2 show ?thesis
      by (auto simp: dictAddRaw_def)
  next
    case None
    define t :: nat where "t = (if dictIsRehashing d2 then 1 else 0)"
    define h where "h = the_ht d2 t"
    define j where "j = bucketIndex h (dictHashKey d2 key)"
    define e where "e = \<lparr>de_key = key, de_v = None :: 'v option\<rparr>"
    define d3 where "d3 = set_ht d2 t ((set_bucket h j (e # ht_table h ! j))\<lparr>ht_used := ht_used h + 1\<rparr>)"
    have hash: "dictHashKey d2 = dictHashKey d1" using d2(4) d1(4) by (simp add: dictHashKey_cong)
    have ok: "ht_ok (dictHashKey d2) h" and i: "i = Some j" and ex: "ex = None"
      using d2(6) None hash by (simp_all add: t_def h_def j_def Let_def)
    have "dict_lookup d2 = dict_lookup d1"
      using d2(3,4) d1(4) keyMatches_cong [of d2 d1] by (intro ext) (simp add: dict_lookup_def)
    with None lookup have "dict_lookup d2 key = None" by simp
    then have push: "dict_ok d3" "mset (dict_entries d3) = add_mset e (mset (dict_entries d2))"
      "deref d3 (t, j, 0) = Some e" "dict_type d3 = ty" "pauserehash d3 = pauserehash d2"
      using dict_push_correct [OF d2(2,4) _ _ t_def h_def ok j_def _ d3_def] len1 d2(3)
      by (simp_all add: e_def)
    define e' where "e' = \<lparr>de_key = dup_key ty key, de_v = None :: 'v option\<rparr>"
    have t: "t \<le> 1" by (simp add: t_def)
    obtain d4 where d4: "dictSetKey d3 (t, j, 0) key = Some d4" "dict_ok d4" "dict_type d4 = ty"
      "pauserehash d4 = pauserehash d3" "deref d4 (t, j, 0) = Some e'"
      "add_mset e (mset (dict_entries d4)) = add_mset e' (mset (dict_entries d3))"
      using dictSetKey_correct [OF push(1,4,3) t, of key e']
      by (auto simp: e_def e'_def key_eq_def)
    have mset: "mset (dict_entries d4) = add_mset e' (mset (dict_entries d))"
      using d4(6) push(2) d2(3) d1(3) by (simp add: add_mset_commute)
    have "bucket h j = Some (ht_table h ! j)"
      using bucketIndex_less [OF ok] by (simp add: bucket_Some j_def)
    then have "dictAddRaw b d key = Some (d4, Some (t, j, 0), ex)"
      using d1(1) d2(1) i d4(1)
      by (simp add: dictAddRaw_def t_def [symmetric] h_def [symmetric] e_def [symmetric] d3_def [symmetric])
    then show ?thesis
      using None d4 push d2 mset t by (simp add: e'_def Let_def)
  qed
qed

end

end
