(* ===== verification/Dict_Ops.thy ===== *)
theory Dict_Ops
  imports Dict Refinement
begin

text \<open>Functional correctness of the public operations of dict.c, stated through \<^const>\<open>dict_lookup\<close>.\<close>

lemma unat_ht_used:
  assumes "dict_ok d" "t \<le> 1"
  shows "unat (ht_used (the_ht d t)) = length (ht_entries (the_ht d t))"
  using assms by (auto simp: dict_ok_def ht_ok_def the_ht_def priv_dictReset_def ht_entries_def split: if_splits)

lemma used_zero_iff:
  assumes "dict_ok d"
  shows "ht_used (ht0 d) = 0 \<and> ht_used (ht1 d) = 0 \<longleftrightarrow> dict_entries d = []"
  using unat_ht_used [OF assms, of 0] unat_ht_used [OF assms, of 1]
  by (auto simp: dict_entries_def simp flip: unat_eq_zero)

lemma unat_dictSize:
  assumes "dict_ok d"
  shows "unat (dictSize d) = length (dict_entries d)"
proof -
  have "length (ht_entries (ht0 d)) + length (ht_entries (ht1 d)) \<le> 2 ^ 60"
    using assms by (simp add: dict_ok_def dict_entries_def)
  then show ?thesis
    using unat_ht_used [OF assms, of 0] unat_ht_used [OF assms, of 1]
    by (simp add: dictSize_def unat_word_ariths dict_entries_def)
qed

lemma dict_ok_tables:
  assumes "dict_ok d" "dict_entries d \<noteq> []"
  shows "ht_ok (dictHashKey d) (ht0 d)" "dictIsRehashing d \<Longrightarrow> ht_ok (dictHashKey d) (ht1 d)"
    "\<not> dictIsRehashing d \<Longrightarrow> dict_entries d = ht_entries (ht0 d)"
  using assms by (auto simp: dict_ok_def dict_entries_def ht_entries_def priv_dictReset_def split: if_splits)

context lawful_dictType
begin

lemma key_eq_cong_right: "key_eq ty a b \<Longrightarrow> key_eq ty k a \<longleftrightarrow> key_eq ty k b"
  using key_sym key_trans by blast

lemma key_eq_dup: "key_eq ty (dup_key ty key) key"
  using key_dup by (cases "keyDup ty") (auto simp: dup_key_def key_eq_def)

text \<open>How a lookup changes when an entry is added, replaced or removed.\<close>

lemma lookup_after_add:
  assumes "dict_ok d'" "dict_type d' = ty" "dict_ok d" "dict_type d = ty"
    and "mset (dict_entries d') = add_mset e (mset (dict_entries d))"
  shows "dict_lookup d' k = (if keyMatches d k e then Some e else dict_lookup d k)"
proof -
  have set: "set (dict_entries d') = insert e (set (dict_entries d))"
    using arg_cong [OF assms(5), of set_mset] by simp
  have km: "keyMatches d' = keyMatches d" using assms(2,4) by (simp add: keyMatches_cong)
  have "keys_distinct d" "keys_distinct d'" using assms(1,3) by (simp_all add: dict_ok_def)
  note L = dict_lookup_Some [OF assms(4) this(1)] dict_lookup_Some [OF assms(2) this(2)]
  show ?thesis
  proof (cases "keyMatches d k e")
    case True
    then show ?thesis using L(2) [of k e] set km by simp
  next
    case False
    then have "dict_lookup d' k = Some x \<longleftrightarrow> dict_lookup d k = Some x" for x
      using L [of k x] set km by auto
    with False show ?thesis by (metis not_None_eq)
  qed
qed

lemma lookup_after_remove:
  assumes "dict_ok d'" "dict_type d' = ty" "dict_ok d" "dict_type d = ty"
    and "mset (dict_entries d) = add_mset e (mset (dict_entries d'))"
  shows "dict_lookup d' k = (if keyMatches d k e then None else dict_lookup d k)"
proof -
  have km: "keyMatches d' = keyMatches d" using assms(2,4) by (simp add: keyMatches_cong)
  have "dict_lookup d k = (if keyMatches d k e then Some e else dict_lookup d' k)"
    using lookup_after_add [OF assms(3,4,1,2,5)] km by simp
  moreover have "dict_lookup d' k = None" if m: "keyMatches d k e"
  proof (rule ccontr)
    assume "dict_lookup d' k \<noteq> None"
    then obtain x where x: "x \<in># mset (dict_entries d')" "keyMatches d k x"
      using dict_lookup_None [of d' k] km by auto
    have "size (filter_mset (keyMatches d k) (mset (dict_entries d))) \<le> 1"
      using assms(3,4) keys_distinct_all [OF assms(4)] by (simp add: dict_ok_def)
    then have "filter_mset (keyMatches d k) (mset (dict_entries d')) = {#}"
      using m unfolding assms(5) by simp
    with x show False by auto
  qed
  ultimately show ?thesis by simp
qed

lemma lookup_after_replace:
  assumes "dict_ok d'" "dict_type d' = ty" "dict_ok d" "dict_type d = ty"
    and "add_mset e (mset (dict_entries d')) = add_mset e' (mset (dict_entries d))"
    and "dict_lookup d key = Some e" "key_eq ty (de_key e') (de_key e)"
  shows "dict_lookup d' k = (if keyMatches d k e then Some e' else dict_lookup d k)"
proof -
  have dist: "keys_distinct d" "keys_distinct d'" using assms(1,3) by (simp_all add: dict_ok_def)
  have km: "keyMatches d' = keyMatches d" using assms(2,4) by (simp add: keyMatches_cong)
  have m: "keyMatches d x e' \<longleftrightarrow> keyMatches d x e" for x using matches_key_eq_iff [OF assms(4,7)] .
  have e: "e \<in> set (dict_entries d)" using assms(6) dict_lookup_Some [OF assms(4) dist(1)] by blast
  obtain M where M: "mset (dict_entries d) = add_mset e M"
    using e by (metis in_multiset_in_set mset_add)
  then have M': "mset (dict_entries d') = add_mset e' M"
    using assms(5) by (simp add: add_mset_commute)
  have "size (filter_mset (keyMatches d k) (add_mset e M)) \<le> 1"
    using dist(1) keys_distinct_all [OF assms(4)] M by simp
  then have none: "keyMatches d k e \<Longrightarrow> \<forall>x. x \<in># M \<longrightarrow> \<not> keyMatches d k x" by simp
  have set: "set (dict_entries d) = insert e (set_mset M)" "set (dict_entries d') = insert e' (set_mset M)"
    using arg_cong [OF M, of set_mset] arg_cong [OF M', of set_mset] by simp_all
  note L = dict_lookup_Some [OF assms(4) dist(1)] dict_lookup_Some [OF assms(2) dist(2)]
  show ?thesis
  proof (cases "keyMatches d k e")
    case True
    then show ?thesis using L(2) [of k e'] set km m by simp
  next
    case False
    then have "dict_lookup d' k = Some x \<longleftrightarrow> dict_lookup d k = Some x" for x
      using L [of k x] set km m by auto
    with False show ?thesis by (metis not_None_eq)
  qed
qed

lemma dictAdd_correct:
  assumes "dict_ok d" "dict_type d = ty" "length (dict_entries d) < 2 ^ 60"
  shows "\<exists>d' st. dictAdd b d key v = Some (d', st) \<and> dict_ok d' \<and> dict_type d' = ty \<and>
    pauserehash d' = pauserehash d \<and>
    (if dict_lookup d key = None
     then st = DICT_OK \<and> mset (dict_entries d') =
       add_mset \<lparr>de_key = dup_key ty key, de_v = Some (dup_val ty v)\<rparr> (mset (dict_entries d))
     else st = DICT_ERR \<and> mset (dict_entries d') = mset (dict_entries d))"
proof -
  note raw = dictAddRaw_correct [OF assms, of b key]
  show ?thesis
  proof (cases "dict_lookup d key")
    case None
    define e where "e = \<lparr>de_key = dup_key ty key, de_v = None :: 'v option\<rparr>"
    obtain d1 t j p ex where d1: "dictAddRaw b d key = Some (d1, Some (t, j, p), ex)"
      "dict_ok d1" "dict_type d1 = ty" "pauserehash d1 = pauserehash d" "t \<le> 1"
      "deref d1 (t, j, p) = Some e" "mset (dict_entries d1) = add_mset e (mset (dict_entries d))"
      using raw None by (auto simp: e_def Let_def)
    obtain d' where "dictSetVal d1 (t, j, p) v = Some d'" "dict_ok d'" "dict_type d' = ty"
      "pauserehash d' = pauserehash d1"
      "add_mset e (mset (dict_entries d')) = add_mset (e\<lparr>de_v := Some (dup_val ty v)\<rparr>) (mset (dict_entries d1))"
      using dictSetVal_correct [OF d1(2,3,6,5) refl, of v] by blast
    with d1 None show ?thesis by (simp add: dictAdd_def e_def add_mset_commute)
  next
    case (Some e)
    with raw show ?thesis by (auto simp: dictAdd_def)
  qed
qed

lemma dictReplace_correct:
  assumes "dict_ok d" "dict_type d = ty" "length (dict_entries d) < 2 ^ 60"
  shows "\<exists>d' fresh. dictReplace b d key v = Some (d', fresh) \<and> dict_ok d' \<and> dict_type d' = ty \<and>
    pauserehash d' = pauserehash d \<and> (fresh \<longleftrightarrow> dict_lookup d key = None) \<and>
    (\<exists>e'. de_v e' = Some (dup_val ty v) \<and> mset (dict_entries d') \<subseteq># add_mset e' (mset (dict_entries d))) \<and>
    (\<forall>k. dict_lookup d' k =
       (if key_eq ty k key
        then Some (case dict_lookup d key of
               None \<Rightarrow> \<lparr>de_key = dup_key ty key, de_v = Some (dup_val ty v)\<rparr>
             | Some e \<Rightarrow> e\<lparr>de_v := Some (dup_val ty v)\<rparr>)
        else dict_lookup d k))"
proof -
  note raw = dictAddRaw_correct [OF assms, of b key]
  have dist: "keys_distinct d" using assms(1) by (simp add: dict_ok_def)
  show ?thesis
  proof (cases "dict_lookup d key")
    case None
    define e where "e = \<lparr>de_key = dup_key ty key, de_v = None :: 'v option\<rparr>"
    define e' where "e' = e\<lparr>de_v := Some (dup_val ty v)\<rparr>"
    obtain d1 t j p ex where d1: "dictAddRaw b d key = Some (d1, Some (t, j, p), ex)"
      "dict_ok d1" "dict_type d1 = ty" "pauserehash d1 = pauserehash d" "t \<le> 1"
      "deref d1 (t, j, p) = Some e" "mset (dict_entries d1) = add_mset e (mset (dict_entries d))"
      using raw None by (auto simp: e_def Let_def)
    obtain d' where d': "dictSetVal d1 (t, j, p) v = Some d'" "dict_ok d'" "dict_type d' = ty"
      "pauserehash d' = pauserehash d1"
      "add_mset e (mset (dict_entries d')) = add_mset e' (mset (dict_entries d1))"
      using dictSetVal_correct [OF d1(2,3,6,5) refl, of v] by (auto simp: e'_def)
    have added: "mset (dict_entries d') = add_mset e' (mset (dict_entries d))"
      using d'(5) d1(7) by (simp add: add_mset_commute)
    note lookup = lookup_after_add [OF d'(2,3) assms(1,2) added]
    have "\<exists>x. de_v x = Some (dup_val ty v) \<and> mset (dict_entries d') \<subseteq># add_mset x (mset (dict_entries d))"
      using added by (intro exI [of _ e']) (simp add: e'_def)
    moreover
    have "keyMatches d k e' \<longleftrightarrow> key_eq ty k key" for k
      using assms(2) key_eq_cong_right [OF key_eq_dup] by (simp add: keyMatches_key_eq e'_def e_def)
    ultimately show ?thesis using lookup d1 d' None
      by (auto simp: dictReplace_def e'_def e_def)
  next
    case (Some e)
    obtain d1 t j p where d1: "dictAddRaw b d key = Some (d1, None, Some (t, j, p))"
      "dict_ok d1" "dict_type d1 = ty" "pauserehash d1 = pauserehash d" "t \<le> 1"
      "deref d1 (t, j, p) = Some e" "mset (dict_entries d1) = mset (dict_entries d)"
      using raw Some by auto
    define e' where "e' = e\<lparr>de_v := Some (dup_val ty v)\<rparr>"
    obtain d' where d': "dictSetVal d1 (t, j, p) v = Some d'" "dict_ok d'" "dict_type d' = ty"
      "pauserehash d' = pauserehash d1"
      "add_mset e (mset (dict_entries d')) = add_mset e' (mset (dict_entries d1))"
      using dictSetVal_correct [OF d1(2,3,6,5) refl, of v] by (auto simp: e'_def)
    note lookup = lookup_after_replace [OF d'(2,3) assms(1,2) d'(5) [unfolded d1(7)] Some]
    have "mset (dict_entries d') \<subseteq># add_mset e' (mset (dict_entries d))"
      unfolding d1(7) [symmetric] d'(5) [symmetric] by simp
    then have sub: "\<exists>x. de_v x = Some (dup_val ty v) \<and> mset (dict_entries d') \<subseteq># add_mset x (mset (dict_entries d))"
      by (intro exI [of _ e']) (simp add: e'_def)
    have key: "key_eq ty key (de_key e)"
      using Some dict_lookup_Some [OF assms(2) dist] assms(2) by (simp add: keyMatches_key_eq)
    then have "keyMatches d k e \<longleftrightarrow> key_eq ty k key" for k
      using assms(2) key_eq_cong_right by (simp add: keyMatches_key_eq)
    with lookup d1 d' Some sub show ?thesis
      by (auto simp: dictReplace_def e'_def key_eq_def)
  qed
qed

section \<open>Lookup and deletion\<close>

text \<open>The two walks that \<^const>\<open>dictFind\<close> and \<^const>\<open>dictGenericDelete\<close> share.\<close>

lemma walk_both_tables:
  assumes "dict_ok d" "dict_type d = ty" "dict_entries d \<noteq> []"
  obtains i r0 where "dictWalk d 0 (dictHashKey d key) key = Some (i, r0)"
    and "\<And>ref. r0 = Some ref \<Longrightarrow> \<exists>t j p e. ref = (t, j, p) \<and> t \<le> 1 \<and> deref d ref = Some e \<and> dict_lookup d key = Some e"
    and "r0 = None \<Longrightarrow> \<not> dictIsRehashing d \<Longrightarrow> dict_lookup d key = None"
    and "r0 = None \<Longrightarrow> dictIsRehashing d \<Longrightarrow> \<exists>i1 r1. dictWalk d 1 (dictHashKey d key) key = Some (i1, r1) \<and>
      (case r1 of None \<Rightarrow> dict_lookup d key = None
       | Some ref \<Rightarrow> \<exists>t j p e. ref = (t, j, p) \<and> t \<le> 1 \<and> deref d ref = Some e \<and> dict_lookup d key = Some e)"
proof -
  note tables = dict_ok_tables [OF assms(1,3)]
  obtain r0 where w0: "dictWalk d 0 (dictHashKey d key) key = Some (bucketIndex (ht0 d) (dictHashKey d key), r0)"
    "case r0 of None \<Rightarrow> \<forall>e \<in> set (ht_entries (ht0 d)). \<not> keyMatches d key e
     | Some ref \<Rightarrow> \<exists>p e. ref = (0, bucketIndex (ht0 d) (dictHashKey d key), p) \<and>
         deref d ref = Some e \<and> dict_lookup d key = Some e"
    using dictWalk_lookup [of d 0 key, unfolded the_ht_simps] assms(1,2) tables(1) by auto
  have first: "\<exists>t j p e. ref = (t, j, p) \<and> t \<le> 1 \<and> deref d ref = Some e \<and> dict_lookup d key = Some e"
    if "r0 = Some ref" for ref using w0(2) that by fastforce
  have no_rehash: "dict_lookup d key = None" if "r0 = None" "\<not> dictIsRehashing d"
    using w0(2) that tables(3) by (simp add: dict_lookup_None)
  have second: "\<exists>i1 r1. dictWalk d 1 (dictHashKey d key) key = Some (i1, r1) \<and>
      (case r1 of None \<Rightarrow> dict_lookup d key = None
       | Some ref \<Rightarrow> \<exists>t j p e. ref = (t, j, p) \<and> t \<le> 1 \<and> deref d ref = Some e \<and> dict_lookup d key = Some e)"
    if r: "r0 = None" "dictIsRehashing d"
  proof -
    obtain r1 where w1: "dictWalk d (Suc 0) (dictHashKey d key) key = Some (bucketIndex (ht1 d) (dictHashKey d key), r1)"
      "case r1 of None \<Rightarrow> \<forall>e \<in> set (ht_entries (ht1 d)). \<not> keyMatches d key e
       | Some ref \<Rightarrow> \<exists>p e. ref = (Suc 0, bucketIndex (ht1 d) (dictHashKey d key), p) \<and>
           deref d ref = Some e \<and> dict_lookup d key = Some e"
      using dictWalk_lookup [of d "Suc 0" key, unfolded the_ht_simps] assms(1,2) tables(2) r(2) by auto
    show ?thesis
    proof (cases r1)
      case None
      with w0(2) w1(2) r have "dict_lookup d key = None"
        by (simp add: dict_lookup_None dict_entries_def ball_Un)
      with None w1(1) show ?thesis by simp
    next
      case (Some ref)
      with w1 show ?thesis by fastforce
    qed
  qed
  from that [OF w0(1) first no_rehash second] show ?thesis .
qed

lemma dictFind_correct:
  assumes "dict_ok d" "dict_type d = ty"
  shows "\<exists>d' he. dictFind d key = Some (d', he) \<and> dict_ok d' \<and> dict_type d' = ty \<and>
    mset (dict_entries d') = mset (dict_entries d) \<and> pauserehash d' = pauserehash d \<and>
    (case he of None \<Rightarrow> dict_lookup d key = None
     | Some ref \<Rightarrow> \<exists>t j p e. ref = (t, j, p) \<and> t \<le> 1 \<and> deref d' ref = Some e \<and> dict_lookup d key = Some e)"
proof (cases "dict_entries d = []")
  case True
  then have "dictSize d = 0" using unat_dictSize [OF assms(1)] by (simp flip: unat_eq_zero)
  with True assms show ?thesis by (simp add: dictFind_def dict_lookup_None)
next
  case False
  then have size: "dictSize d \<noteq> 0" using unat_dictSize [OF assms(1)] by auto
  obtain d1 where d1: "(if dictIsRehashing d then priv_dictRehashStep d else Some d) = Some d1"
    "dict_ok d1" "mset (dict_entries d1) = mset (dict_entries d)" "dict_type d1 = ty"
    "pauserehash d1 = pauserehash d"
    using maybe_step_correct [OF assms(1)] assms(2) by auto
  have ne: "dict_entries d1 \<noteq> []" using d1(3) False by (metis mset_zero_iff)
  have lookup: "dict_lookup d1 = dict_lookup d"
    using dict_lookup_mset [OF assms(2) d1(4) _ d1(3)] assms(1) by (simp add: dict_ok_def)
  obtain i r0 where w: "dictWalk d1 0 (dictHashKey d1 key) key = Some (i, r0)"
    "\<And>ref. r0 = Some ref \<Longrightarrow> \<exists>t j p e. ref = (t, j, p) \<and> t \<le> 1 \<and> deref d1 ref = Some e \<and> dict_lookup d key = Some e"
    "r0 = None \<Longrightarrow> \<not> dictIsRehashing d1 \<Longrightarrow> dict_lookup d key = None"
    "r0 = None \<Longrightarrow> dictIsRehashing d1 \<Longrightarrow> \<exists>i1 r1. dictWalk d1 1 (dictHashKey d1 key) key = Some (i1, r1) \<and>
      (case r1 of None \<Rightarrow> dict_lookup d key = None
       | Some ref \<Rightarrow> \<exists>t j p e. ref = (t, j, p) \<and> t \<le> 1 \<and> deref d1 ref = Some e \<and> dict_lookup d key = Some e)"
    using walk_both_tables [OF d1(2,4) ne, of key] unfolding lookup by blast
  show ?thesis
  proof (cases r0)
    case (Some ref)
    with w(1) w(2) [OF Some] d1 size show ?thesis by (auto simp: dictFind_def)
  next
    case None
    show ?thesis
    proof (cases "dictIsRehashing d1")
      case True
      from w(4) [OF None True] obtain i1 r1 where "dictWalk d1 1 (dictHashKey d1 key) key = Some (i1, r1)"
        "case r1 of None \<Rightarrow> dict_lookup d key = None
         | Some ref \<Rightarrow> \<exists>t j p e. ref = (t, j, p) \<and> t \<le> 1 \<and> deref d1 ref = Some e \<and> dict_lookup d key = Some e"
        by blast
      with True None w(1) d1 size show ?thesis by (simp add: dictFind_def)
    next
      case False
      with None w(1) w(3) [OF None False] d1 size show ?thesis by (simp add: dictFind_def)
    qed
  qed
qed

lemma dictFetchValue_correct:
  assumes "dict_ok d" "dict_type d = ty"
  shows "\<exists>d'. dictFetchValue d key = Some (d', Option.bind (dict_lookup d key) de_v) \<and>
    dict_ok d' \<and> dict_type d' = ty \<and> mset (dict_entries d') = mset (dict_entries d)"
  using dictFind_correct [OF assms, of key]
  by (auto simp: dictFetchValue_def split: option.splits)

lemma dictUnlinkAt_correct:
  assumes "dict_ok d" "dict_type d = ty" "deref d (t, i, p) = Some e" "t \<le> 1"
  shows "\<exists>d'. dictUnlinkAt d (t, i, p) = Some (d', Some e) \<and> dict_ok d' \<and> dict_type d' = ty \<and>
    pauserehash d' = pauserehash d \<and> mset (dict_entries d) = add_mset e (mset (dict_entries d'))"
proof -
  define h where "h = the_ht d t"
  define c where "c = ht_table h ! i"
  define c' where "c' = take p c @ drop (Suc p) c"
  define h' where "h' = h\<lparr>ht_table := (ht_table h)[i := c'], ht_used := ht_used h - 1\<rparr>"
  define d' where "d' = set_ht d t h'"
  note ref = derefD [OF assms(3), folded h_def, folded c_def]
  have ok: "ht_ok (dictHashKey d) h" using deref_ht_ok [OF assms(1,3)] by (simp add: h_def)
  have c: "mset c = add_mset e (mset c')"
    using id_take_nth_drop [OF ref(2)] ref(3) unfolding c'_def
    by (metis mset_append mset.simps(2) union_mset_add_mset_right)
  then have sub: "set c' \<subseteq> set c" by (metis set_mset_add_mset_insert set_mset_mset subset_insertI)
  have mset_h: "mset (ht_entries h) = add_mset e (mset (ht_entries h'))"
    using mset_concat_update [OF ref(1), of c'] c by (simp add: h'_def ht_entries_def c_def)
  have len: "length (ht_entries h) = Suc (length (ht_entries h'))"
    using arg_cong [OF mset_h, of size] by simp
  have "unat (ht_used h) = length (ht_entries h)" using ok by (simp add: ht_ok_def)
  then have "unat (ht_used h - 1) = length (ht_entries h')"
    using len unat_sub_1_64 [of "ht_used h"] by (cases "ht_used h = 0") simp_all
  moreover have "\<forall>x \<in> set c'. bucketIndex h (dictHashKey d (de_key x)) = i"
    using sub ht_ok_bucketD [OF ok ref(1)] by (auto simp: c_def)
  ultimately have ok': "ht_ok (dictHashKey d) h'"
    using ht_ok_set_bucket [OF ok ref(1) _ h'_def] by simp
  have "mset (dict_entries d') + mset (ht_entries h) = mset (dict_entries d) + mset (ht_entries h')"
    unfolding d'_def using dict_entries_set_ht [OF assms(4)] by (simp add: h_def)
  then have mset: "mset (dict_entries d) = add_mset e (mset (dict_entries d'))"
    unfolding mset_h by simp
  have type: "dict_type d' = ty" "pauserehash d' = pauserehash d" using assms(2) by (simp_all add: d'_def)
  have "size (filter_mset (keyMatches d k) (mset (dict_entries d'))) \<le>
      size (filter_mset (keyMatches d k) (mset (dict_entries d)))" for k
    unfolding mset by simp
  then have distinct: "keys_distinct d'"
    using assms(1,2) type keyMatches_cong [of d' d] order_trans
    by (fastforce simp: keys_distinct_all dict_ok_def)
  have "length (dict_entries d) = Suc (length (dict_entries d'))"
    using arg_cong [OF mset, of size] by simp
  then have "dict_ok d'"
    unfolding d'_def using assms(1,4) ok ok' distinct ref sub
    by (intro dict_ok_set_ht) (auto simp: h_def [symmetric] h'_def nth_list_update c_def dict_ok_def d'_def)
  moreover have "dictUnlinkAt d (t, i, p) = Some (d', Some e)"
    using ref assms(3)
    by (simp add: dictUnlinkAt_def h_def [symmetric] bucket_Some c_def [symmetric] c'_def [symmetric]
        set_bucket_def d'_def h'_def)
  ultimately show ?thesis using type mset by blast
qed

lemma dictGenericDelete_correct:
  assumes "dict_ok d" "dict_type d = ty"
  shows "\<exists>d'. dictGenericDelete d key = Some (d', dict_lookup d key) \<and> dict_ok d' \<and> dict_type d' = ty \<and>
    pauserehash d' = pauserehash d \<and>
    (case dict_lookup d key of None \<Rightarrow> mset (dict_entries d') = mset (dict_entries d)
     | Some e \<Rightarrow> mset (dict_entries d) = add_mset e (mset (dict_entries d')))"
proof (cases "dict_entries d = []")
  case True
  then show ?thesis using used_zero_iff [OF assms(1)] assms by (simp add: dictGenericDelete_def dict_lookup_def)
next
  case False
  then have used: "\<not> (ht_used (ht0 d) = 0 \<and> ht_used (ht1 d) = 0)" using used_zero_iff [OF assms(1)] by simp
  obtain d1 where d1: "(if dictIsRehashing d then priv_dictRehashStep d else Some d) = Some d1"
    "dict_ok d1" "mset (dict_entries d1) = mset (dict_entries d)" "dict_type d1 = ty"
    "pauserehash d1 = pauserehash d"
    using maybe_step_correct [OF assms(1)] assms(2) by auto
  have ne: "dict_entries d1 \<noteq> []" using d1(3) False by (metis mset_zero_iff)
  have lookup: "dict_lookup d1 = dict_lookup d"
    using dict_lookup_mset [OF assms(2) d1(4) _ d1(3)] assms(1) by (simp add: dict_ok_def)
  define found where "found = (\<lambda>ref. \<exists>t j p e. ref = (t, j, p) \<and> t \<le> (1 :: nat) \<and> deref d1 ref = Some e \<and> dict_lookup d key = Some e)"
  have unlink: "\<exists>d' e. dictUnlinkAt d1 ref = Some (d', Some e) \<and> dict_lookup d key = Some e \<and> dict_ok d' \<and>
      dict_type d' = ty \<and> pauserehash d' = pauserehash d \<and> mset (dict_entries d) = add_mset e (mset (dict_entries d'))"
    if "found ref" for ref
    using that dictUnlinkAt_correct [OF d1(2,4)] d1(3,5) unfolding found_def by fastforce
  obtain i r0 where w: "dictWalk d1 0 (dictHashKey d1 key) key = Some (i, r0)"
    "\<And>ref. r0 = Some ref \<Longrightarrow> found ref"
    "r0 = None \<Longrightarrow> \<not> dictIsRehashing d1 \<Longrightarrow> dict_lookup d key = None"
    "r0 = None \<Longrightarrow> dictIsRehashing d1 \<Longrightarrow> \<exists>i1 r1. dictWalk d1 1 (dictHashKey d1 key) key = Some (i1, r1) \<and>
      (case r1 of None \<Rightarrow> dict_lookup d key = None | Some ref \<Rightarrow> found ref)"
    using walk_both_tables [OF d1(2,4) ne, of key] unfolding lookup found_def by blast
  show ?thesis
  proof (cases r0)
    case (Some ref)
    with w(1) unlink [OF w(2)] d1(1) used show ?thesis by (fastforce simp: dictGenericDelete_def)
  next
    case None
    show ?thesis
    proof (cases "dictIsRehashing d1")
      case True
      from w(4) [OF None True] obtain i1 r1 where w1: "dictWalk d1 1 (dictHashKey d1 key) key = Some (i1, r1)"
        "case r1 of None \<Rightarrow> dict_lookup d key = None | Some ref \<Rightarrow> found ref"
        by blast
      show ?thesis
      proof (cases r1)
        case r1: None
        with w1 True None w(1) d1 used show ?thesis by (auto simp: dictGenericDelete_def)
      next
        case (Some ref)
        with w1 unlink [of ref] True None w(1) d1(1) used show ?thesis
          by (fastforce simp: dictGenericDelete_def)
      qed
    next
      case False
      with None w(1) w(3) [OF None False] d1 used show ?thesis by (auto simp: dictGenericDelete_def)
    qed
  qed
qed

end

section \<open>Clearing\<close>

lemma dictClearLoop_zero:
  assumes "unat used = length (concat cs)" "length (concat cs) \<le> 2 ^ 60"
  shows "dictClearLoop cs used = 0"
  using assms
proof (induction cs arbitrary: used)
  case Nil
  then show ?case by (simp flip: unat_eq_zero)
next
  case (Cons c cs)
  have "unat (of_nat (length c) :: uint64) = length c"
    using Cons.prems(2) by (intro unat_of_nat_64) simp
  moreover from this have "of_nat (length c) \<le> used"
    using Cons.prems(1) by (simp add: word_le_nat_alt)
  ultimately have "unat (used - of_nat (length c)) = length (concat cs)"
    using Cons.prems(1) by (simp add: unat_sub)
  with Cons show ?case by (auto simp: word_gt_0)
qed

lemma priv_dictClear_counts:
  assumes "dict_ok d" "t \<le> 1"
  shows "priv_dictClear (the_ht d t) = (0, priv_dictReset)"
proof -
  have "length (ht_entries (the_ht d t)) \<le> length (dict_entries d)"
    using assms(2) by (auto simp: dict_entries_def the_ht_def)
  also have "\<dots> \<le> 2 ^ 60" using assms(1) by (simp add: dict_ok_def)
  finally show ?thesis
    using unat_ht_used [OF assms] unfolding priv_dictClear_def ht_entries_def
    by (simp add: dictClearLoop_zero)
qed

lemma dictEmpty_correct: "dict_ok (dictEmpty d)" "dict_entries (dictEmpty d) = []"
  by (simp_all add: dict_ok_def dictEmpty_def dictIsRehashing_def priv_dictClear_def dict_entries_def
      ht_entries_def priv_dictReset_def keys_distinct_def)

section \<open>Incremental rehashing comes to an end\<close>

fun dictRehashMany :: "nat \<Rightarrow> nat \<Rightarrow> ('k, 'v) dict \<Rightarrow> ('k, 'v) dict option" where
  "dictRehashMany 0 n d = Some d"
| "dictRehashMany (Suc m) n d = Option.bind (map_option fst (dictRehash d n)) (dictRehashMany m n)"

lemma dictRehashLoop_out_used:
  "dictRehashLoop d n ev = Some (d', True) \<Longrightarrow> ht_used (ht0 d') \<noteq> 0"
  by (induction n arbitrary: d ev) (auto split: if_splits bind_splits)

lemma dictRehash_more_used:
  "dictRehash d n = Some (d', True) \<Longrightarrow> ht_used (ht0 d') \<noteq> 0"
  by (auto simp: dictRehash_def dest: dictRehashLoop_out_used split: if_splits bind_splits)

lemma dictRehashMany_ok:
  assumes "dict_ok d" "int n * 10 \<le> INT32_MAX"
  shows "\<exists>d'. dictRehashMany m n d = Some d' \<and> dict_ok d' \<and> dict_type d' = dict_type d \<and>
    mset (dict_entries d') = mset (dict_entries d) \<and> (\<not> dictIsRehashing d \<longrightarrow> d' = d) \<and>
    (dictIsRehashing d' \<longrightarrow> 0 < m \<longrightarrow> ht_used (ht0 d') \<noteq> 0) \<and>
    (dictIsRehashing d' \<longrightarrow> 0 < n \<longrightarrow> rehashidx d + int m \<le> rehashidx d' \<and>
       length (ht_table (ht0 d')) = length (ht_table (ht0 d)))"
  using assms(1)
proof (induction m arbitrary: d)
  case (Suc m)
  obtain d1 more where d1: "dictRehash d n = Some (d1, more)" "dict_ok d1"
    "mset (dict_entries d1) = mset (dict_entries d)" "dict_type d1 = dict_type d"
    "more \<longleftrightarrow> dictIsRehashing d1"
    "dictIsRehashing d1 \<longrightarrow> 0 < n \<longrightarrow> rehashidx d < rehashidx d1 \<and>
       length (ht_table (ht0 d1)) = length (ht_table (ht0 d))"
    using dictRehash_correct [OF Suc.prems assms(2)] by blast
  have stay: "\<not> dictIsRehashing d \<longrightarrow> d1 = d" using d1(1) by (auto simp: dictRehash_def split: if_splits)
  obtain d' where d': "dictRehashMany m n d1 = Some d'" "dict_ok d'" "dict_type d' = dict_type d1"
    "mset (dict_entries d') = mset (dict_entries d1)" "\<not> dictIsRehashing d1 \<longrightarrow> d' = d1"
    "dictIsRehashing d' \<longrightarrow> 0 < m \<longrightarrow> ht_used (ht0 d') \<noteq> 0"
    "dictIsRehashing d' \<longrightarrow> 0 < n \<longrightarrow> rehashidx d1 + int m \<le> rehashidx d' \<and>
       length (ht_table (ht0 d')) = length (ht_table (ht0 d1))"
    using Suc.IH [OF d1(2)] by blast
  have "dictRehashMany (Suc m) n d = Some d'" using d1(1) d'(1) by simp
  moreover have "rehashidx d + int (Suc m) \<le> rehashidx d' \<and>
      length (ht_table (ht0 d')) = length (ht_table (ht0 d))" if "dictIsRehashing d'" "0 < n"
  proof -
    have "dictIsRehashing d1" using d'(5) that(1) by auto
    with d1(6) d'(7) that show ?thesis by auto
  qed
  moreover have "ht_used (ht0 d') \<noteq> 0" if "dictIsRehashing d'"
    using d'(1,5,6) d1(1,5) dictRehash_more_used that by (cases m) auto
  ultimately show ?case using d'(2-5) d1(3,4) stay by auto
qed simp

section \<open>A hash table is a map\<close>

text \<open>The operations a client issues, the table they are issued to and the map they denote.\<close>

datatype ('k, 'v) dict_op =
    Op_add 'k 'v | Op_replace 'k 'v | Op_delete 'k | Op_fetch 'k | Op_rehash nat | Op_resize bool | Op_empty

datatype 'v dict_reply = R_status dict_status | R_fresh bool | R_value "'v option" | R_none

text \<open>A rehash asks for at most as many buckets as its visit counter of type \<^verbatim>\<open>int\<close> allows.\<close>

fun op_valid :: "('k, 'v) dict_op \<Rightarrow> bool" where
  "op_valid (Op_rehash n) \<longleftrightarrow> int n * 10 \<le> INT32_MAX"
| "op_valid _ \<longleftrightarrow> True"

definition dict_step ::
    "bool \<Rightarrow> ('k, 'v) dict_op \<Rightarrow> ('k, 'v) dict \<Rightarrow> (('k, 'v) dict \<times> 'v dict_reply) option" where
  "dict_step b op d = (case op of
     Op_add k v \<Rightarrow> map_option (apsnd R_status) (dictAdd b d k v)
   | Op_replace k v \<Rightarrow> map_option (apsnd R_fresh) (dictReplace b d k v)
   | Op_delete k \<Rightarrow> map_option (apsnd R_status) (dictDelete d k)
   | Op_fetch k \<Rightarrow> map_option (apsnd R_value) (dictFetchValue d k)
   | Op_rehash n \<Rightarrow> map_option (apsnd (\<lambda>_. R_none)) (dictRehash d n)
   | Op_resize c \<Rightarrow> Some (fst (dictResize c d), R_none)
   | Op_empty \<Rightarrow> Some (dictEmpty d, R_none))"

definition map_step ::
    "('k, 'v) dictType \<Rightarrow> ('k, 'v) dict_op \<Rightarrow> ('k \<Rightarrow> 'v option) \<Rightarrow> ('k \<Rightarrow> 'v option) \<times> 'v dict_reply" where
  "map_step ty op m = (case op of
     Op_add k v \<Rightarrow>
       if m k = None then (\<lambda>x. if key_eq ty x k then Some (dup_val ty v) else m x, R_status DICT_OK)
       else (m, R_status DICT_ERR)
   | Op_replace k v \<Rightarrow>
       (\<lambda>x. if key_eq ty x k then Some (dup_val ty v) else m x, R_fresh (m k = None))
   | Op_delete k \<Rightarrow>
       (\<lambda>x. if key_eq ty x k then None else m x, R_status (if m k = None then DICT_ERR else DICT_OK))
   | Op_fetch k \<Rightarrow> (m, R_value (m k))
   | Op_rehash n \<Rightarrow> (m, R_none)
   | Op_resize c \<Rightarrow> (m, R_none)
   | Op_empty \<Rightarrow> (\<lambda>x. None, R_none))"

text \<open>The map a table stands for, and the tables all of whose values have been set.\<close>

definition dict_map :: "('k, 'v) dict \<Rightarrow> 'k \<Rightarrow> 'v option" where
  "dict_map d k = Option.bind (dict_lookup d k) de_v"

definition dict_set :: "('k, 'v) dict \<Rightarrow> bool" where
  "dict_set d \<longleftrightarrow> (\<forall>e \<in> set (dict_entries d). de_v e \<noteq> None)"

fun op_cost :: "('k, 'v) dict_op \<Rightarrow> nat" where
  "op_cost (Op_add k v) = 1"
| "op_cost (Op_replace k v) = 1"
| "op_cost _ = 0"

lemma dict_set_subset:
  assumes "mset (dict_entries d') \<subseteq># add_mset e (mset (dict_entries d))" "de_v e \<noteq> None" "dict_set d"
  shows "dict_set d'" "length (dict_entries d') \<le> Suc (length (dict_entries d))"
proof -
  have "set (dict_entries d') \<subseteq> insert e (set (dict_entries d))"
    using set_mset_mono [OF assms(1)] by simp
  with assms(2,3) show "dict_set d'" by (auto simp: dict_set_def)
  show "length (dict_entries d') \<le> Suc (length (dict_entries d))"
    using size_mset_mono [OF assms(1)] by simp
qed

lemma dict_lookup_in: "dict_lookup d k = Some e \<Longrightarrow> e \<in> set (dict_entries d)"
  by (auto simp: dict_lookup_def find_Some_iff)

lemma dict_map_None: "dict_set d \<Longrightarrow> dict_map d k = None \<longleftrightarrow> dict_lookup d k = None"
  by (cases "dict_lookup d k") (auto simp: dict_map_def dict_set_def dest: dict_lookup_in)

context lawful_dictType
begin

lemma dict_map_mset:
  assumes "dict_ok d" "dict_type d = ty" "dict_type d' = ty" "mset (dict_entries d') = mset (dict_entries d)"
  shows "dict_map d' = dict_map d"
  using dict_lookup_mset [OF assms(2,3) _ assms(4)] assms(1) by (intro ext) (simp add: dict_map_def dict_ok_def)

lemma dict_add_step:
  assumes "dict_ok d" "dict_type d = ty" "dict_set d" "length (dict_entries d) < 2 ^ 60"
  shows "\<exists>d' r. dict_step b (Op_add k v) d = Some (d', r) \<and> dict_ok d' \<and> dict_type d' = ty \<and> dict_set d' \<and>
    length (dict_entries d') \<le> Suc (length (dict_entries d)) \<and>
    map_step ty (Op_add k v) (dict_map d) = (dict_map d', r)"
proof -
  define e where "e = \<lparr>de_key = dup_key ty k, de_v = Some (dup_val ty v)\<rparr>"
  obtain d' st where d': "dictAdd b d k v = Some (d', st)" "dict_ok d'" "dict_type d' = ty"
    "if dict_lookup d k = None then st = DICT_OK \<and> mset (dict_entries d') = add_mset e (mset (dict_entries d))
     else st = DICT_ERR \<and> mset (dict_entries d') = mset (dict_entries d)"
    using dictAdd_correct [OF assms(1,2,4), of b k v] unfolding e_def by blast
  have "mset (dict_entries d') \<subseteq># add_mset e (mset (dict_entries d))"
    using d'(4) by (auto split: if_splits)
  note sub = dict_set_subset [OF this _ assms(3)]
  have "keyMatches d x e \<longleftrightarrow> key_eq ty x k" for x
    using assms(2) key_eq_cong_right [OF key_eq_dup] by (simp add: keyMatches_key_eq e_def)
  then have map: "dict_map d' = (\<lambda>x. if key_eq ty x k then Some (dup_val ty v) else dict_map d x)"
    if "dict_lookup d k = None"
    using lookup_after_add [OF d'(2,3) assms(1,2), of e] d'(4) that by (auto simp: dict_map_def e_def)
  show ?thesis
    using d' sub map dict_map_None [OF assms(3), of k] dict_map_mset [OF assms(1,2) d'(3)]
    by (auto simp: dict_step_def map_step_def e_def)
qed

lemma dict_replace_step:
  assumes "dict_ok d" "dict_type d = ty" "dict_set d" "length (dict_entries d) < 2 ^ 60"
  shows "\<exists>d' r. dict_step b (Op_replace k v) d = Some (d', r) \<and> dict_ok d' \<and> dict_type d' = ty \<and> dict_set d' \<and>
    length (dict_entries d') \<le> Suc (length (dict_entries d)) \<and>
    map_step ty (Op_replace k v) (dict_map d) = (dict_map d', r)"
proof -
  obtain d' fresh e' where d': "dictReplace b d k v = Some (d', fresh)" "dict_ok d'" "dict_type d' = ty"
    "fresh \<longleftrightarrow> dict_lookup d k = None" "de_v e' = Some (dup_val ty v)"
    "mset (dict_entries d') \<subseteq># add_mset e' (mset (dict_entries d))"
    "\<forall>x. dict_lookup d' x = (if key_eq ty x k
        then Some (case dict_lookup d k of
               None \<Rightarrow> \<lparr>de_key = dup_key ty k, de_v = Some (dup_val ty v)\<rparr>
             | Some e \<Rightarrow> e\<lparr>de_v := Some (dup_val ty v)\<rparr>)
        else dict_lookup d x)"
    using dictReplace_correct [OF assms(1,2,4), of b k v] by blast
  have "dict_map d' = (\<lambda>x. if key_eq ty x k then Some (dup_val ty v) else dict_map d x)"
    using d'(7) by (auto simp: dict_map_def split: option.splits)
  with d' dict_set_subset [OF d'(6) _ assms(3)] dict_map_None [OF assms(3), of k] show ?thesis
    by (auto simp: dict_step_def map_step_def)
qed

lemma dict_delete_step:
  assumes "dict_ok d" "dict_type d = ty" "dict_set d"
  shows "\<exists>d' r. dict_step b (Op_delete k) d = Some (d', r) \<and> dict_ok d' \<and> dict_type d' = ty \<and> dict_set d' \<and>
    length (dict_entries d') \<le> length (dict_entries d) \<and>
    map_step ty (Op_delete k) (dict_map d) = (dict_map d', r)"
proof -
  obtain d' where d': "dictGenericDelete d k = Some (d', dict_lookup d k)" "dict_ok d'" "dict_type d' = ty"
    "case dict_lookup d k of None \<Rightarrow> mset (dict_entries d') = mset (dict_entries d)
     | Some e \<Rightarrow> mset (dict_entries d) = add_mset e (mset (dict_entries d'))"
    using dictGenericDelete_correct [OF assms(1,2), of k] by blast
  have sub: "mset (dict_entries d') \<subseteq># mset (dict_entries d)"
    using d'(4) by (auto split: option.splits)
  have set: "dict_set d'" "length (dict_entries d') \<le> length (dict_entries d)"
    using set_mset_mono [OF sub] size_mset_mono [OF sub] assms(3) by (auto simp: dict_set_def)
  have "dict_map d' = (\<lambda>x. if key_eq ty x k then None else dict_map d x)"
  proof (cases "dict_lookup d k")
    case None
    then have "key_eq ty x k \<longrightarrow> dict_lookup d x = None" for x
      using assms(2) key_eq_cong_right key_sym key_trans unfolding dict_lookup_None keyMatches_key_eq by blast
    with None d'(4) dict_map_mset [OF assms(1,2) d'(3)] show ?thesis by (auto simp: dict_map_def)
  next
    case (Some e)
    then have "key_eq ty k (de_key e)"
      using dict_lookup_Some [OF assms(2)] assms(1,2) by (simp add: dict_ok_def keyMatches_key_eq)
    then have "keyMatches d x e \<longleftrightarrow> key_eq ty x k" for x
      using assms(2) key_eq_cong_right by (simp add: keyMatches_key_eq)
    with lookup_after_remove [OF d'(2,3) assms(1,2), of e] d'(4) Some show ?thesis
      by (auto simp: dict_map_def)
  qed
  with d' set dict_map_None [OF assms(3), of k] show ?thesis
    by (auto simp: dict_step_def map_step_def dictDelete_def)
qed

lemma dict_quiet_step:
  assumes "dict_ok d" "dict_type d = ty" "dict_set d" "op_valid op"
    and "op = Op_fetch k \<or> op = Op_rehash n \<or> op = Op_resize c \<or> op = Op_empty"
  shows "\<exists>d' r. dict_step b op d = Some (d', r) \<and> dict_ok d' \<and> dict_type d' = ty \<and> dict_set d' \<and>
    length (dict_entries d') \<le> length (dict_entries d) \<and> map_step ty op (dict_map d) = (dict_map d', r)"
proof -
  have quiet: "dict_set d' \<and> length (dict_entries d') \<le> length (dict_entries d) \<and> dict_map d' = dict_map d"
    if "dict_type d' = ty" "mset (dict_entries d') = mset (dict_entries d)" for d'
    using dict_map_mset [OF assms(1,2) that] mset_eq_setD [OF that(2)] mset_eq_length [OF that(2)] assms(3)
    by (simp add: dict_set_def)
  obtain d1 st where resize: "dictResize c d = (d1, st)" by fastforce
  from assms(5) show ?thesis
  proof (elim disjE)
    assume op: "op = Op_fetch k"
    obtain d' where d': "dictFetchValue d k = Some (d', dict_map d k)" "dict_ok d'" "dict_type d' = ty"
      "mset (dict_entries d') = mset (dict_entries d)"
      using dictFetchValue_correct [OF assms(1,2), of k] unfolding dict_map_def by blast
    from quiet [OF d'(3,4)] d'(1-3) show ?thesis by (simp add: op dict_step_def map_step_def)
  next
    assume op: "op = Op_rehash n"
    obtain d' more where d': "dictRehash d n = Some (d', more)" "dict_ok d'" "dict_type d' = ty"
      "mset (dict_entries d') = mset (dict_entries d)"
      using dictRehash_correct [OF assms(1), of n] assms(2,4) op by auto
    from quiet [OF d'(3,4)] d'(1-3) show ?thesis by (simp add: op dict_step_def map_step_def)
  next
    assume op: "op = Op_resize c"
    with dictResize_ok [OF assms(1) resize] quiet [of d1] resize assms(2) show ?thesis
      by (auto simp: dict_step_def map_step_def)
  next
    assume op: "op = Op_empty"
    with dictEmpty_correct [of d] assms(2) show ?thesis
      by (simp add: dict_step_def map_step_def dict_set_def dict_map_def dict_lookup_def fun_eq_iff)
        (simp add: dictEmpty_def)
  qed
qed

end

text \<open>The hash table keeps the contract of a map.\<close>

sublocale lawful_dictType \<subseteq> dmap: data_refinement
    "\<lambda>d. dict_ok d \<and> dict_type d = ty \<and> dict_set d" dict_map op_valid
    "\<lambda>d. length (dict_entries d)" op_cost "2 ^ 60" "dict_step b" "map_step ty" for b
proof unfold_locales
  fix d :: "('k, 'v) dict" and op :: "('k, 'v) dict_op"
  assume d: "dict_ok d \<and> dict_type d = ty \<and> dict_set d" and op: "op_valid op"
    and len: "length (dict_entries d) + op_cost op \<le> 2 ^ 60"
  show "\<exists>d' r. dict_step b op d = Some (d', r) \<and> (dict_ok d' \<and> dict_type d' = ty \<and> dict_set d') \<and>
      length (dict_entries d') \<le> length (dict_entries d) + op_cost op \<and>
      map_step ty op (dict_map d) = (dict_map d', r)"
  proof (cases op)
    case (Op_add k v)
    with d len dict_add_step [of d b k v] show ?thesis by simp
  next
    case (Op_replace k v)
    with d len dict_replace_step [of d b k v] show ?thesis by simp
  next
    case (Op_delete k)
    with d dict_delete_step [of d b k] show ?thesis by simp
  qed (use d op dict_quiet_step [of d op _ _ _ b] in simp_all)
qed

context lawful_dictType
begin

lemma dict_run_refines:
  assumes "dict_ok d" "dict_type d = ty" "dict_set d" "list_all op_valid ops"
    and "length (dict_entries d) + sum_list (map op_cost ops) \<le> 2 ^ 60"
  shows "\<exists>d' rs. run_concrete (dict_step b) ops d = Some (d', rs) \<and>
    (dict_ok d' \<and> dict_type d' = ty \<and> dict_set d') \<and>
    run_abstract (map_step ty) ops (dict_map d) = (dict_map d', rs)"
  using assms by (intro dmap.run_refines) simp_all

end

section \<open>Properties\<close>

text \<open>A table keyed by numbers that hash to themselves, for the instances below.\<close>

definition ex_type :: "(nat, nat) dictType" where
  "ex_type = \<lparr>hashFunction = of_nat, keyDup = None, valDup = None, keyCompare = None, expandAllowed = None\<rparr>"

lemma ex_type_lawful: "lawful_dictType ex_type"
  by unfold_locales (auto simp: ex_type_def key_eq_def)

lemma dictCreate_correct:
  "dict_ok (dictCreate ty)" "dict_type (dictCreate ty) = ty" "dict_entries (dictCreate ty) = []"
  "dict_set (dictCreate ty)"
  by (simp_all add: dict_ok_def dictCreate_def dictIsRehashing_def dict_entries_def dict_set_def
      ht_entries_def priv_dictReset_def keys_distinct_def)

text \<open>The same table in the middle of growing from four to eight buckets.\<close>

definition ex_dict :: "(nat, nat) dict" where
  "ex_dict =
     \<lparr>dict_type = ex_type,
      ht0 = \<lparr>ht_table = [[], [\<lparr>de_key = 1, de_v = Some 10\<rparr>], [], [\<lparr>de_key = 7, de_v = Some 70\<rparr>]],
             ht_size = 4, ht_sizemask = 3, ht_used = 2\<rparr>,
      ht1 = \<lparr>ht_table = [[], [], [], [], [\<lparr>de_key = 4, de_v = Some 40\<rparr>], [], [], []],
             ht_size = 8, ht_sizemask = 7, ht_used = 1\<rparr>,
      rehashidx = 1, pauserehash = 0\<rparr>"

lemma ex_dict_ht0: "ht_ok (dictHashKey ex_dict) (ht0 ex_dict)"
proof -
  have "\<exists>k < 61. (4 :: uint64) = 2 ^ k \<and> 3 = (mask k :: uint64) \<and> (4 :: nat) = 2 ^ k"
    by (rule exI [of _ 2]) (simp add: mask_eq_exp_minus_1)
  moreover have "bucketIndex (ht0 ex_dict) 1 = 1" "bucketIndex (ht0 ex_dict) 7 = 3"
    by (simp_all add: bucketIndex_def ex_dict_def)
  ultimately show ?thesis
    by (auto simp: ht_ok_def ex_dict_def ht_entries_def dictHashKey_def ex_type_def less_Suc_eq)
qed

lemma ex_dict_ht1: "ht_ok (dictHashKey ex_dict) (ht1 ex_dict)"
proof -
  have "\<exists>k < 61. (8 :: uint64) = 2 ^ k \<and> 7 = (mask k :: uint64) \<and> (8 :: nat) = 2 ^ k"
    by (rule exI [of _ 3]) (simp add: mask_eq_exp_minus_1)
  moreover have "bucketIndex (ht1 ex_dict) 4 = 4"
    by (simp add: bucketIndex_def ex_dict_def)
  ultimately show ?thesis
    by (auto simp: ht_ok_def ex_dict_def ht_entries_def dictHashKey_def ex_type_def less_Suc_eq)
qed

lemma ex_dict_ok: "dict_ok ex_dict" "dict_type ex_dict = ex_type" "dict_set ex_dict"
    "length (dict_entries ex_dict) = 3"
proof -
  have "keys_distinct ex_dict"
    by (simp add: keys_distinct_def dict_entries_def ht_entries_def ex_dict_def keyMatches_def
        dictCompareKeys_def ex_type_def)
  with ex_dict_ht0 ex_dict_ht1 show "dict_ok ex_dict"
    by (simp add: dict_ok_def) (simp add: ex_dict_def dict_entries_def ht_entries_def dictIsRehashing_def)
  show "dict_type ex_dict = ex_type" "dict_set ex_dict" "length (dict_entries ex_dict) = 3"
    by (simp_all add: ex_dict_def dict_set_def dict_entries_def ht_entries_def)
qed

text \<open>
  C1: any sequence of additions, replacements, deletions, lookups, rehash steps, resizes and
  clears on a hash table returns, and its replies are those of the same sequence on the map the
  table stands for, no matter where the table is in its incremental rehash.  The buckets asked for
  in a rehash step are limited to a tenth of the range of \<^verbatim>\<open>int\<close>, beyond which the visit counter
  overflows, and the entries to $2^{60}$.
\<close>

theorem dict_runs_as_map:
  assumes "lawful_dictType ty" "dict_ok d" "dict_type d = ty" "dict_set d" "list_all op_valid ops"
    and "length (dict_entries d) + sum_list (map op_cost ops) \<le> 2 ^ 60"
  shows "\<exists>d' rs. run_concrete (dict_step b) ops d = Some (d', rs) \<and>
    (dict_ok d' \<and> dict_type d' = ty \<and> dict_set d') \<and>
    run_abstract (map_step ty) ops (dict_map d) = (dict_map d', rs)"
  using assms by (rule lawful_dictType.dict_run_refines)

theorem dict_runs_as_map_witness:
  "\<exists>d' rs. run_concrete (dict_step True) [Op_add 5 1, Op_rehash 100, Op_add 9 2, Op_delete 5, Op_fetch 9] ex_dict
      = Some (d', rs) \<and> (dict_ok d' \<and> dict_type d' = ex_type \<and> dict_set d') \<and>
    run_abstract (map_step ex_type) [Op_add 5 1, Op_rehash 100, Op_add 9 2, Op_delete 5, Op_fetch 9]
      (dict_map ex_dict) = (dict_map d', rs)"
  by (rule dict_runs_as_map [OF ex_type_lawful ex_dict_ok(1-3)]) (simp_all add: ex_dict_ok(4) INT32_MAX_def)

text \<open>
  C20: deleting a key returns the entry it denoted, removes exactly that entry from the table
  and leaves every other key's entry as it was.
\<close>

theorem dictDelete_removes:
  assumes "lawful_dictType ty" "dict_ok d" "dict_type d = ty"
  shows "\<exists>d'. dictUnlink d key = Some (d', dict_lookup d key) \<and> dict_ok d' \<and>
    dictDelete d key = Some (d', if dict_lookup d key = None then DICT_ERR else DICT_OK) \<and>
    mset (dict_entries d) = mset (dict_entries d') + (case dict_lookup d key of None \<Rightarrow> {#} | Some e \<Rightarrow> {#e#})"
proof -
  obtain d' where "dictGenericDelete d key = Some (d', dict_lookup d key)" "dict_ok d'"
    "case dict_lookup d key of None \<Rightarrow> mset (dict_entries d') = mset (dict_entries d)
     | Some e \<Rightarrow> mset (dict_entries d) = add_mset e (mset (dict_entries d'))"
    using lawful_dictType.dictGenericDelete_correct [OF assms, of key] by blast
  then show ?thesis by (auto simp: dictUnlink_def dictDelete_def split: option.splits)
qed

theorem dictDelete_removes_witness:
  "\<exists>d'. dictUnlink ex_dict 7 = Some (d', dict_lookup ex_dict 7) \<and> dict_ok d' \<and>
    dictDelete ex_dict 7 =
      Some (d', if dict_lookup ex_dict 7 = None then DICT_ERR else DICT_OK) \<and>
    mset (dict_entries ex_dict) = mset (dict_entries d') +
      (case dict_lookup ex_dict 7 of None \<Rightarrow> {#} | Some e \<Rightarrow> {#e#})"
  by (rule dictDelete_removes [OF ex_type_lawful ex_dict_ok(1,2)])

text \<open>
  C18: an incremental rehash ends: as many steps as the old table has buckets move every entry,
  whatever the number of buckets per step (at least one, and at most a tenth of the range of
  \<^verbatim>\<open>int\<close>, where the visit counter overflows), and the table then holds the same entries.
\<close>

theorem dictRehash_finishes:
  assumes "dict_ok d" "0 < n" "int n * 10 \<le> INT32_MAX" "length (ht_table (ht0 d)) \<le> m"
  shows "\<exists>d'. dictRehashMany m n d = Some d' \<and> \<not> dictIsRehashing d' \<and> dict_ok d' \<and>
    mset (dict_entries d') = mset (dict_entries d)"
proof -
  obtain d' where d': "dictRehashMany m n d = Some d'" "dict_ok d'"
    "mset (dict_entries d') = mset (dict_entries d)" "\<not> dictIsRehashing d \<longrightarrow> d' = d"
    "dictIsRehashing d' \<longrightarrow> 0 < m \<longrightarrow> ht_used (ht0 d') \<noteq> 0"
    "dictIsRehashing d' \<longrightarrow> 0 < n \<longrightarrow> rehashidx d + int m \<le> rehashidx d' \<and>
       length (ht_table (ht0 d')) = length (ht_table (ht0 d))"
    using dictRehashMany_ok [OF assms(1,3), of m] by blast
  have "\<not> dictIsRehashing d'"
  proof
    assume re: "dictIsRehashing d'"
    have d: "dictIsRehashing d" "rehashidx d + int m \<le> rehashidx d'"
      "length (ht_table (ht0 d')) = length (ht_table (ht0 d))"
      using d'(4,6) assms(2) re by auto
    have tables: "ht_ok (dictHashKey d) (ht0 d)" "0 \<le> rehashidx d" "ht_ok (dictHashKey d') (ht0 d')"
      "rehashidx d' \<le> int (length (ht_table (ht0 d')))" "\<forall>i < nat (rehashidx d'). ht_table (ht0 d') ! i = []"
      using assms(1) d'(2) d(1) re by (simp_all add: dict_ok_def)
    have "0 < length (ht_table (ht0 d))" using bucketIndex_less [OF tables(1)] by (rule order.strict_trans1 [OF le0])
    then have "0 < m" "nat (rehashidx d') = length (ht_table (ht0 d'))"
      using assms(4) d tables(2,4) by linarith+
    moreover from this have "ht_entries (ht0 d') = []"
      using tables(5) by (auto simp: ht_entries_def in_set_conv_nth)
    ultimately show False
      using d'(5) re tables(3) by (simp add: ht_ok_def flip: unat_eq_zero)
  qed
  with d' show ?thesis by blast
qed

theorem dictRehash_finishes_witness:
  "\<exists>d'. dictRehashMany 4 1 ex_dict = Some d' \<and> \<not> dictIsRehashing d' \<and> dict_ok d' \<and>
    mset (dict_entries d') = mset (dict_entries ex_dict)"
  using dictRehash_finishes [OF ex_dict_ok(1), of 1 4] by (simp add: ex_dict_def INT32_MAX_def)

end
