(* ===== verification/Dict_Scan.thy ===== *)
theory Dict_Scan
  imports Dict_Ops
begin

unbundle bit_operations_syntax

text \<open>
  The cursor based iteration \<^verbatim>\<open>dictScan\<close> of \<^verbatim>\<open>src/redis/redis-6.2.6-annotation/src/dict.c\<close>.
  The cursor is incremented from its most significant masked bit downwards, by reversing
  it, adding one and reversing it back.  Reading cursors and hashes in reverse makes a bucket
  of a table of any size an interval, so a call covers an interval of reversed hashes that
  starts at the cursor and ends at the new one.  The entries a call hands to the callback are
  returned as a list; the callback does not change the table.
\<close>

section \<open>Bit reversal\<close>

function revLoop :: "nat \<Rightarrow> uint64 \<Rightarrow> uint64 \<Rightarrow> uint64" where
  "revLoop s msk v =
     (let s' = s div 2 in
      if s' > 0 then
        let msk' = msk XOR push_bit s' msk in
        revLoop s' msk' ((drop_bit s' v AND msk') OR (push_bit s' v AND NOT msk'))
      else v)"
  by pat_completeness auto

termination by (relation "measure (\<lambda>(s, _, _). s)") auto

declare revLoop.simps [simp del]

definition dict_rev :: "uint64 \<Rightarrow> uint64" where
  "dict_rev v = revLoop 64 (- 1) v"

section \<open>The scan\<close>

text \<open>The four assignments that advance the cursor.\<close>

definition scanNext :: "uint64 \<Rightarrow> uint64 \<Rightarrow> uint64" where
  "scanNext m v =
     (let v1 = v OR NOT m; v2 = dict_rev v1; v3 = v2 + 1 in dict_rev v3)"

partial_function (option) dictScanLoop ::
    "('k, 'v) dictht \<Rightarrow> uint64 \<Rightarrow> uint64 \<Rightarrow> uint64 \<Rightarrow> (('k, 'v) dictEntry list \<times> uint64) option" where
  "dictScanLoop t1 m0 m1 v =
     do {
       c \<leftarrow> bucket t1 (unat (v AND m1));
       let v' = scanNext m1 v;
       if v' AND (m0 XOR m1) \<noteq> 0 then
         do { (es, v'') \<leftarrow> dictScanLoop t1 m0 m1 v'; Some (c @ es, v'') }
       else Some (c, v')
     }"

lemma dictScanLoop_code [code]:
  "dictScanLoop t1 m0 m1 v =
     (case bucket t1 (unat (v AND m1)) of
        None \<Rightarrow> None
      | Some c \<Rightarrow>
          if scanNext m1 v AND (m0 XOR m1) \<noteq> 0
          then map_option (\<lambda>(es, v''). (c @ es, v'')) (dictScanLoop t1 m0 m1 (scanNext m1 v))
          else Some (c, scanNext m1 v))"
  by (subst dictScanLoop.simps) (auto simp: Let_def map_option_case split: option.splits bind_splits)

definition dictScan ::
    "('k, 'v) dict \<Rightarrow> uint64 \<Rightarrow> (('k, 'v) dict \<times> ('k, 'v) dictEntry list \<times> uint64) option" where
  "dictScan d v =
     (if dictSize d = 0 then Some (d, [], 0)
      else let d1 = dictPauseRehashing d in
        if \<not> dictIsRehashing d1 then
          (let t0 = ht0 d1; m0 = ht_sizemask t0 in
           do {
             c \<leftarrow> bucket t0 (unat (v AND m0));
             Some (dictResumeRehashing d1, c, scanNext m0 v)
           })
        else
          (let (t0, t1) = (if ht_size (ht0 d1) > ht_size (ht1 d1) then (ht1 d1, ht0 d1) else (ht0 d1, ht1 d1));
               m0 = ht_sizemask t0; m1 = ht_sizemask t1 in
           do {
             c \<leftarrow> bucket t0 (unat (v AND m0));
             (es, v') \<leftarrow> dictScanLoop t1 m0 m1 v;
             Some (dictResumeRehashing d1, c @ es, v')
           }))"

section \<open>Reversal reverses\<close>

definition swap_at :: "nat \<Rightarrow> nat \<Rightarrow> nat" where
  "swap_at s n = (if even (n div s) then n + s else n - s)"

lemma rev_step:
  fixes v m :: uint64
  assumes "\<forall>n < 64. bit m n \<longleftrightarrow> even (n div s)" "0 < s" "n < 64"
  shows "bit ((drop_bit s v AND m) OR (push_bit s v AND NOT m)) n = bit v (swap_at s n)"
proof (cases "even (n div s)")
  case True
  with assms show ?thesis by (simp add: bit_simps swap_at_def add.commute)
next
  case False
  then have "s \<le> n" by (metis div_less even_zero not_le)
  with False assms show ?thesis by (simp add: bit_simps swap_at_def)
qed

definition rev_masks :: "(nat \<times> uint64) list" where
  "rev_masks = [(32, 0x00000000FFFFFFFF), (16, 0x0000FFFF0000FFFF), (8, 0x00FF00FF00FF00FF),
     (4, 0x0F0F0F0F0F0F0F0F), (2, 0x3333333333333333), (1, 0x5555555555555555)]"

lemma rev_masks_bits:
  "list_all (\<lambda>(s, m). list_all (\<lambda>n. bit m n \<longleftrightarrow> even (n div s)) [0..<64]) rev_masks"
  by code_simp

lemma rev_mask_bit: "(s, m) \<in> set rev_masks \<Longrightarrow> \<forall>n < 64. bit m n \<longleftrightarrow> even (n div s)"
  using rev_masks_bits by (auto simp: list_all_iff)

text \<open>Swapping the blocks of sizes 1, 2, and so on mirrors every block of twice the last size.\<close>

definition mirror :: "nat \<Rightarrow> nat \<Rightarrow> nat" where
  "mirror w n = n div w * w + (w - 1 - n mod w)"

lemma swap_mirror:
  assumes "0 < s"
  shows "swap_at s (mirror s n) = mirror (2 * s) n"
proof -
  define q r where "q = n div s" and "r = n mod s"
  have r: "r < s" using assms by (simp add: r_def)
  define t where "t = s - 1 - r"
  have "t < s" using r by (simp add: t_def)
  then have "(q * s + t) div s = q" by simp
  then have div: "mirror s n div s = q" by (simp add: mirror_def q_def r_def t_def)
  have double: "n div (2 * s) = q div 2" "n mod (2 * s) = s * (q mod 2) + r"
    using div_mult2_eq [of n s 2] mod_mult2_eq [of n s 2] by (simp_all add: q_def r_def mult.commute)
  show ?thesis
  proof (cases "even q")
    case True
    then obtain k where "q = 2 * k" by blast
    with r div double show ?thesis
      by (simp add: swap_at_def mirror_def q_def [symmetric] r_def [symmetric])
  next
    case False
    then obtain k where "q = 2 * k + 1" using oddE by blast
    with r div double show ?thesis
      by (simp add: swap_at_def mirror_def q_def [symmetric] r_def [symmetric])
  qed
qed

lemma mirror_less:
  assumes "0 < w" "w dvd N" "n < N"
  shows "mirror w n < N"
proof -
  have "n div w < N div w" using assms by (simp add: div_less_iff_less_mult)
  then have "Suc (n div w) * w \<le> N div w * w" by (intro mult_le_mono1) simp
  then have "n div w * w + w \<le> N" using assms(2) by simp
  moreover have "w - 1 - n mod w < w" using assms(1) by linarith
  ultimately show ?thesis unfolding mirror_def by linarith
qed

definition revStep :: "nat \<Rightarrow> uint64 \<Rightarrow> uint64 \<Rightarrow> uint64" where
  "revStep s m v = (drop_bit s v AND m) OR (push_bit s v AND NOT m)"

lemma rev_unfolds:
  "revLoop 64 (- 1) v = revLoop 32 0x00000000FFFFFFFF (revStep 32 0x00000000FFFFFFFF v)"
  "revLoop 32 0x00000000FFFFFFFF v = revLoop 16 0x0000FFFF0000FFFF (revStep 16 0x0000FFFF0000FFFF v)"
  "revLoop 16 0x0000FFFF0000FFFF v = revLoop 8 0x00FF00FF00FF00FF (revStep 8 0x00FF00FF00FF00FF v)"
  "revLoop 8 0x00FF00FF00FF00FF v = revLoop 4 0x0F0F0F0F0F0F0F0F (revStep 4 0x0F0F0F0F0F0F0F0F v)"
  "revLoop 4 0x0F0F0F0F0F0F0F0F v = revLoop 2 0x3333333333333333 (revStep 2 0x3333333333333333 v)"
  "revLoop 2 0x3333333333333333 v = revLoop 1 0x5555555555555555 (revStep 1 0x5555555555555555 v)"
  "revLoop 1 0x5555555555555555 v = v"
proof -
  have step: "revLoop s m v = revLoop s' m' (revStep s' m' v)"
    if "s div 2 = s'" "0 < s'" "m XOR push_bit s' m = m'" for s s' m m' v
    using that by (subst revLoop.simps) (simp add: revStep_def Let_def)
  show "revLoop 64 (- 1) v = revLoop 32 0x00000000FFFFFFFF (revStep 32 0x00000000FFFFFFFF v)"
    by (rule step) (simp_all add: mask_eq_exp_minus_1)
  show "revLoop 32 0x00000000FFFFFFFF v = revLoop 16 0x0000FFFF0000FFFF (revStep 16 0x0000FFFF0000FFFF v)"
    by (rule step) simp_all
  show "revLoop 16 0x0000FFFF0000FFFF v = revLoop 8 0x00FF00FF00FF00FF (revStep 8 0x00FF00FF00FF00FF v)"
    by (rule step) simp_all
  show "revLoop 8 0x00FF00FF00FF00FF v = revLoop 4 0x0F0F0F0F0F0F0F0F (revStep 4 0x0F0F0F0F0F0F0F0F v)"
    by (rule step) simp_all
  show "revLoop 4 0x0F0F0F0F0F0F0F0F v = revLoop 2 0x3333333333333333 (revStep 2 0x3333333333333333 v)"
    by (rule step) simp_all
  show "revLoop 2 0x3333333333333333 v = revLoop 1 0x5555555555555555 (revStep 1 0x5555555555555555 v)"
    by (rule step) simp_all
  show "revLoop 1 0x5555555555555555 v = v" by (subst revLoop.simps) simp
qed

lemma dict_rev_unfold:
  "dict_rev v = revStep 1 0x5555555555555555 (revStep 2 0x3333333333333333 (revStep 4 0x0F0F0F0F0F0F0F0F
     (revStep 8 0x00FF00FF00FF00FF (revStep 16 0x0000FFFF0000FFFF (revStep 32 0x00000000FFFFFFFF v)))))"
  by (simp only: dict_rev_def rev_unfolds)

lemma swap_mirrors:
  assumes "n < 64"
  shows "swap_at 1 n = mirror 2 n" "swap_at 2 (mirror 2 n) = mirror 4 n" "swap_at 4 (mirror 4 n) = mirror 8 n"
    "swap_at 8 (mirror 8 n) = mirror 16 n" "swap_at 16 (mirror 16 n) = mirror 32 n" "swap_at 32 (mirror 32 n) = 63 - n"
    "mirror 2 n < 64" "mirror 4 n < 64" "mirror 8 n < 64" "mirror 16 n < 64" "mirror 32 n < 64"
proof -
  have "mirror 1 n = n" "mirror 64 n = 63 - n" using assms by (simp_all add: mirror_def)
  then show "swap_at 1 n = mirror 2 n" "swap_at 2 (mirror 2 n) = mirror 4 n" "swap_at 4 (mirror 4 n) = mirror 8 n"
    "swap_at 8 (mirror 8 n) = mirror 16 n" "swap_at 16 (mirror 16 n) = mirror 32 n" "swap_at 32 (mirror 32 n) = 63 - n"
    using swap_mirror [of 1 n] swap_mirror [of 2 n] swap_mirror [of 4 n] swap_mirror [of 8 n] swap_mirror [of 16 n]
      swap_mirror [of 32 n] by simp_all
  show "mirror 2 n < 64" "mirror 4 n < 64" "mirror 8 n < 64" "mirror 16 n < 64" "mirror 32 n < 64"
    using assms by (simp_all add: mirror_less)
qed

lemma bit_revStep:
  assumes "(s, m) \<in> set rev_masks" "k < 64"
  shows "bit (revStep s m x) k = bit x (swap_at s k)"
proof -
  have "0 < s" using assms(1) by (auto simp: rev_masks_def)
  then show ?thesis unfolding revStep_def using rev_step [OF rev_mask_bit [OF assms(1)] _ assms(2)] by blast
qed

lemma bit_dict_rev:
  assumes "n < 64"
  shows "bit (dict_rev v) n = bit v (63 - n)"
proof -
  have masks: "(32, 0x00000000FFFFFFFF) \<in> set rev_masks" "(16, 0x0000FFFF0000FFFF) \<in> set rev_masks"
    "(8, 0x00FF00FF00FF00FF) \<in> set rev_masks" "(4, 0x0F0F0F0F0F0F0F0F) \<in> set rev_masks"
    "(2, 0x3333333333333333) \<in> set rev_masks" "(1, 0x5555555555555555) \<in> set rev_masks"
    by (simp_all add: rev_masks_def)
  note step = masks [THEN bit_revStep] swap_mirrors [OF assms]
  show ?thesis unfolding dict_rev_unfold by (simp only: step assms)
qed

lemma dict_rev_rev [simp]: "dict_rev (dict_rev v) = v"
  by (rule bit_word_eqI) (simp add: bit_dict_rev)

lemma dict_rev_0 [simp]: "dict_rev 0 = 0"
  by (rule bit_word_eqI) (simp add: bit_dict_rev)

lemma dict_rev_eq_0: "dict_rev v = 0 \<longleftrightarrow> v = 0"
  by (metis dict_rev_0 dict_rev_rev)

section \<open>Buckets as intervals\<close>

text \<open>Position of a cursor or a hash in the order of the scan.\<close>

definition rkey :: "uint64 \<Rightarrow> nat" where
  "rkey v = unat (dict_rev v)"

lemma rkey_less: "rkey v < 2 ^ 64"
  unfolding rkey_def using unat_less_64 [of "dict_rev v"] by simp

lemma rkey_0 [simp]: "rkey 0 = 0" by (simp add: rkey_def)

lemma rkey_eq_0: "rkey v = 0 \<longleftrightarrow> v = 0"
  by (simp add: rkey_def unat_eq_0 dict_rev_eq_0)

lemma rkey_div: "rkey v div 2 ^ j = unat (drop_bit j (dict_rev v))"
  using unat_less_64 [of "dict_rev v"]
  by (simp add: rkey_def unsigned_drop_bit_eq take_bit_nat_eq_self flip: drop_bit_eq_div)

lemma same_bucket_iff:
  assumes "k \<le> 64"
  shows "x AND mask k = y AND mask k \<longleftrightarrow> rkey x div 2 ^ (64 - k) = rkey y div 2 ^ (64 - k)"
proof -
  have "x AND mask k = y AND mask k \<longleftrightarrow> (\<forall>n < 64. n < k \<longrightarrow> bit x n = bit y n)"
    by (subst bit_eq_iff) (auto simp: bit_simps)
  also have "\<dots> \<longleftrightarrow> (\<forall>n < 64. 64 - k \<le> n \<longrightarrow> bit (dict_rev x) n = bit (dict_rev y) n)"
  proof (rule iffI; intro allI impI)
    fix n assume "\<forall>n < 64. n < k \<longrightarrow> bit x n = bit y n" "n < 64" "64 - k \<le> n"
    then show "bit (dict_rev x) n = bit (dict_rev y) n" using assms by (simp add: bit_dict_rev)
  next
    fix n assume *: "\<forall>n < 64. 64 - k \<le> n \<longrightarrow> bit (dict_rev x) n = bit (dict_rev y) n" "n < 64" "n < k"
    then have "bit (dict_rev x) (63 - n) = bit (dict_rev y) (63 - n)" using assms by simp
    then show "bit x n = bit y n" using *(2) by (simp add: bit_dict_rev)
  qed
  also have "\<dots> \<longleftrightarrow> drop_bit (64 - k) (dict_rev x) = drop_bit (64 - k) (dict_rev y)"
  proof
    assume *: "\<forall>n < 64. 64 - k \<le> n \<longrightarrow> bit (dict_rev x) n = bit (dict_rev y) n"
    show "drop_bit (64 - k) (dict_rev x) = drop_bit (64 - k) (dict_rev y)"
    proof (rule bit_eqI)
      fix n
      show "bit (drop_bit (64 - k) (dict_rev x)) n = bit (drop_bit (64 - k) (dict_rev y)) n"
        using * by (cases "64 - k + n < 64") (auto simp: bit_simps dest: bit_imp_le_length)
    qed
  next
    assume *: "drop_bit (64 - k) (dict_rev x) = drop_bit (64 - k) (dict_rev y)"
    show "\<forall>n < 64. 64 - k \<le> n \<longrightarrow> bit (dict_rev x) n = bit (dict_rev y) n"
    proof (intro allI impI)
      fix n :: nat assume "64 - k \<le> n"
      then have "n = 64 - k + (n - (64 - k))" by simp
      then show "bit (dict_rev x) n = bit (dict_rev y) n" using * by (metis bit_drop_bit_eq comp_apply)
    qed
  qed
  finally show ?thesis by (simp add: rkey_div word_unat_eq_iff)
qed

lemma or_mask_nat: "n OR mask j = n div 2 ^ j * 2 ^ j + (2 ^ j - 1)" for n :: nat
proof -
  have "drop_bit j (n OR mask j) = n div 2 ^ j"
    by (simp add: drop_bit_or drop_bit_mask_eq flip: drop_bit_eq_div)
  moreover have "take_bit j (n OR mask j) = 2 ^ j - 1"
    unfolding mask_nat_def [symmetric] by (rule bit_eqI) (auto simp: bit_simps)
  ultimately show ?thesis
    using bits_ident [of j "n OR mask j"] by (simp add: push_bit_eq_mult)
qed

lemma unat_mask: "j \<le> 64 \<Longrightarrow> unat (mask j :: uint64) = mask j"
proof -
  assume "j \<le> 64"
  moreover have "unat (take_bit j (- 1 :: uint64)) = take_bit j (unat (- 1 :: uint64))"
    by (rule unsigned_take_bit_eq)
  ultimately show ?thesis by (simp add: take_bit_minus_one_eq_mask unsigned_minus_1_eq_mask)
qed

lemma rev_or_not_mask:
  assumes "k \<le> 64"
  shows "dict_rev (v OR NOT (mask k)) = dict_rev v OR mask (64 - k)"
  by (rule bit_word_eqI) (use assms in \<open>auto simp: bit_dict_rev bit_simps\<close>)

lemma rkey_scanNext:
  assumes "k \<le> 64"
  shows "rkey (scanNext (mask k) v) = Suc (rkey v div 2 ^ (64 - k)) * 2 ^ (64 - k) mod 2 ^ 64"
proof -
  have "rkey (scanNext (mask k) v) = unat ((dict_rev v OR mask (64 - k)) + 1)"
    by (simp add: rkey_def scanNext_def rev_or_not_mask [OF assms])
  also have "\<dots> = Suc (unat (dict_rev v OR mask (64 - k))) mod 2 ^ 64"
    by (simp add: unat_word_ariths)
  also have "unat (dict_rev v OR mask (64 - k)) = rkey v OR mask (64 - k)"
    by (simp add: unsigned_or_eq unat_mask rkey_def)
  also have "Suc (rkey v OR mask (64 - k)) = Suc (rkey v div 2 ^ (64 - k)) * 2 ^ (64 - k)"
    unfolding or_mask_nat by simp
  finally show ?thesis .
qed

lemma dvd_rkey:
  assumes "k \<le> 64"
  shows "2 ^ (64 - k) dvd rkey v \<longleftrightarrow> (\<forall>m < 64. k \<le> m \<longrightarrow> \<not> bit v m)"
proof -
  have "2 ^ (64 - k) dvd rkey v \<longleftrightarrow> take_bit (64 - k) (rkey v) = 0"
    by (simp add: take_bit_eq_mod dvd_eq_mod_eq_0)
  also have "take_bit (64 - k) (rkey v) = unat (take_bit (64 - k) (dict_rev v))"
    unfolding rkey_def by (rule unsigned_take_bit_eq [symmetric])
  also have "\<dots> = 0 \<longleftrightarrow> (\<forall>n < 64. n < 64 - k \<longrightarrow> \<not> bit (dict_rev v) n)"
    by (auto simp: unat_eq_0 bit_eq_iff bit_simps)
  also have "\<dots> \<longleftrightarrow> (\<forall>m < 64. k \<le> m \<longrightarrow> \<not> bit v m)"
  proof (rule iffI; intro allI impI)
    fix m :: nat assume *: "\<forall>n < 64. n < 64 - k \<longrightarrow> \<not> bit (dict_rev v) n" "m < 64" "k \<le> m"
    then have "\<not> bit (dict_rev v) (63 - m)" by simp
    then show "\<not> bit v m" using *(2) by (simp add: bit_dict_rev)
  next
    fix n :: nat assume *: "\<forall>m < 64. k \<le> m \<longrightarrow> \<not> bit v m" "n < 64" "n < 64 - k"
    then have "\<not> bit v (63 - n)" by simp
    then show "\<not> bit (dict_rev v) n" using *(2) by (simp add: bit_dict_rev)
  qed
  finally show ?thesis .
qed

lemma scan_stop_iff:
  assumes "a \<le> b" "b \<le> 64" "2 ^ (64 - b) dvd rkey v"
  shows "v AND (mask a XOR mask b) = 0 \<longleftrightarrow> 2 ^ (64 - a) dvd rkey v"
proof -
  have high: "\<forall>m < 64. b \<le> m \<longrightarrow> \<not> bit v m" using assms(2,3) dvd_rkey by blast
  have "v AND (mask a XOR mask b) = 0 \<longleftrightarrow> (\<forall>n < 64. a \<le> n \<longrightarrow> n < b \<longrightarrow> \<not> bit v n)"
    using assms(1) by (auto simp: bit_eq_iff bit_simps)
  also have "\<dots> \<longleftrightarrow> (\<forall>n < 64. a \<le> n \<longrightarrow> \<not> bit v n)" using high by (meson not_le)
  finally show ?thesis using dvd_rkey [of a v] assms(1,2) by simp
qed

lemma bucket_covers:
  assumes "ht_ok hf h" "ht_sizemask h = mask k" "k \<le> 64"
  obtains c where "bucket h (unat (v AND mask k)) = Some c" "set c \<subseteq> set (ht_entries h)"
    "\<forall>e \<in> set (ht_entries h). rkey (hf (de_key e)) div 2 ^ (64 - k) = rkey v div 2 ^ (64 - k) \<longrightarrow> e \<in> set c"
proof -
  define i where "i = unat (v AND mask k)"
  have i: "i < length (ht_table h)"
    using bucketIndex_less [OF assms(1), of v] by (simp add: bucketIndex_def assms(2) i_def)
  have "e \<in> set (ht_table h ! i)"
    if "e \<in> set (ht_entries h)" "rkey (hf (de_key e)) div 2 ^ (64 - k) = rkey v div 2 ^ (64 - k)" for e
    using ht_entry_in_bucket [OF assms(1) that(1)] that(2) same_bucket_iff [OF assms(3), of "hf (de_key e)" v]
    by (simp add: bucketIndex_def assms(2) i_def)
  moreover have "set (ht_table h ! i) \<subseteq> set (ht_entries h)" using bucket_in_entries [OF i] by blast
  ultimately show ?thesis using that bucket_Some [OF i] unfolding i_def by blast
qed

text \<open>Rounding up to a multiple of a power of two.\<close>

lemma next_multiple:
  fixes x w :: nat
  assumes "0 < w"
  shows "x < Suc (x div w) * w" "x div w * w \<le> x" "Suc (x div w) * w = x div w * w + w"
proof -
  show "x div w * w \<le> x" by simp
  show "Suc (x div w) * w = x div w * w + w" by simp
  then show "x < Suc (x div w) * w"
    using div_mult_mod_eq [of x w] mod_less_divisor [OF assms, of x] by linarith
qed

lemma next_multiple_le:
  fixes x w0 w1 :: nat
  assumes "0 < w1" "w1 dvd w0" "0 < w0"
  shows "Suc (x div w1) * w1 \<le> Suc (x div w0) * w0"
proof -
  have "w1 dvd Suc (x div w0) * w0" using assms(2) by simp
  then obtain q where q: "Suc (x div w0) * w0 = q * w1" by (metis dvdE mult.commute)
  then have "x < q * w1" using next_multiple(1) [OF assms(3), of x] by simp
  then have "Suc (x div w1) \<le> q" using assms(1) by (simp add: div_less_iff_less_mult Suc_le_eq)
  then show ?thesis unfolding q by (rule mult_le_mono1)
qed

lemma next_multiple_cap:
  assumes "k \<le> 64" "x < 2 ^ 64"
  shows "Suc (x div 2 ^ (64 - k)) * 2 ^ (64 - k) \<le> (2 :: nat) ^ 64"
proof -
  have "(2 :: nat) ^ 64 = 2 ^ k * 2 ^ (64 - k)" using assms(1) by (simp flip: power_add)
  moreover have "x div 2 ^ (64 - k) < 2 ^ k"
    using assms calculation by (simp add: div_less_iff_less_mult)
  ultimately show ?thesis by (metis Suc_leI mult_le_mono1)
qed

lemma same_quotient:
  fixes x y w :: nat
  assumes "0 < w" "x \<le> y" "y < Suc (x div w) * w"
  shows "y div w = x div w"
  using assms by (metis div_le_mono div_less_iff_less_mult le_antisym less_Suc_eq_le)

section \<open>One call covers an interval\<close>

text \<open>
  The entries of a table whose reversed hash lies in the block of size \<^verbatim>\<open>w\<close> the cursor is in,
  from the cursor on.
\<close>

definition covers :: "('k \<Rightarrow> uint64) \<Rightarrow> ('k, 'v) dictEntry list \<Rightarrow> ('k, 'v) dictEntry list \<Rightarrow> nat \<Rightarrow> nat \<Rightarrow> bool" where
  "covers hf es out lo hi \<longleftrightarrow>
     set out \<subseteq> set es \<and> (\<forall>e \<in> set es. lo \<le> rkey (hf (de_key e)) \<and> rkey (hf (de_key e)) < hi \<longrightarrow> e \<in> set out)"

lemma covers_append:
  "covers hf es out1 lo mid \<Longrightarrow> covers hf es out2 mid hi \<Longrightarrow> covers hf es (out1 @ out2) lo hi"
  unfolding covers_def by (metis (no_types, lifting) Un_iff Un_least not_le set_append)

lemma covers_two:
  "covers hf es1 out1 lo hi \<Longrightarrow> covers hf es2 out2 lo hi \<Longrightarrow> covers hf (es1 @ es2) (out1 @ out2) lo hi"
  unfolding covers_def by auto

lemma covers_set_cong:
  "set es = set es' \<Longrightarrow> covers hf es out lo hi = covers hf es' out lo hi"
  by (simp add: covers_def)

lemma bucket_covers_block:
  assumes "ht_ok hf h" "ht_sizemask h = mask k" "k \<le> 64"
  obtains c where "bucket h (unat (v AND mask k)) = Some c"
    "covers hf (ht_entries h) c (rkey v) (Suc (rkey v div 2 ^ (64 - k)) * 2 ^ (64 - k))"
proof -
  obtain c where c: "bucket h (unat (v AND mask k)) = Some c" "set c \<subseteq> set (ht_entries h)"
    "\<forall>e \<in> set (ht_entries h). rkey (hf (de_key e)) div 2 ^ (64 - k) = rkey v div 2 ^ (64 - k) \<longrightarrow> e \<in> set c"
    using bucket_covers [OF assms, of v] by blast
  have "e \<in> set c" if "e \<in> set (ht_entries h)" "rkey v \<le> rkey (hf (de_key e))"
    "rkey (hf (de_key e)) < Suc (rkey v div 2 ^ (64 - k)) * 2 ^ (64 - k)" for e
    using c(3) that(1) same_quotient [OF _ that(2,3)] by simp
  then have "covers hf (ht_entries h) c (rkey v) (Suc (rkey v div 2 ^ (64 - k)) * 2 ^ (64 - k))"
    unfolding covers_def using c(2) by blast
  then show ?thesis by (rule that [OF c(1)])
qed

lemma dictScanLoop_covers:
  assumes ok: "ht_ok hf t1" "ht_sizemask t1 = mask b" and ab: "a \<le> b" "b \<le> 64"
  defines "w0 \<equiv> 2 ^ (64 - a)"
  shows "\<exists>es v'. dictScanLoop t1 (mask a) (mask b) v = Some (es, v') \<and>
    rkey v' = Suc (rkey v div w0) * w0 mod 2 ^ 64 \<and>
    covers hf (ht_entries t1) es (rkey v) (Suc (rkey v div w0) * w0)"
proof (induction "Suc (rkey v div w0) * w0 - rkey v" arbitrary: v rule: less_induct)
  case less
  define w1 :: nat where "w1 = 2 ^ (64 - b)"
  define x where "x = rkey v"
  define n1 where "n1 = Suc (x div w1) * w1"
  define B where "B = Suc (x div w0) * w0"
  define v1 where "v1 = scanNext (mask b) v"
  have w: "0 < w0" "0 < w1" "w1 dvd w0"
    using ab by (simp_all add: w0_def w1_def le_imp_power_dvd)
  have n1: "x < n1" "n1 \<le> B" and B: "B \<le> 2 ^ 64" "w0 dvd B" and "w1 dvd n1"
    using next_multiple(1) [OF w(2)] next_multiple_le [OF w(2,3,1)] next_multiple_cap [of a x] rkey_less [of v] ab
    by (simp_all add: n1_def B_def x_def w0_def)
  have v1: "rkey v1 = n1 mod 2 ^ 64" using rkey_scanNext [of b v] ab by (simp add: v1_def n1_def w1_def x_def)
  have "w1 dvd 2 ^ 64" "w0 dvd 2 ^ 64" unfolding w1_def w0_def by (rule le_imp_power_dvd, simp)+
  then have stop: "v1 AND (mask a XOR mask b) = 0 \<longleftrightarrow> w0 dvd rkey v1"
    using scan_stop_iff [OF ab, of v1] v1 \<open>w1 dvd n1\<close> by (simp add: w0_def w1_def dvd_mod)
  obtain c where c: "bucket t1 (unat (v AND mask b)) = Some c" "covers hf (ht_entries t1) c x n1"
    using bucket_covers_block [OF ok ab(2), of v] by (auto simp: n1_def x_def w1_def)
  have unroll: "dictScanLoop t1 (mask a) (mask b) v =
      (if v1 AND (mask a XOR mask b) \<noteq> 0 then
         (case dictScanLoop t1 (mask a) (mask b) v1 of None \<Rightarrow> None | Some (es, v'') \<Rightarrow> Some (c @ es, v''))
       else Some (c, v1))"
    by (subst dictScanLoop.simps) (simp add: c(1) v1_def Let_def split: option.splits)
  show ?case
  proof (cases "n1 = B")
    case True
    then have "w0 dvd rkey v1" using v1 B(2) \<open>w0 dvd 2 ^ 64\<close> by (simp add: dvd_mod)
    then have "dictScanLoop t1 (mask a) (mask b) v = Some (c, v1)" by (simp add: unroll stop)
    then show ?thesis using v1 c(2) unfolding True x_def [symmetric] B_def [symmetric] by blast
  next
    case False
    with n1 have lt: "n1 < B" by simp
    then have rk: "rkey v1 = n1" using v1 B(1) by simp
    have q: "rkey v1 div w0 = x div w0"
      using same_quotient [OF w(1), of x n1] n1(1) lt by (simp add: rk B_def)
    have "\<not> w0 dvd rkey v1"
      using n1(1) q next_multiple(2) [OF w(1), of x] by (metis dvd_div_mult_self not_less rk)
    then have cont: "v1 AND (mask a XOR mask b) \<noteq> 0" using stop by simp
    have "B - n1 < B - x" using n1(1) lt by simp
    then obtain es v' where IH: "dictScanLoop t1 (mask a) (mask b) v1 = Some (es, v')"
      "rkey v' = B mod 2 ^ 64" "covers hf (ht_entries t1) es n1 B"
      using less.hyps [of v1] unfolding x_def [symmetric] rk q [unfolded rk] B_def [symmetric] by blast
    have "dictScanLoop t1 (mask a) (mask b) v = Some (c @ es, v')" by (simp add: unroll cont IH(1))
    then show ?thesis using IH(2) covers_append [OF c(2) IH(3)]
      unfolding x_def [symmetric] B_def [symmetric] by blast
  qed
qed

lemma exp_word_le_iff:
  assumes "a < 64" "b < 64"
  shows "(2 :: uint64) ^ a \<le> 2 ^ b \<longleftrightarrow> a \<le> b"
  using assms by (simp add: word_le_nat_alt unat_pow2_64)

lemma cursor_interval:
  assumes "rkey v' = Suc (rkey v div 2 ^ (64 - a)) * 2 ^ (64 - a) mod 2 ^ 64" "a \<le> 64"
  shows "(v' = 0 \<or> rkey v < rkey v') \<and>
    Suc (rkey v div 2 ^ (64 - a)) * 2 ^ (64 - a) = (if v' = 0 then 2 ^ 64 else rkey v')"
proof -
  define B where "B = Suc (rkey v div 2 ^ (64 - a)) * 2 ^ (64 - a)"
  have B: "rkey v < B" "B \<le> 2 ^ 64"
    using next_multiple(1) [of "2 ^ (64 - a)" "rkey v"] next_multiple_cap [OF assms(2) rkey_less, of v]
    by (simp_all add: B_def)
  have v': "rkey v' = B mod 2 ^ 64" using assms(1) unfolding B_def .
  show ?thesis
  proof (cases "B = 2 ^ 64")
    case True
    then have "v' = 0" using v' by (simp flip: rkey_eq_0)
    then show ?thesis using True unfolding B_def by simp
  next
    case False
    then have "rkey v' = B" using v' B(2) by simp
    moreover from this B(1) have "v' \<noteq> 0" by (auto simp: rkey_0)
    ultimately show ?thesis using B(1) unfolding B_def by simp
  qed
qed

text \<open>The position after a call: the next multiple of the block size of the smaller table.\<close>

definition cursor_after :: "uint64 \<Rightarrow> uint64 \<Rightarrow> uint64 \<Rightarrow> bool" where
  "cursor_after m v v' \<longleftrightarrow>
     (\<exists>a < 61. m = mask a \<and> rkey v' = Suc (rkey v div 2 ^ (64 - a)) * 2 ^ (64 - a) mod 2 ^ 64)"

definition scan_mask :: "('k, 'v) dict \<Rightarrow> uint64" where
  "scan_mask d =
     (if dictIsRehashing d \<and> ht_size (ht0 d) > ht_size (ht1 d) then ht_sizemask (ht1 d)
      else ht_sizemask (ht0 d))"

lemma scan_two_tables:
  assumes "ht_ok hf t0" "ht_ok hf t1" "ht_size t0 \<le> ht_size t1"
  shows "\<exists>c es v'. bucket t0 (unat (v AND ht_sizemask t0)) = Some c \<and>
    dictScanLoop t1 (ht_sizemask t0) (ht_sizemask t1) v = Some (es, v') \<and>
    (v' = 0 \<or> rkey v < rkey v') \<and> cursor_after (ht_sizemask t0) v v' \<and>
    covers hf (ht_entries t0 @ ht_entries t1) (c @ es) (rkey v) (if v' = 0 then 2 ^ 64 else rkey v')"
proof -
  obtain a where a: "a < 61" "ht_size t0 = 2 ^ a" "ht_sizemask t0 = mask a" using assms(1) by (rule ht_ok_size)
  obtain b where b: "b < 61" "ht_size t1 = 2 ^ b" "ht_sizemask t1 = mask b" using assms(2) by (rule ht_ok_size)
  have ab: "a \<le> b" using assms(3) a(1,2) b(1,2) by (simp add: exp_word_le_iff)
  obtain c where c: "bucket t0 (unat (v AND mask a)) = Some c"
    "covers hf (ht_entries t0) c (rkey v) (Suc (rkey v div 2 ^ (64 - a)) * 2 ^ (64 - a))"
    using bucket_covers_block [OF assms(1) a(3), of v] a(1) by auto
  obtain es v' where es: "dictScanLoop t1 (mask a) (mask b) v = Some (es, v')"
    "rkey v' = Suc (rkey v div 2 ^ (64 - a)) * 2 ^ (64 - a) mod 2 ^ 64"
    "covers hf (ht_entries t1) es (rkey v) (Suc (rkey v div 2 ^ (64 - a)) * 2 ^ (64 - a))"
    using dictScanLoop_covers [OF assms(2) b(3) ab, of v] b(1) by auto
  have "a \<le> 64" using a(1) by simp
  note cur = cursor_interval [OF es(2) this]
  have "cursor_after (mask a) v v'" using es(2) a(1) unfolding cursor_after_def by blast
  then show ?thesis
    using c(1) es(1) conjunct1 [OF cur] covers_two [OF c(2) es(3)] unfolding conjunct2 [OF cur] a(3) b(3) by blast
qed

lemma dictScan_covers:
  assumes ok: "dict_ok d" and ne: "dict_entries d \<noteq> []"
  shows "\<exists>out v'. dictScan d v = Some (d, out, v') \<and> (v' = 0 \<or> rkey v < rkey v') \<and>
    cursor_after (scan_mask d) v v' \<and>
    covers (dictHashKey d) (dict_entries d) out (rkey v) (if v' = 0 then 2 ^ 64 else rkey v')"
proof -
  have size: "dictSize d \<noteq> 0" using unat_dictSize [OF ok] ne by auto
  have pr: "dictResumeRehashing (dictPauseRehashing d) = d"
    by (simp add: dictResumeRehashing_def dictPauseRehashing_def)
  have same: "ht0 (dictPauseRehashing d) = ht0 d" "ht1 (dictPauseRehashing d) = ht1 d"
    "dictIsRehashing (dictPauseRehashing d) = dictIsRehashing d"
    by (simp_all add: dictPauseRehashing_def dictIsRehashing_def)
  note tables = dict_ok_tables [OF ok ne]
  show ?thesis
  proof (cases "dictIsRehashing d")
    case False
    obtain a where a: "a < 61" "ht_sizemask (ht0 d) = mask a" using tables(1) by (rule ht_ok_size)
    then have a64: "a \<le> 64" by simp
    obtain c where c: "bucket (ht0 d) (unat (v AND mask a)) = Some c"
      "covers (dictHashKey d) (ht_entries (ht0 d)) c (rkey v) (Suc (rkey v div 2 ^ (64 - a)) * 2 ^ (64 - a))"
      using bucket_covers_block [OF tables(1) a(2) a64, of v] by auto
    note cur = cursor_interval [OF rkey_scanNext [OF a64, of v] a64]
    have "dictScan d v = Some (d, c, scanNext (mask a) v)"
      using size c(1) by (simp add: dictScan_def Let_def same pr False a(2))
    moreover have "cursor_after (scan_mask d) v (scanNext (mask a) v)"
      using rkey_scanNext [OF a64, of v] a unfolding cursor_after_def by (auto simp: scan_mask_def False)
    ultimately show ?thesis
      using conjunct1 [OF cur] c(2) unfolding conjunct2 [OF cur] tables(3) [OF False] by blast
  next
    case True
    have entries: "set (dict_entries d) = set (ht_entries (ht1 d) @ ht_entries (ht0 d))"
      by (auto simp: dict_entries_def)
    show ?thesis
    proof (cases "ht_size (ht0 d) > ht_size (ht1 d)")
      case lt: True
      then have sm: "scan_mask d = ht_sizemask (ht1 d)" by (simp add: scan_mask_def True)
      have "ht_size (ht1 d) \<le> ht_size (ht0 d)" using lt by simp
      from scan_two_tables [OF tables(2) [OF True] tables(1) this, of v]
      obtain c es v' where *: "bucket (ht1 d) (unat (v AND ht_sizemask (ht1 d))) = Some c"
        "dictScanLoop (ht0 d) (ht_sizemask (ht1 d)) (ht_sizemask (ht0 d)) v = Some (es, v')"
        "v' = 0 \<or> rkey v < rkey v'" "cursor_after (scan_mask d) v v'"
        "covers (dictHashKey d) (dict_entries d) (c @ es) (rkey v) (if v' = 0 then 2 ^ 64 else rkey v')"
        unfolding covers_set_cong [OF entries] sm by blast
      have "dictScan d v = Some (d, c @ es, v')"
        using *(1,2) by (simp add: dictScan_def Let_def same pr size True lt)
      with *(3-5) show ?thesis by blast
    next
      case ge: False
      then have sm: "scan_mask d = ht_sizemask (ht0 d)" by (simp add: scan_mask_def)
      have "ht_size (ht0 d) \<le> ht_size (ht1 d)" using ge by simp
      from scan_two_tables [OF tables(1) tables(2) [OF True] this, of v]
      obtain c es v' where *: "bucket (ht0 d) (unat (v AND ht_sizemask (ht0 d))) = Some c"
        "dictScanLoop (ht1 d) (ht_sizemask (ht0 d)) (ht_sizemask (ht1 d)) v = Some (es, v')"
        "v' = 0 \<or> rkey v < rkey v'" "cursor_after (scan_mask d) v v'"
        "covers (dictHashKey d) (dict_entries d) (c @ es) (rkey v) (if v' = 0 then 2 ^ 64 else rkey v')"
        unfolding dict_entries_def sm by blast
      have "dictScan d v = Some (d, c @ es, v')"
        using *(1,2) by (simp add: dictScan_def Let_def same pr size True ge)
      with *(3-5) show ?thesis by blast
    qed
  qed
qed

section \<open>A full scan\<close>

text \<open>
  A client calls \<^verbatim>\<open>dictScan\<close> with the cursor the previous call returned; between two calls the
  table may have been changed, resized or partly rehashed, so the calls see a list of states.
\<close>

fun scanRun :: "('k, 'v) dict list \<Rightarrow> uint64 \<Rightarrow> (('k, 'v) dictEntry list \<times> uint64) option" where
  "scanRun [] v = Some ([], v)"
| "scanRun (d # ds) v =
     do { (_, out, v') \<leftarrow> dictScan d v; (outs, v'') \<leftarrow> scanRun ds v'; Some (out @ outs, v'') }"

lemma scanRun_reaches:
  assumes "\<forall>d \<in> set ds. dict_ok d \<and> dictHashKey d = hf \<and> k \<in> de_key ` set (dict_entries d)"
    "scanRun ds v = Some (out, 0)" "ds \<noteq> []" "rkey v \<le> rkey (hf k)"
  shows "k \<in> de_key ` set out"
  using assms
proof (induction ds arbitrary: v out)
  case Nil
  then show ?case by simp
next
  case (Cons d ds)
  have ok: "dict_ok d" "dictHashKey d = hf" "k \<in> de_key ` set (dict_entries d)" using Cons.prems(1) by auto
  then have ne: "dict_entries d \<noteq> []" by auto
  obtain out1 v' where s: "dictScan d v = Some (d, out1, v')"
    "covers hf (dict_entries d) out1 (rkey v) (if v' = 0 then 2 ^ 64 else rkey v')"
    using dictScan_covers [OF ok(1) ne, of v] ok(2) by auto
  obtain out2 where run: "scanRun ds v' = Some (out2, 0)" "out = out1 @ out2"
    using Cons.prems(2) s(1) by (auto split: bind_splits)
  show ?case
  proof (cases "v' = 0 \<or> rkey (hf k) < rkey v'")
    case True
    then have "rkey (hf k) < (if v' = 0 then 2 ^ 64 else rkey v')" using rkey_less [of "hf k"] by auto
    then have "k \<in> de_key ` set out1" using s(2) ok(3) Cons.prems(4) unfolding covers_def by blast
    then show ?thesis using run(2) by auto
  next
    case False
    then have "ds \<noteq> []" using run(1) by auto
    then have "k \<in> de_key ` set out2" using Cons.IH [OF _ run(1)] Cons.prems(1) False by auto
    then show ?thesis using run(2) by auto
  qed
qed

lemma scanRun_sound:
  assumes "\<forall>d \<in> set ds. dict_ok d"
  shows "\<exists>out v'. scanRun ds v = Some (out, v') \<and> set out \<subseteq> (\<Union>d \<in> set ds. set (dict_entries d))"
  using assms
proof (induction ds arbitrary: v)
  case Nil
  then show ?case by simp
next
  case (Cons d ds)
  have "\<exists>out1 v1. dictScan d v = Some (d, out1, v1) \<and> set out1 \<subseteq> set (dict_entries d)"
  proof (cases "dict_entries d = []")
    case True
    then have "dictSize d = 0" using unat_dictSize [of d] Cons.prems by (simp flip: unat_eq_zero)
    then show ?thesis by (simp add: dictScan_def)
  next
    case False
    then show ?thesis using dictScan_covers [of d v] Cons.prems unfolding covers_def by auto
  qed
  then obtain out1 v1 where "dictScan d v = Some (d, out1, v1)" "set out1 \<subseteq> set (dict_entries d)" by blast
  moreover obtain out2 v2 where "scanRun ds v1 = Some (out2, v2)"
    "set out2 \<subseteq> (\<Union>d \<in> set ds. set (dict_entries d))"
    using Cons.IH [of v1] Cons.prems by auto
  ultimately show ?case by auto
qed

section \<open>A scan of an unchanged table\<close>

definition scan_cursor :: "nat \<Rightarrow> nat \<Rightarrow> uint64" where
  "scan_cursor k i = dict_rev (of_nat (i * 2 ^ (64 - k)))"

definition scan_pos :: "nat \<Rightarrow> nat \<Rightarrow> nat" where
  "scan_pos k i = unat (scan_cursor k i AND mask k)"

lemma rkey_cursor:
  assumes "k \<le> 64" "i < 2 ^ k"
  shows "rkey (scan_cursor k i) = i * 2 ^ (64 - k)"
proof -
  have "(2 :: nat) ^ k * 2 ^ (64 - k) = 2 ^ 64" using assms(1) by (simp flip: power_add)
  then have "i * 2 ^ (64 - k) < 2 ^ 64" using assms(2) by (metis mult_less_mono1 zero_less_numeral zero_less_power)
  then show ?thesis unfolding rkey_def scan_cursor_def dict_rev_rev unat_of_nat by simp
qed

lemma scan_cursor_0: "scan_cursor k 0 = 0"
  by (simp add: scan_cursor_def dict_rev_0)

lemma scan_cursor_end: "k \<le> 64 \<Longrightarrow> scan_cursor k (2 ^ k) = 0"
proof -
  assume "k \<le> 64"
  then have "(2 :: nat) ^ k * 2 ^ (64 - k) = 2 ^ 64" by (simp flip: power_add)
  moreover have "(of_nat (2 ^ 64) :: uint64) = 0" by (simp add: word_unat_eq_iff unat_of_nat)
  ultimately show ?thesis unfolding scan_cursor_def by (simp only: dict_rev_0)
qed

lemma mset_concat_cong: "mset xss = mset yss \<Longrightarrow> mset (concat xss) = mset (concat yss)"
  by (metis mset_concat mset_map sum_mset_sum_list)

lemma scan_pos_less: "k < 64 \<Longrightarrow> scan_pos k i < 2 ^ k"
  unfolding scan_pos_def by (metis take_bit_eq_mask unat_take_bit_less)

lemma scan_pos_inj:
  assumes "k < 64"
  shows "inj_on (scan_pos k) {..<2 ^ k}"
proof (rule inj_onI)
  fix i j :: nat assume "i \<in> {..<2 ^ k}" "j \<in> {..<2 ^ k}" and eq: "scan_pos k i = scan_pos k j"
  then have "i * 2 ^ (64 - k) div 2 ^ (64 - k) = j * 2 ^ (64 - k) div 2 ^ (64 - k)"
    using same_bucket_iff [of k "scan_cursor k i" "scan_cursor k j"] rkey_cursor [of k] assms
    by (simp add: scan_pos_def word_unat_eq_iff)
  then show "i = j" by simp
qed

lemma scan_pos_perm:
  assumes "k < 64" "length xs = 2 ^ k"
  shows "mset (map (\<lambda>i. xs ! scan_pos k i) [0..<2 ^ k]) = mset xs"
proof -
  have "scan_pos k ` {..<2 ^ k} \<subseteq> {..<2 ^ k}" using scan_pos_less [OF assms(1)] by auto
  then have img: "scan_pos k ` {..<2 ^ k} = {..<2 ^ k}"
    by (simp add: endo_inj_surj scan_pos_inj [OF assms(1)])
  have "mset (map (\<lambda>i. xs ! scan_pos k i) [0..<2 ^ k]) = image_mset ((!) xs) (image_mset (scan_pos k) (mset_set {..<2 ^ k}))"
    by (simp add: multiset.map_comp comp_def atLeast0LessThan)
  also have "image_mset (scan_pos k) (mset_set {..<2 ^ k}) = mset_set {..<2 ^ k}"
    using image_mset_mset_set [OF scan_pos_inj [OF assms(1)]] img by simp
  also have "image_mset ((!) xs) (mset_set {..<2 ^ k}) = mset (map ((!) xs) [0..<length xs])"
    using assms(2) by (simp add: atLeast0LessThan)
  finally show ?thesis by (simp add: map_nth)
qed

lemma cursor_after_scan_cursor:
  assumes "cursor_after (mask a) (scan_cursor a j) v'" "a < 61" "j < 2 ^ a"
  shows "v' = scan_cursor a (Suc j)"
proof -
  obtain b where b: "b < 61" "mask a = (mask b :: uint64)"
    "rkey v' = Suc (rkey (scan_cursor a j) div 2 ^ (64 - b)) * 2 ^ (64 - b) mod 2 ^ 64"
    using assms(1) unfolding cursor_after_def by blast
  have "unat (mask a :: uint64) = 2 ^ a - 1" "unat (mask b :: uint64) = 2 ^ b - 1"
    using assms(2) b(1) by (simp_all add: unat_mask) (simp_all add: mask_eq_exp_minus_1)
  then have "(2 :: nat) ^ a - 1 = 2 ^ b - 1" using b(2) by simp
  then have "(2 :: nat) ^ a = 2 ^ b" by (simp add: eq_diff_iff)
  then have "b = a" by simp
  then have "rkey v' = Suc j * 2 ^ (64 - a) mod 2 ^ 64"
    using b(3) assms(2,3) by (simp add: rkey_cursor)
  then have "dict_rev v' = of_nat (Suc j * 2 ^ (64 - a))"
    unfolding rkey_def word_unat_eq_iff unat_of_nat by simp
  then show ?thesis unfolding scan_cursor_def by (metis dict_rev_rev)
qed

lemma scanRun_cursor:
  assumes "\<forall>d \<in> set ds. dict_ok d \<and> dict_entries d \<noteq> [] \<and> scan_mask d = mask a" "a < 61" "j + length ds \<le> 2 ^ a"
  shows "\<exists>out. scanRun ds (scan_cursor a j) = Some (out, scan_cursor a (j + length ds))"
  using assms
proof (induction ds arbitrary: j)
  case Nil
  then show ?case by simp
next
  case (Cons d ds)
  then have d: "dict_ok d" "dict_entries d \<noteq> []" "scan_mask d = mask a" by auto
  obtain out v' where s: "dictScan d (scan_cursor a j) = Some (d, out, v')" "cursor_after (mask a) (scan_cursor a j) v'"
    using dictScan_covers [OF d(1,2), of "scan_cursor a j"] d(3) by auto
  have "v' = scan_cursor a (Suc j)" using cursor_after_scan_cursor [OF s(2)] Cons.prems by simp
  moreover obtain out' where "scanRun ds (scan_cursor a (Suc j)) = Some (out', scan_cursor a (Suc j + length ds))"
    using Cons.IH [of "Suc j"] Cons.prems by auto
  ultimately show ?case using s(1) by simp
qed

lemma scanRun_fixed:
  assumes ok: "dict_ok d" "dict_entries d \<noteq> []" "\<not> dictIsRehashing d"
    and k: "k < 61" "ht_sizemask (ht0 d) = mask k" "length (ht_table (ht0 d)) = 2 ^ k"
  shows "j + n \<le> 2 ^ k \<Longrightarrow>
    scanRun (replicate n d) (scan_cursor k j) =
      Some (concat (map (\<lambda>i. ht_table (ht0 d) ! scan_pos k i) [j..<j + n]), scan_cursor k (j + n))"
proof (induction n arbitrary: j)
  case 0
  then show ?case by simp
next
  case (Suc n)
  let ?v = "scan_cursor k j"
  have rk: "rkey ?v = j * 2 ^ (64 - k)" using Suc.prems k(1) by (simp add: rkey_cursor)
  have "rkey (scanNext (mask k) ?v) = Suc j * 2 ^ (64 - k) mod 2 ^ 64"
    using rkey_scanNext [of k ?v] k(1) unfolding rk by simp
  then have "dict_rev (scanNext (mask k) ?v) = of_nat (Suc j * 2 ^ (64 - k))"
    unfolding rkey_def word_unat_eq_iff unat_of_nat by simp
  then have nxt: "scanNext (mask k) ?v = scan_cursor k (Suc j)" unfolding scan_cursor_def by (metis dict_rev_rev)
  have "dictSize d \<noteq> 0" using unat_dictSize [OF ok(1)] ok(2) by auto
  then have "dictScan d ?v = Some (d, ht_table (ht0 d) ! scan_pos k j, scan_cursor k (Suc j))"
    using bucket_Some [of "scan_pos k j" "ht0 d"] scan_pos_less [of k j] k ok(3) unfolding nxt [symmetric]
    by (simp add: dictScan_def Let_def dictPauseRehashing_def dictResumeRehashing_def dictIsRehashing_def scan_pos_def)
  moreover have "[j..<j + Suc n] = j # [Suc j..<Suc j + n]" by (subst upt_conv_Cons) auto
  ultimately show ?case using Suc.IH [of "Suc j"] Suc.prems by (simp del: upt_Suc)
qed

text \<open>The example table before it started to grow.\<close>

definition ex_plain :: "(nat, nat) dict" where
  "ex_plain = ex_dict\<lparr>ht1 := priv_dictReset, rehashidx := -1\<rparr>"

lemma ex_plain_ok: "dict_ok ex_plain"
proof -
  have "dictHashKey ex_plain = dictHashKey ex_dict" by (simp add: ex_plain_def dictHashKey_def fun_eq_iff)
  moreover have "keys_distinct ex_plain"
    by (simp add: keys_distinct_def dict_entries_def ht_entries_def ex_plain_def ex_dict_def keyMatches_def
        dictCompareKeys_def ex_type_def priv_dictReset_def)
  ultimately show ?thesis
    using ex_dict_ht0 by (simp add: dict_ok_def)
      (simp add: ex_plain_def ex_dict_def dict_entries_def ht_entries_def dictIsRehashing_def priv_dictReset_def)
qed

text \<open>
  C19: scanning a table that is not rehashed and not changed comes back to cursor 0 after exactly
  as many calls as the table has buckets, not earlier, and hands out every entry exactly once.  A table
  without entries, whatever its size, is done after the first call.
\<close>

theorem dictScan_once:
  assumes "dict_ok d" "\<not> dictIsRehashing d"
    and calls: "calls = (if dict_entries d = [] then 1 else length (ht_table (ht0 d)))"
  shows "\<exists>out. scanRun (replicate calls d) 0 = Some (out, 0) \<and> mset out = mset (dict_entries d) \<and>
    (\<forall>n. 0 < n \<and> n < calls \<longrightarrow> (\<exists>out' v'. scanRun (replicate n d) 0 = Some (out', v') \<and> v' \<noteq> 0))"
proof (cases "dict_entries d = []")
  case True
  then have "dictSize d = 0" using unat_dictSize [OF assms(1)] by (simp flip: unat_eq_zero)
  then show ?thesis using True by (auto simp: calls dictScan_def)
next
  case False
  obtain k where k: "k < 61" "ht_sizemask (ht0 d) = mask k" "length (ht_table (ht0 d)) = 2 ^ k"
    using dict_ok_tables(1) [OF assms(1) False] by (rule ht_ok_size)
  have run: "scanRun (replicate n d) 0 =
      Some (concat (map (\<lambda>i. ht_table (ht0 d) ! scan_pos k i) [0..<n]), scan_cursor k n)" if "n \<le> 2 ^ k" for n
    using scanRun_fixed [OF assms(1) False assms(2) k, of 0 n] that by (simp add: scan_cursor_0)
  have "scan_cursor k n \<noteq> 0" if "0 < n" "n < 2 ^ k" for n
    using rkey_cursor [of k n] k(1) that by (auto simp: rkey_0)
  moreover have "mset (concat (map (\<lambda>i. ht_table (ht0 d) ! scan_pos k i) [0..<2 ^ k])) = mset (dict_entries d)"
    using mset_concat_cong [OF scan_pos_perm [OF _ k(3)]] k(1) dict_ok_tables(3) [OF assms(1) False assms(2)]
    by (simp add: ht_entries_def)
  moreover have "scan_cursor k (2 ^ k) = 0" using scan_cursor_end k(1) by simp
  ultimately show ?thesis using run False unfolding calls k(3) by simp
qed

lemma dictScan_once_witness:
  "\<exists>out. scanRun (replicate 4 ex_plain) 0 = Some (out, 0) \<and> mset out = mset (dict_entries ex_plain)"
proof -
  have "dict_entries ex_plain \<noteq> []" "\<not> dictIsRehashing ex_plain" "length (ht_table (ht0 ex_plain)) = 4"
    by (simp_all add: ex_plain_def ex_dict_def dict_entries_def ht_entries_def dictIsRehashing_def)
  then show ?thesis using dictScan_once [OF ex_plain_ok] by auto
qed

text \<open>
  C4: a full scan, from cursor 0 to cursor 0, always returns; every entry handed to the callback
  was in the table at one of the calls, and every key that is in the table at all the calls is
  handed out, however the table was changed, grown, shrunk or rehashed between the calls.
\<close>

theorem dictScan_complete:
  assumes "\<forall>d \<in> set ds. dict_ok d \<and> dictHashKey d = hf" "ds \<noteq> []"
  shows "\<exists>out v'. scanRun ds 0 = Some (out, v') \<and>
    set out \<subseteq> (\<Union>d \<in> set ds. set (dict_entries d)) \<and>
    (v' = 0 \<longrightarrow> (\<Inter>d \<in> set ds. de_key ` set (dict_entries d)) \<subseteq> de_key ` set out)"
proof -
  obtain out v' where run: "scanRun ds 0 = Some (out, v')"
    "set out \<subseteq> (\<Union>d \<in> set ds. set (dict_entries d))"
    using scanRun_sound [of ds 0] assms(1) by auto
  have "k \<in> de_key ` set out" if "v' = 0" "k \<in> (\<Inter>d \<in> set ds. de_key ` set (dict_entries d))" for k
  proof (rule scanRun_reaches)
    show "\<forall>d \<in> set ds. dict_ok d \<and> dictHashKey d = hf \<and> k \<in> de_key ` set (dict_entries d)"
      using assms(1) that(2) by auto
    show "scanRun ds 0 = Some (out, 0)" using run(1) that(1) by simp
  qed (simp_all add: assms(2) rkey_0)
  with run show ?thesis by blast
qed

lemma dictScan_complete_witness:
  "\<exists>out. scanRun [ex_dict, ex_dict, ex_dict, ex_dict] 0 = Some (out, 0) \<and>
    de_key ` set (dict_entries ex_dict) \<subseteq> de_key ` set out"
proof -
  define ds where "ds = [ex_dict, ex_dict, ex_dict, ex_dict]"
  have ds: "set ds = {ex_dict}" "length ds = 4" "ds \<noteq> []" by (simp_all add: ds_def)
  have "dict_entries ex_dict \<noteq> []" using ex_dict_ok(4) by auto
  moreover have "scan_mask ex_dict = mask 2"
    by (simp add: scan_mask_def ex_dict_def mask_eq_exp_minus_1)
  ultimately obtain out0 where "scanRun ds (scan_cursor 2 0) = Some (out0, scan_cursor 2 (2 ^ 2))"
    using scanRun_cursor [of ds 2 0] ex_dict_ok(1) ds by auto
  then have end_0: "scanRun ds 0 = Some (out0, 0)"
    using scan_cursor_end [of 2] by (simp only: scan_cursor_0)
  have "\<forall>d \<in> set ds. dict_ok d \<and> dictHashKey d = dictHashKey ex_dict"
    by (simp add: ex_dict_ok ds)
  from dictScan_complete [OF this ds(3)] obtain out v' where "scanRun ds 0 = Some (out, v')"
    "v' = 0 \<longrightarrow> (\<Inter>d \<in> set ds. de_key ` set (dict_entries d)) \<subseteq> de_key ` set out"
    by blast
  with end_0 have "\<exists>out. scanRun ds 0 = Some (out, 0) \<and> de_key ` set (dict_entries ex_dict) \<subseteq> de_key ` set out"
    by (auto simp: ds)
  then show ?thesis by (simp only: ds_def)
qed

end
