(* ===== verification/Adlist.thy ===== *)
theory Adlist
  imports Redis_Prelude Refinement "HOL-Library.Monad_Syntax"
begin

text \<open>
  The doubly linked list of \<^verbatim>\<open>src/redis/redis-6.2.6-annotation/src/adlist.c\<close> and
  \<^verbatim>\<open>adlist.h\<close>.  Nodes live in a heap, a partial map from addresses to node records, and
  every operation reads and writes it the way the code does; \<open>None\<close> is the result of
  following a null or dangling pointer, of undefined arithmetic and of a loop that does not end.
  The allocator is an argument: \<open>alloc h\<close> is the address \<^verbatim>\<open>zmalloc\<close> returns, or \<open>None\<close> for a
  null result.  The \<^verbatim>\<open>free\<close> method only releases memory that the values own and has no
  counterpart.  The invariant \<open>dll\<close> says that the nodes form a chain in both directions, and
  the operations are shown to do to the sequence of values what their comments promise.
\<close>

section \<open>Data\<close>

record 'a listNode =
  ln_prev :: "nat option"
  ln_next :: "nat option"
  ln_value :: 'a

type_synonym 'a node_heap = "nat \<Rightarrow> 'a listNode option"

type_synonym 'a node_alloc = "'a node_heap \<Rightarrow> nat option"

datatype list_direction = AL_START_HEAD | AL_START_TAIL

record listIter =
  it_next :: "nat option"
  it_direction :: list_direction

record 'a adlist =
  l_head :: "nat option"
  l_tail :: "nat option"
  l_dup :: "('a \<Rightarrow> 'a option) option"
  l_match :: "('a \<Rightarrow> 'a \<Rightarrow> bool) option"
  l_len :: uint64

text \<open>Reading and updating the node behind a pointer.\<close>

definition ld :: "'a node_heap \<Rightarrow> nat option \<Rightarrow> 'a listNode option" where
  "ld h p = (case p of None \<Rightarrow> None | Some a \<Rightarrow> h a)"

definition set_next :: "'a node_heap \<Rightarrow> nat option \<Rightarrow> nat option \<Rightarrow> 'a node_heap option" where
  "set_next h p q = (case p of None \<Rightarrow> None
     | Some a \<Rightarrow> map_option (\<lambda>n. h(a \<mapsto> n\<lparr>ln_next := q\<rparr>)) (h a))"

definition set_prev :: "'a node_heap \<Rightarrow> nat option \<Rightarrow> nat option \<Rightarrow> 'a node_heap option" where
  "set_prev h p q = (case p of None \<Rightarrow> None
     | Some a \<Rightarrow> map_option (\<lambda>n. h(a \<mapsto> n\<lparr>ln_prev := q\<rparr>)) (h a))"

section \<open>Operations\<close>

definition listCreate :: "'a adlist" where
  "listCreate = \<lparr>l_head = None, l_tail = None, l_dup = None, l_match = None, l_len = 0\<rparr>"

fun listEmptyLoop :: "'a node_heap \<Rightarrow> nat \<Rightarrow> nat option \<Rightarrow> 'a node_heap option" where
  "listEmptyLoop h 0 current = Some h"
| "listEmptyLoop h (Suc len) current =
     do {
       n \<leftarrow> ld h current;
       a \<leftarrow> current;
       listEmptyLoop (h(a := None)) len (ln_next n)
     }"

definition listEmpty :: "'a node_heap \<Rightarrow> 'a adlist \<Rightarrow> ('a node_heap \<times> 'a adlist) option" where
  "listEmpty h l =
     do {
       h' \<leftarrow> listEmptyLoop h (unat (l_len l)) (l_head l);
       Some (h', l\<lparr>l_head := None, l_tail := None, l_len := 0\<rparr>)
     }"

definition listRelease :: "'a node_heap \<Rightarrow> 'a adlist \<Rightarrow> 'a node_heap option" where
  "listRelease h l = map_option fst (listEmpty h l)"

text \<open>The boolean of an insertion is whether the C function returns the list or null.\<close>

definition listAddNodeHead ::
    "'a node_alloc \<Rightarrow> 'a node_heap \<Rightarrow> 'a adlist \<Rightarrow> 'a \<Rightarrow> ('a node_heap \<times> 'a adlist \<times> bool) option" where
  "listAddNodeHead alloc h l v =
     (case alloc h of None \<Rightarrow> Some (h, l, False)
      | Some node \<Rightarrow>
          if l_len l = 0 then
            Some (h(node \<mapsto> \<lparr>ln_prev = None, ln_next = None, ln_value = v\<rparr>),
                  l\<lparr>l_head := Some node, l_tail := Some node, l_len := l_len l + 1\<rparr>, True)
          else do {
            let h1 = h(node \<mapsto> \<lparr>ln_prev = None, ln_next = l_head l, ln_value = v\<rparr>);
            h2 \<leftarrow> set_prev h1 (l_head l) (Some node);
            Some (h2, l\<lparr>l_head := Some node, l_len := l_len l + 1\<rparr>, True)
          })"

definition listAddNodeTail ::
    "'a node_alloc \<Rightarrow> 'a node_heap \<Rightarrow> 'a adlist \<Rightarrow> 'a \<Rightarrow> ('a node_heap \<times> 'a adlist \<times> bool) option" where
  "listAddNodeTail alloc h l v =
     (case alloc h of None \<Rightarrow> Some (h, l, False)
      | Some node \<Rightarrow>
          if l_len l = 0 then
            Some (h(node \<mapsto> \<lparr>ln_prev = None, ln_next = None, ln_value = v\<rparr>),
                  l\<lparr>l_head := Some node, l_tail := Some node, l_len := l_len l + 1\<rparr>, True)
          else do {
            let h1 = h(node \<mapsto> \<lparr>ln_prev = l_tail l, ln_next = None, ln_value = v\<rparr>);
            h2 \<leftarrow> set_next h1 (l_tail l) (Some node);
            Some (h2, l\<lparr>l_tail := Some node, l_len := l_len l + 1\<rparr>, True)
          })"

definition listInsertNode ::
    "'a node_alloc \<Rightarrow> 'a node_heap \<Rightarrow> 'a adlist \<Rightarrow> nat \<Rightarrow> 'a \<Rightarrow> bool \<Rightarrow>
     ('a node_heap \<times> 'a adlist \<times> bool) option" where
  "listInsertNode alloc h l old_node v after =
     (case alloc h of None \<Rightarrow> Some (h, l, False)
      | Some node \<Rightarrow>
          do {
            old \<leftarrow> h old_node;
            let n = (if after then \<lparr>ln_prev = Some old_node, ln_next = ln_next old, ln_value = v\<rparr>
                     else \<lparr>ln_prev = ln_prev old, ln_next = Some old_node, ln_value = v\<rparr>);
            let l1 = (if after then (if l_tail l = Some old_node then l\<lparr>l_tail := Some node\<rparr> else l)
                      else (if l_head l = Some old_node then l\<lparr>l_head := Some node\<rparr> else l));
            let h1 = h(node \<mapsto> n);
            h2 \<leftarrow> (if ln_prev n \<noteq> None then set_next h1 (ln_prev n) (Some node) else Some h1);
            h3 \<leftarrow> (if ln_next n \<noteq> None then set_prev h2 (ln_next n) (Some node) else Some h2);
            Some (h3, l1\<lparr>l_len := l_len l1 + 1\<rparr>, True)
          })"

definition listDelNode ::
    "'a node_heap \<Rightarrow> 'a adlist \<Rightarrow> nat \<Rightarrow> ('a node_heap \<times> 'a adlist) option" where
  "listDelNode h l node =
     do {
       n \<leftarrow> h node;
       (h1, l1) \<leftarrow> (if ln_prev n \<noteq> None
                    then map_option (\<lambda>h'. (h', l)) (set_next h (ln_prev n) (ln_next n))
                    else Some (h, l\<lparr>l_head := ln_next n\<rparr>));
       n1 \<leftarrow> h1 node;
       (h2, l2) \<leftarrow> (if ln_next n1 \<noteq> None
                    then map_option (\<lambda>h'. (h', l1)) (set_prev h1 (ln_next n1) (ln_prev n1))
                    else Some (h1, l1\<lparr>l_tail := ln_prev n1\<rparr>));
       Some (h2(node := None), l2\<lparr>l_len := l_len l2 - 1\<rparr>)
     }"

definition listGetIterator :: "'a adlist \<Rightarrow> list_direction \<Rightarrow> listIter" where
  "listGetIterator l dir =
     \<lparr>it_next = (if dir = AL_START_HEAD then l_head l else l_tail l), it_direction = dir\<rparr>"

definition listRewind :: "'a adlist \<Rightarrow> listIter" where
  "listRewind l = \<lparr>it_next = l_head l, it_direction = AL_START_HEAD\<rparr>"

definition listRewindTail :: "'a adlist \<Rightarrow> listIter" where
  "listRewindTail l = \<lparr>it_next = l_tail l, it_direction = AL_START_TAIL\<rparr>"

definition listNext :: "'a node_heap \<Rightarrow> listIter \<Rightarrow> (nat option \<times> listIter) option" where
  "listNext h it =
     (case it_next it of None \<Rightarrow> Some (None, it)
      | Some current \<Rightarrow>
          do {
            n \<leftarrow> h current;
            Some (Some current,
                  it\<lparr>it_next := (if it_direction it = AL_START_HEAD then ln_next n else ln_prev n)\<rparr>)
          })"

partial_function (option) listDupLoop ::
    "'a node_alloc \<Rightarrow> 'a node_heap \<Rightarrow> 'a adlist \<Rightarrow> listIter \<Rightarrow> ('a node_heap \<times> 'a adlist option) option" where
  "listDupLoop alloc h copy it =
     do {
       (node, it') \<leftarrow> listNext h it;
       case node of None \<Rightarrow> Some (h, Some copy)
       | Some a \<Rightarrow>
           do {
             n \<leftarrow> h a;
             case (case l_dup copy of Some dup \<Rightarrow> dup (ln_value n) | None \<Rightarrow> Some (ln_value n)) of
               None \<Rightarrow> do { h' \<leftarrow> listRelease h copy; Some (h', None) }
             | Some v \<Rightarrow>
                 do {
                   (h', copy', added) \<leftarrow> listAddNodeTail alloc h copy v;
                   if added then listDupLoop alloc h' copy' it'
                   else do { h'' \<leftarrow> listRelease h' copy'; Some (h'', None) }
                 }
           }
     }"

definition listDup ::
    "'a node_alloc \<Rightarrow> 'a node_heap \<Rightarrow> 'a adlist \<Rightarrow> ('a node_heap \<times> 'a adlist option) option" where
  "listDup alloc h orig =
     listDupLoop alloc h (listCreate\<lparr>l_dup := l_dup orig, l_match := l_match orig\<rparr>) (listRewind orig)"

partial_function (option) listSearchLoop ::
    "'a node_heap \<Rightarrow> 'a adlist \<Rightarrow> 'a \<Rightarrow> listIter \<Rightarrow> (nat option) option" where
  "listSearchLoop h l key it =
     do {
       (node, it') \<leftarrow> listNext h it;
       case node of None \<Rightarrow> Some None
       | Some a \<Rightarrow>
           do {
             n \<leftarrow> h a;
             if (case l_match l of Some mt \<Rightarrow> mt (ln_value n) key | None \<Rightarrow> key = ln_value n)
             then Some (Some a)
             else listSearchLoop h l key it'
           }
     }"

definition listSearchKey :: "'a node_heap \<Rightarrow> 'a adlist \<Rightarrow> 'a \<Rightarrow> (nat option) option" where
  "listSearchKey h l key = listSearchLoop h l key (listRewind l)"

text \<open>The loops \<^verbatim>\<open>while(index-- && n)\<close>; negating the least \<^verbatim>\<open>long\<close> is undefined.\<close>

fun listIndexLoop :: "('a listNode \<Rightarrow> nat option) \<Rightarrow> 'a node_heap \<Rightarrow> nat \<Rightarrow> nat option \<Rightarrow> (nat option) option" where
  "listIndexLoop step h 0 n = Some n"
| "listIndexLoop step h (Suc k) None = Some None"
| "listIndexLoop step h (Suc k) (Some a) = do { n \<leftarrow> h a; listIndexLoop step h k (step n) }"

definition listIndex :: "'a node_heap \<Rightarrow> 'a adlist \<Rightarrow> int \<Rightarrow> (nat option) option" where
  "listIndex h l index =
     (if index < 0 then
        if index = LLONG_MIN then None
        else listIndexLoop ln_prev h (nat (- index - 1)) (l_tail l)
      else listIndexLoop ln_next h (nat index) (l_head l))"

definition listRotateTailToHead :: "'a node_heap \<Rightarrow> 'a adlist \<Rightarrow> ('a node_heap \<times> 'a adlist) option" where
  "listRotateTailToHead h l =
     (if l_len l \<le> 1 then Some (h, l)
      else do {
        let tail = l_tail l;
        t \<leftarrow> ld h tail;
        let l1 = l\<lparr>l_tail := ln_prev t\<rparr>;
        h1 \<leftarrow> set_next h (l_tail l1) None;
        h2 \<leftarrow> set_prev h1 (l_head l1) tail;
        h3 \<leftarrow> set_prev h2 tail None;
        h4 \<leftarrow> set_next h3 tail (l_head l1);
        Some (h4, l1\<lparr>l_head := tail\<rparr>)
      })"

definition listRotateHeadToTail :: "'a node_heap \<Rightarrow> 'a adlist \<Rightarrow> ('a node_heap \<times> 'a adlist) option" where
  "listRotateHeadToTail h l =
     (if l_len l \<le> 1 then Some (h, l)
      else do {
        let head = l_head l;
        n \<leftarrow> ld h head;
        let l1 = l\<lparr>l_head := ln_next n\<rparr>;
        h1 \<leftarrow> set_prev h (l_head l1) None;
        h2 \<leftarrow> set_next h1 (l_tail l1) head;
        h3 \<leftarrow> set_next h2 head None;
        h4 \<leftarrow> set_prev h3 head (l_tail l1);
        Some (h4, l1\<lparr>l_tail := head\<rparr>)
      })"

text \<open>\<open>listJoin h l r\<close> moves the nodes of \<open>r\<close> (C: \<^verbatim>\<open>o\<close>) to the end of \<open>l\<close>.\<close>

definition listJoin ::
    "'a node_heap \<Rightarrow> 'a adlist \<Rightarrow> 'a adlist \<Rightarrow> ('a node_heap \<times> 'a adlist \<times> 'a adlist) option" where
  "listJoin h l r =
     (if l_len r = 0 then Some (h, l, r)
      else do {
        h1 \<leftarrow> set_prev h (l_head r) (l_tail l);
        (h2, l1) \<leftarrow> (if l_tail l \<noteq> None
                     then map_option (\<lambda>h'. (h', l)) (set_next h1 (l_tail l) (l_head r))
                     else Some (h1, l\<lparr>l_head := l_head r\<rparr>));
        Some (h2, l1\<lparr>l_tail := l_tail r, l_len := l_len l1 + l_len r\<rparr>,
              r\<lparr>l_head := None, l_tail := None, l_len := 0\<rparr>)
      })"

section \<open>Chains\<close>

text \<open>
  \<open>dseg h p as q\<close>: the addresses \<open>as\<close> are linked in both directions, the first one's \<open>prev\<close> is \<open>p\<close>
  and the last one's \<open>next\<close> is \<open>q\<close>.
\<close>

definition first_of :: "nat list \<Rightarrow> nat option \<Rightarrow> nat option" where
  "first_of as q = (case as of [] \<Rightarrow> q | a # _ \<Rightarrow> Some a)"

definition last_of :: "nat option \<Rightarrow> nat list \<Rightarrow> nat option" where
  "last_of p as = (if as = [] then p else Some (last as))"

fun dseg :: "'a node_heap \<Rightarrow> nat option \<Rightarrow> nat list \<Rightarrow> nat option \<Rightarrow> bool" where
  "dseg h p [] q = True"
| "dseg h p (a # as) q \<longleftrightarrow>
     (case h a of None \<Rightarrow> False
      | Some n \<Rightarrow> ln_prev n = p \<and> ln_next n = first_of as q \<and> dseg h (Some a) as q)"

definition dll :: "'a node_heap \<Rightarrow> 'a adlist \<Rightarrow> nat list \<Rightarrow> bool" where
  "dll h l as \<longleftrightarrow> dseg h None as None \<and> distinct as \<and> l_head l = first_of as None \<and>
     l_tail l = last_of None as \<and> length as < 2 ^ 64 \<and> l_len l = of_nat (length as)"

definition values_at :: "'a node_heap \<Rightarrow> nat list \<Rightarrow> 'a list" where
  "values_at h as = map (\<lambda>a. ln_value (the (h a))) as"

lemma first_of_simps [simp]: "first_of [] q = q" "first_of (a # as) q = Some a"
  by (simp_all add: first_of_def)

lemma last_of_simps [simp]: "last_of p [] = p" "last_of p (a # as) = last_of (Some a) as"
    "last_of p (as @ [a]) = Some a"
  by (simp_all add: last_of_def)

lemma first_of_append: "first_of (as @ bs) q = first_of as (first_of bs q)"
  by (cases as) simp_all

lemma last_of_append: "last_of p (as @ bs) = last_of (last_of p as) bs"
  by (simp add: last_of_def)

lemma dseg_append: "dseg h p (as @ bs) q \<longleftrightarrow> dseg h p as (first_of bs q) \<and> dseg h (last_of p as) bs q"
  by (induction as arbitrary: p) (auto simp: first_of_append split: option.splits)

lemma dseg_frame: "(\<And>a. a \<in> set as \<Longrightarrow> h' a = h a) \<Longrightarrow> dseg h' p as q = dseg h p as q"
  by (induction as arbitrary: p) (auto split: option.splits)

lemma dseg_upd [simp]: "a \<notin> set as \<Longrightarrow> dseg (h(a := x)) p as q = dseg h p as q"
  by (rule dseg_frame) auto

lemma values_at_upd [simp]: "a \<notin> set as \<Longrightarrow> values_at (h(a := x)) as = values_at h as"
  by (auto simp: values_at_def)

lemma values_at_simps [simp]:
  "values_at h [] = []" "values_at h (a # as) = ln_value (the (h a)) # values_at h as"
  "values_at h (as @ bs) = values_at h as @ values_at h bs"
  by (simp_all add: values_at_def)

lemma dseg_dom: "dseg h p as q \<Longrightarrow> a \<in> set as \<Longrightarrow> h a \<noteq> None"
  by (induction as arbitrary: p) (auto split: option.splits)

text \<open>Changing links only: the values at every address stay.\<close>

definition same_values :: "'a node_heap \<Rightarrow> 'a node_heap \<Rightarrow> bool" where
  "same_values h h' \<longleftrightarrow> (\<forall>c. map_option ln_value (h' c) = map_option ln_value (h c))"

lemma same_values_at: "same_values h h' \<Longrightarrow> values_at h' as = values_at h as"
proof -
  assume same: "same_values h h'"
  have "ln_value (the (h' a)) = ln_value (the (h a))" for a
    using same [unfolded same_values_def, THEN spec, of a] by (cases "h a"; cases "h' a") auto
  then show ?thesis by (simp add: values_at_def)
qed

lemma same_values_dom: "same_values h h' \<Longrightarrow> dom h' = dom h"
proof -
  assume same: "same_values h h'"
  have "h' a = None \<longleftrightarrow> h a = None" for a
    using same [unfolded same_values_def, THEN spec, of a] by (cases "h a"; cases "h' a") auto
  then show ?thesis by (auto simp: dom_def)
qed

lemma same_values_trans: "same_values h h' \<Longrightarrow> same_values h' h'' \<Longrightarrow> same_values h h''"
  by (simp add: same_values_def)

lemma set_next_last:
  assumes "dseg h p (xs @ [b]) q" "b \<notin> set xs"
  shows "\<exists>h'. set_next h (Some b) q' = Some h' \<and> dseg h' p (xs @ [b]) q' \<and> same_values h h' \<and>
    (\<forall>c. c \<noteq> b \<longrightarrow> h' c = h c)"
proof -
  from assms(1) obtain n where n: "h b = Some n" "ln_prev n = last_of p xs" "dseg h p xs (Some b)"
    by (auto simp: dseg_append split: option.splits)
  define h' where "h' = h(b \<mapsto> n\<lparr>ln_next := q'\<rparr>)"
  have "dseg h' p (xs @ [b]) q'" using n assms(2) by (simp add: h'_def dseg_append)
  moreover have "set_next h (Some b) q' = Some h'" using n by (simp add: set_next_def h'_def)
  ultimately show ?thesis using n by (auto simp: h'_def same_values_def)
qed

lemma set_prev_first:
  assumes "dseg h p (b # ys) q" "b \<notin> set ys"
  shows "\<exists>h'. set_prev h (Some b) p' = Some h' \<and> dseg h' p' (b # ys) q \<and> same_values h h' \<and>
    (\<forall>c. c \<noteq> b \<longrightarrow> h' c = h c)"
proof -
  from assms(1) obtain n where n: "h b = Some n" "ln_next n = first_of ys q" "dseg h (Some b) ys q"
    by (auto split: option.splits)
  define h' where "h' = h(b \<mapsto> n\<lparr>ln_prev := p'\<rparr>)"
  have "dseg h' p' (b # ys) q" using n assms(2) by (simp add: h'_def)
  moreover have "set_prev h (Some b) p' = Some h'" using n by (simp add: set_prev_def h'_def)
  ultimately show ?thesis using n by (auto simp: h'_def same_values_def)
qed

text \<open>The two guarded assignments that link a left part and a right part.\<close>

lemma relink_left:
  assumes "dseg h None xs q" "distinct xs"
  shows "\<exists>h'. (if last_of None xs \<noteq> None then set_next h (last_of None xs) q' else Some h) = Some h' \<and>
    dseg h' None xs q' \<and> same_values h h' \<and> (\<forall>c. c \<notin> set xs \<longrightarrow> h' c = h c)"
proof (cases xs rule: rev_cases)
  case Nil
  then show ?thesis by (simp add: same_values_def)
next
  case (snoc zs b)
  with assms set_next_last [of h None zs b q q'] show ?thesis by auto
qed

lemma relink_right:
  assumes "dseg h p ys None" "distinct ys"
  shows "\<exists>h'. (if first_of ys None \<noteq> None then set_prev h (first_of ys None) p' else Some h) = Some h' \<and>
    dseg h' p' ys None \<and> same_values h h' \<and> (\<forall>c. c \<notin> set ys \<longrightarrow> h' c = h c)"
proof (cases ys)
  case Nil
  then show ?thesis by (simp add: same_values_def)
next
  case (Cons b zs)
  with assms set_prev_first [of h p b zs None p'] show ?thesis by auto
qed

lemma dll_len_zero: "dll h l as \<Longrightarrow> l_len l = 0 \<longleftrightarrow> as = []"
  using unat_of_nat_64 [of "length as"] by (auto simp: dll_def simp flip: unat_eq_zero)

lemma dll_fresh: "dll h l as \<Longrightarrow> h a = None \<Longrightarrow> a \<notin> set as"
  unfolding dll_def using dseg_dom by blast

lemma len_plus_1: "(of_nat (Suc n) :: uint64) = of_nat n + 1"
  by (simp add: add.commute)

section \<open>Insertion and deletion\<close>

lemma listAddNodeHead_correct:
  assumes "dll h l as" "alloc h = Some a" "h a = None" "Suc (length as) < 2 ^ 64"
  shows "\<exists>h' l'. listAddNodeHead alloc h l v = Some (h', l', True) \<and> dll h' l' (a # as) \<and>
    values_at h' (a # as) = v # values_at h as \<and> dom h' = insert a (dom h) \<and>
    (\<forall>c. c \<notin> set (a # as) \<longrightarrow> h' c = h c) \<and> l_dup l' = l_dup l \<and> l_match l' = l_match l"
proof (cases as)
  case Nil
  with assms show ?thesis by (auto simp: listAddNodeHead_def dll_def)
next
  case (Cons b bs)
  note a = dll_fresh [OF assms(1,3)]
  define h1 where "h1 = h(a \<mapsto> \<lparr>ln_prev = None, ln_next = Some b, ln_value = v\<rparr>)"
  have l: "l_head l = Some b" "l_len l \<noteq> 0" using assms(1) Cons dll_len_zero [OF assms(1)] by (simp_all add: dll_def)
  have "dseg h1 None as None" using assms(1) a by (simp add: h1_def dll_def)
  then obtain h' where h': "set_prev h1 (Some b) (Some a) = Some h'" "dseg h' (Some a) as None"
    "same_values h1 h'" "\<forall>c. c \<noteq> b \<longrightarrow> h' c = h1 c"
    using set_prev_first [of h1 None b bs None "Some a"] assms(1) Cons by (auto simp: dll_def)
  define l' where "l' = l\<lparr>l_head := Some a, l_len := l_len l + 1\<rparr>"
  have ha: "h' a = Some \<lparr>ln_prev = None, ln_next = Some b, ln_value = v\<rparr>"
    using h'(4) a Cons by (auto simp: h1_def)
  have run: "listAddNodeHead alloc h l v = Some (h', l', True)"
    using assms(2) l h'(1) by (simp add: listAddNodeHead_def h1_def l'_def)
  have "dll h' l' (a # as)"
    using assms(1,4) a ha h'(2) Cons len_plus_1 [of "length as"] by (simp add: dll_def l'_def)
  moreover have "values_at h' (a # as) = v # values_at h as"
    unfolding same_values_at [OF h'(3)] using a by (simp add: h1_def)
  moreover have "dom h' = insert a (dom h)"
    using same_values_dom [OF h'(3)] by (simp add: h1_def)
  moreover have "\<forall>c. c \<notin> set (a # as) \<longrightarrow> h' c = h c" using h'(4) Cons by (simp add: h1_def)
  ultimately show ?thesis using run by (simp add: l'_def)
qed

lemma listAddNodeTail_correct:
  assumes "dll h l as" "alloc h = Some a" "h a = None" "Suc (length as) < 2 ^ 64"
  shows "\<exists>h' l'. listAddNodeTail alloc h l v = Some (h', l', True) \<and> dll h' l' (as @ [a]) \<and>
    values_at h' (as @ [a]) = values_at h as @ [v] \<and> dom h' = insert a (dom h) \<and>
    (\<forall>c. c \<notin> set (a # as) \<longrightarrow> h' c = h c) \<and> l_dup l' = l_dup l \<and> l_match l' = l_match l"
proof (cases as rule: rev_cases)
  case Nil
  with assms show ?thesis by (auto simp: listAddNodeTail_def dll_def)
next
  case (snoc bs b)
  note a = dll_fresh [OF assms(1,3)]
  define h1 where "h1 = h(a \<mapsto> \<lparr>ln_prev = Some b, ln_next = None, ln_value = v\<rparr>)"
  have l: "l_tail l = Some b" "l_len l \<noteq> 0" using assms(1) snoc dll_len_zero [OF assms(1)] by (simp_all add: dll_def)
  have "dseg h1 None as None" using assms(1) a by (simp add: h1_def dll_def)
  then obtain h' where h': "set_next h1 (Some b) (Some a) = Some h'" "dseg h' None as (Some a)"
    "same_values h1 h'" "\<forall>c. c \<noteq> b \<longrightarrow> h' c = h1 c"
    using set_next_last [of h1 None bs b None "Some a"] assms(1) snoc by (auto simp: dll_def)
  define l' where "l' = l\<lparr>l_tail := Some a, l_len := l_len l + 1\<rparr>"
  have ha: "h' a = Some \<lparr>ln_prev = Some b, ln_next = None, ln_value = v\<rparr>"
    using h'(4) a snoc by (auto simp: h1_def)
  have run: "listAddNodeTail alloc h l v = Some (h', l', True)"
    using assms(2) l h'(1) by (simp add: listAddNodeTail_def h1_def l'_def)
  have "dseg h' None (as @ [a]) None" unfolding dseg_append using ha h'(2) snoc by simp
  then have "dll h' l' (as @ [a])"
    using assms(1,4) a snoc len_plus_1 [of "length as"] by (simp add: dll_def l'_def first_of_append last_of_append)
  moreover have "values_at h' (as @ [a]) = values_at h as @ [v]"
    unfolding same_values_at [OF h'(3)] using a by (simp add: h1_def)
  moreover have "dom h' = insert a (dom h)"
    using same_values_dom [OF h'(3)] by (simp add: h1_def)
  moreover have "\<forall>c. c \<notin> set (a # as) \<longrightarrow> h' c = h c" using h'(4) snoc by (simp add: h1_def)
  ultimately show ?thesis using run by (simp add: l'_def)
qed

lemma listInsertNode_after:
  assumes "dll h l (xs @ b # ys)" "alloc h = Some a" "h a = None" "Suc (length (xs @ b # ys)) < 2 ^ 64"
  shows "\<exists>h' l'. listInsertNode alloc h l b v True = Some (h', l', True) \<and> dll h' l' (xs @ b # a # ys) \<and>
    values_at h' (xs @ b # a # ys) = values_at h (xs @ [b]) @ v # values_at h ys \<and> dom h' = insert a (dom h)"
proof -
  note a = dll_fresh [OF assms(1,3)]
  from assms(1) obtain n where n: "h b = Some n" "ln_prev n = last_of None xs" "ln_next n = first_of ys None"
    "dseg h None (xs @ [b]) (first_of ys None)" "dseg h (Some b) ys None"
    by (auto simp: dll_def dseg_append split: option.splits)
  have dist: "distinct (xs @ [b])" "distinct ys" "set (xs @ [b]) \<inter> set ys = {}"
    using assms(1) by (auto simp: dll_def)
  define h1 where "h1 = h(a \<mapsto> \<lparr>ln_prev = Some b, ln_next = first_of ys None, ln_value = v\<rparr>)"
  have "dseg h1 None (xs @ [b]) (first_of ys None)" using n(4) a by (simp add: h1_def)
  then obtain h2 where h2: "set_next h1 (Some b) (Some a) = Some h2" "dseg h2 None (xs @ [b]) (Some a)"
    "same_values h1 h2" "\<forall>c. c \<noteq> b \<longrightarrow> h2 c = h1 c"
    using set_next_last [of h1 None xs b "first_of ys None" "Some a"] dist by auto
  have "dseg h2 (Some b) ys None"
    using n(5) h2(4) a dist by (subst dseg_frame [of _ _ h]) (auto simp: h1_def)
  then obtain h3 where h3: "(if first_of ys None \<noteq> None then set_prev h2 (first_of ys None) (Some a) else Some h2) = Some h3"
    "dseg h3 (Some a) ys None" "same_values h2 h3" "\<forall>c. c \<notin> set ys \<longrightarrow> h3 c = h2 c"
    using relink_right [of h2 "Some b" ys "Some a"] dist by auto
  have a3: "h3 a = h1 a" using h2(4) h3(4) a by auto
  have left: "dseg h3 None (xs @ [b]) (Some a)"
    using h2(2) h3(4) dist by (subst dseg_frame [of _ _ h2]) auto
  define l' where "l' = (if l_tail l = Some b then l\<lparr>l_tail := Some a\<rparr> else l)\<lparr>l_len := l_len l + 1\<rparr>"
  have run: "listInsertNode alloc h l b v True = Some (h3, l', True)"
    using assms(2) n(1,3) h2(1) h3(1)
    by (cases "first_of ys None") (simp_all add: listInsertNode_def h1_def l'_def)
  have tail: "l_tail l = last_of None (xs @ b # ys)" using assms(1) by (simp add: dll_def)
  have "l_tail l' = last_of None (xs @ b # a # ys)"
  proof (cases ys rule: rev_cases)
    case Nil
    then show ?thesis using tail by (simp add: l'_def last_of_append)
  next
    case (snoc zs z)
    then have "z \<noteq> b" using dist by auto
    with snoc show ?thesis using tail by (simp add: l'_def last_of_append)
  qed
  moreover have "l_head l' = first_of (xs @ b # a # ys) None"
    using assms(1) by (simp add: dll_def l'_def first_of_append)
  moreover have "dseg h3 None ((xs @ [b]) @ a # ys) None"
    unfolding dseg_append [of _ _ "xs @ [b]"] using left h3(2) a3 by (simp add: h1_def)
  moreover have "l_len l' = of_nat (length (xs @ b # a # ys))"
    using assms(1) len_plus_1 [of "length (xs @ b # ys)"] by (simp add: dll_def l'_def)
  ultimately have "dll h3 l' (xs @ b # a # ys)"
    using assms(1,4) a by (simp add: dll_def)
  moreover have "values_at h3 (xs @ b # a # ys) = values_at h (xs @ [b]) @ v # values_at h ys"
    unfolding same_values_at [OF same_values_trans [OF h2(3) h3(3)]] using a by (auto simp: h1_def)
  moreover have "dom h3 = insert a (dom h)"
    using same_values_dom [OF same_values_trans [OF h2(3) h3(3)]] by (simp add: h1_def)
  ultimately show ?thesis using run by blast
qed

lemma listInsertNode_before:
  assumes "dll h l (xs @ b # ys)" "alloc h = Some a" "h a = None" "Suc (length (xs @ b # ys)) < 2 ^ 64"
  shows "\<exists>h' l'. listInsertNode alloc h l b v False = Some (h', l', True) \<and> dll h' l' (xs @ a # b # ys) \<and>
    values_at h' (xs @ a # b # ys) = values_at h xs @ v # values_at h (b # ys) \<and> dom h' = insert a (dom h)"
proof -
  note a = dll_fresh [OF assms(1,3)]
  from assms(1) obtain n where n: "h b = Some n" "ln_prev n = last_of None xs" "ln_next n = first_of ys None"
    "dseg h None xs (Some b)" "dseg h (last_of None xs) (b # ys) None"
    by (auto simp: dll_def dseg_append split: option.splits)
  have dist: "distinct xs" "b \<notin> set ys" "set xs \<inter> set (b # ys) = {}"
    using assms(1) by (auto simp: dll_def)
  define h1 where "h1 = h(a \<mapsto> \<lparr>ln_prev = last_of None xs, ln_next = Some b, ln_value = v\<rparr>)"
  have "dseg h1 None xs (Some b)" using n(4) a by (simp add: h1_def)
  then obtain h2 where h2: "(if last_of None xs \<noteq> None then set_next h1 (last_of None xs) (Some a) else Some h1) = Some h2"
    "dseg h2 None xs (Some a)" "same_values h1 h2" "\<forall>c. c \<notin> set xs \<longrightarrow> h2 c = h1 c"
    using relink_left [of h1 xs "Some b" "Some a"] dist by auto
  have "dseg h2 (last_of None xs) (b # ys) None"
    using n(5) h2(4) a dist by (subst dseg_frame [of _ _ h]) (auto simp: h1_def)
  then obtain h3 where h3: "set_prev h2 (Some b) (Some a) = Some h3"
    "dseg h3 (Some a) (b # ys) None" "same_values h2 h3" "\<forall>c. c \<noteq> b \<longrightarrow> h3 c = h2 c"
    using set_prev_first [of h2 "last_of None xs" b ys None "Some a"] dist by auto
  have a3: "h3 a = h1 a" using h2(4) h3(4) a by auto
  have left: "dseg h3 None xs (Some a)"
    using h2(2) h3(4) dist by (subst dseg_frame [of _ _ h2]) auto
  define l' where "l' = (if l_head l = Some b then l\<lparr>l_head := Some a\<rparr> else l)\<lparr>l_len := l_len l + 1\<rparr>"
  have run: "listInsertNode alloc h l b v False = Some (h3, l', True)"
    using assms(2) n(1,2) h2(1) h3(1)
    by (cases "last_of None xs") (simp_all add: listInsertNode_def h1_def l'_def)
  have "l_head l' = first_of (xs @ a # b # ys) None"
    using assms(1) dist by (cases xs) (auto simp: dll_def l'_def)
  moreover have "l_tail l' = last_of None (xs @ a # b # ys)"
    using assms(1) by (simp add: dll_def l'_def last_of_append)
  moreover have "dseg h3 None (xs @ a # b # ys) None"
    unfolding dseg_append [of _ _ xs] using left h3(2) a3 by (simp add: h1_def)
  moreover have "l_len l' = of_nat (length (xs @ a # b # ys))"
    using assms(1) len_plus_1 [of "length (xs @ b # ys)"] by (simp add: dll_def l'_def)
  ultimately have "dll h3 l' (xs @ a # b # ys)"
    using assms(1,4) a by (simp add: dll_def)
  moreover have "values_at h3 (xs @ a # b # ys) = values_at h xs @ v # values_at h (b # ys)"
    unfolding same_values_at [OF same_values_trans [OF h2(3) h3(3)]] using a by (auto simp: h1_def)
  moreover have "dom h3 = insert a (dom h)"
    using same_values_dom [OF same_values_trans [OF h2(3) h3(3)]] by (simp add: h1_def)
  ultimately show ?thesis using run by blast
qed

lemma len_minus_1: "n \<noteq> 0 \<Longrightarrow> (of_nat n - 1 :: uint64) = of_nat (n - 1)"
  by (cases n) simp_all

lemma listDelNode_correct:
  assumes "dll h l (xs @ a # ys)"
  shows "\<exists>h' l'. listDelNode h l a = Some (h', l') \<and> dll h' l' (xs @ ys) \<and>
    values_at h' (xs @ ys) = values_at h (xs @ ys) \<and> dom h' = dom h - {a}"
proof -
  from assms obtain n where n: "h a = Some n" "ln_prev n = last_of None xs" "ln_next n = first_of ys None"
    "dseg h None xs (Some a)" "dseg h (Some a) ys None"
    by (auto simp: dll_def dseg_append split: option.splits)
  have dist: "distinct xs" "distinct ys" "a \<notin> set xs" "a \<notin> set ys" "set xs \<inter> set ys = {}"
    using assms by (auto simp: dll_def)
  obtain h1 where h1: "(if last_of None xs \<noteq> None then set_next h (last_of None xs) (first_of ys None) else Some h) = Some h1"
    "dseg h1 None xs (first_of ys None)" "same_values h h1" "\<forall>c. c \<notin> set xs \<longrightarrow> h1 c = h c"
    using relink_left [OF n(4) dist(1), of "first_of ys None"] by auto
  have "dseg h1 (Some a) ys None"
    using n(5) h1(4) dist by (subst dseg_frame [of _ _ h]) auto
  then obtain h2 where h2: "(if first_of ys None \<noteq> None then set_prev h1 (first_of ys None) (last_of None xs) else Some h1) = Some h2"
    "dseg h2 (last_of None xs) ys None" "same_values h1 h2" "\<forall>c. c \<notin> set ys \<longrightarrow> h2 c = h1 c"
    using relink_right [OF _ dist(2), of h1 "Some a" "last_of None xs"] by auto
  have left: "dseg h2 None xs (first_of ys None)"
    using h1(2) h2(4) dist by (subst dseg_frame [of _ _ h1]) auto
  have a1: "h1 a = Some n" using h1(4) n(1) dist by auto
  define l' where "l' = l\<lparr>l_head := (if xs = [] then first_of ys None else l_head l),
    l_tail := (if ys = [] then last_of None xs else l_tail l), l_len := l_len l - 1\<rparr>"
  have run: "listDelNode h l a = Some (h2(a := None), l')"
    using n(1-3) a1 h1(1) h2(1)
    by (cases xs; cases ys) (auto simp: listDelNode_def l'_def last_of_def)
  have "l_len l' = of_nat (length (xs @ ys))"
    using assms len_minus_1 [of "length (xs @ a # ys)"] by (simp add: dll_def l'_def)
  moreover have "l_head l' = first_of (xs @ ys) None"
    using assms by (cases xs) (simp_all add: dll_def l'_def)
  moreover have "l_tail l' = last_of None (xs @ ys)"
    using assms by (cases ys rule: rev_cases) (simp_all add: dll_def l'_def last_of_append)
  ultimately have "dll (h2(a := None)) l' (xs @ ys)"
    using assms left h2(2) dist by (simp add: dll_def dseg_append)
  moreover have "values_at (h2(a := None)) (xs @ ys) = values_at h (xs @ ys)"
    using dist by (simp add: same_values_at [OF same_values_trans [OF h1(3) h2(3)]])
  moreover have "dom (h2(a := None)) = dom h - {a}"
    using same_values_dom [OF same_values_trans [OF h1(3) h2(3)]] by simp
  ultimately show ?thesis using run by blast
qed

section \<open>Rotation and joining\<close>

lemma len_le_1: "dll h l as \<Longrightarrow> l_len l \<le> 1 \<longleftrightarrow> length as \<le> 1"
  using unat_of_nat_64 [of "length as"] by (simp add: dll_def word_le_nat_alt)

lemma listRotateTailToHead_correct:
  assumes "dll h l as"
  shows "\<exists>h' l'. listRotateTailToHead h l = Some (h', l') \<and>
    (let as' = (if length as \<le> 1 then as else last as # butlast as) in
     dll h' l' as' \<and> values_at h' as' = (if length as \<le> 1 then values_at h as
       else last (values_at h as) # butlast (values_at h as))) \<and> dom h' = dom h"
proof (cases "length as \<le> 1")
  case True
  with assms len_le_1 [OF assms] show ?thesis by (simp add: listRotateTailToHead_def)
next
  case False
  then obtain x xs' t where as0: "as = (x # xs') @ [t]"
    by (cases as rule: rev_cases; cases "butlast as") auto
  define xs where "xs = x # xs'"
  note as = as0 [folded xs_def]
  obtain n where n: "h t = Some n" "ln_prev n = last_of None xs" "dseg h None xs (Some t)"
    using assms as by (auto simp: dll_def dseg_append split: option.splits)
  have dist: "distinct xs" "t \<notin> set xs" using assms as by (auto simp: dll_def)
  have ends: "l_tail l = Some t" "l_head l = Some x" "\<not> l_len l \<le> 1"
    using assms as False len_le_1 [OF assms] by (simp_all add: dll_def xs_def last_of_append)
  obtain h1 where h1: "set_next h (last_of None xs) None = Some h1" "dseg h1 None xs None" "same_values h h1"
    "\<forall>c. c \<notin> set xs \<longrightarrow> h1 c = h c"
    using relink_left [OF n(3) dist(1), of None] by (auto simp: xs_def last_of_def split: if_splits)
  obtain h2 where h2: "set_prev h1 (Some x) (Some t) = Some h2" "dseg h2 (Some t) xs None" "same_values h1 h2"
    "\<forall>c. c \<notin> set xs \<longrightarrow> h2 c = h1 c"
    using relink_right [OF h1(2) dist(1), of "Some t"] by (auto simp: xs_def)
  define n' where "n' = n\<lparr>ln_prev := None, ln_next := Some x\<rparr>"
  have t2: "h2 t = Some n" using n(1) h1(4) h2(4) dist(2) by simp
  have run: "listRotateTailToHead h l = Some (h2(t \<mapsto> n'), l\<lparr>l_tail := last_of None xs, l_head := Some t\<rparr>)"
    using n(1,2) ends h1(1) h2(1) t2
    by (simp add: listRotateTailToHead_def ld_def set_prev_def [of _ "Some t"] set_next_def [of _ "Some t"] n'_def)
  have same: "same_values h (h2(t \<mapsto> n'))"
    using same_values_trans [OF h1(3) h2(3)] n(1) by (simp add: same_values_def n'_def)
  have "dll (h2(t \<mapsto> n')) (l\<lparr>l_tail := last_of None xs, l_head := Some t\<rparr>) (t # xs)"
    using assms as dist h2(2) by (simp add: dll_def n'_def) (simp add: xs_def last_of_def)
  moreover have "ln_value n' = ln_value (the (h t))" using n(1) by (simp add: n'_def)
  ultimately show ?thesis
    using run False as same_values_at [OF same] same_values_dom [OF same] by (simp add: butlast_append)
qed

lemma listRotateHeadToTail_correct:
  assumes "dll h l as"
  shows "\<exists>h' l'. listRotateHeadToTail h l = Some (h', l') \<and>
    (let as' = (if length as \<le> 1 then as else tl as @ [hd as]) in
     dll h' l' as' \<and> values_at h' as' = (if length as \<le> 1 then values_at h as
       else tl (values_at h as) @ [hd (values_at h as)])) \<and> dom h' = dom h"
proof (cases "length as \<le> 1")
  case True
  with assms len_le_1 [OF assms] show ?thesis by (simp add: listRotateHeadToTail_def)
next
  case False
  then obtain t x xs' where as0: "as = t # x # xs'" by (cases as; cases "tl as") auto
  define xs where "xs = x # xs'"
  note as = as0 [folded xs_def]
  obtain n where n: "h t = Some n" "ln_next n = Some x" "dseg h (Some t) xs None"
    using assms as by (auto simp: dll_def xs_def split: option.splits)
  have dist: "distinct xs" "t \<notin> set xs" using assms as by (auto simp: dll_def)
  have ends: "l_tail l = last_of None xs" "l_head l = Some t" "\<not> l_len l \<le> 1"
    using assms as False len_le_1 [OF assms] by (simp_all add: dll_def xs_def)
  obtain h1 where h1: "set_prev h (Some x) None = Some h1" "dseg h1 None xs None" "same_values h h1"
    "\<forall>c. c \<notin> set xs \<longrightarrow> h1 c = h c"
    using relink_right [OF n(3) dist(1), of None] by (auto simp: xs_def)
  obtain h2 where h2: "set_next h1 (last_of None xs) (Some t) = Some h2" "dseg h2 None xs (Some t)" "same_values h1 h2"
    "\<forall>c. c \<notin> set xs \<longrightarrow> h2 c = h1 c"
    using relink_left [OF h1(2) dist(1), of "Some t"] by (auto simp: xs_def last_of_def split: if_splits)
  define n' where "n' = n\<lparr>ln_next := None, ln_prev := last_of None xs\<rparr>"
  have t2: "h2 t = Some n" using n(1) h1(4) h2(4) dist(2) by simp
  have run: "listRotateHeadToTail h l = Some (h2(t \<mapsto> n'), l\<lparr>l_head := Some x, l_tail := Some t\<rparr>)"
    using n(1,2) ends h1(1) h2(1) t2
    by (simp add: listRotateHeadToTail_def ld_def set_prev_def [of _ "Some t"] set_next_def [of _ "Some t"] n'_def)
  have same: "same_values h (h2(t \<mapsto> n'))"
    using same_values_trans [OF h1(3) h2(3)] n(1) by (simp add: same_values_def n'_def)
  have "dseg (h2(t \<mapsto> n')) None (xs @ [t]) None"
    unfolding dseg_append using h2(2) dist by (simp add: n'_def)
  then have "dll (h2(t \<mapsto> n')) (l\<lparr>l_head := Some x, l_tail := Some t\<rparr>) (xs @ [t])"
    using assms as dist by (simp add: dll_def first_of_append) (simp add: xs_def)
  moreover have "ln_value n' = ln_value (the (h t))" using n(1) by (simp add: n'_def)
  ultimately show ?thesis
    using run False as same_values_at [OF same] same_values_dom [OF same] by simp
qed

lemma listJoin_correct:
  assumes "dll h l as" "dll h r bs" "set as \<inter> set bs = {}" "length as + length bs < 2 ^ 64"
  shows "\<exists>h' l' r'. listJoin h l r = Some (h', l', r') \<and> dll h' l' (as @ bs) \<and> dll h' r' [] \<and>
    values_at h' (as @ bs) = values_at h as @ values_at h bs \<and> dom h' = dom h"
proof (cases "bs = []")
  case True
  with assms dll_len_zero [OF assms(2)] show ?thesis by (simp add: listJoin_def)
next
  case False
  then obtain b cs where bs: "bs = b # cs" by (cases bs) auto
  have L: "dseg h None as None" "distinct as" "l_head l = first_of as None" "l_tail l = last_of None as"
    "l_len l = of_nat (length as)" using assms(1) by (simp_all add: dll_def)
  have R: "dseg h None bs None" "distinct bs" "l_head r = Some b" "l_tail r = last_of None bs"
    "l_len r = of_nat (length bs)" "l_len r \<noteq> 0"
    using assms(2) bs False dll_len_zero [OF assms(2)] by (simp_all add: dll_def)
  obtain h1 where h1: "set_prev h (Some b) (last_of None as) = Some h1" "dseg h1 (last_of None as) bs None"
    "same_values h h1" "\<forall>c. c \<notin> set bs \<longrightarrow> h1 c = h c"
    using relink_right [OF R(1,2), of "last_of None as"] bs by auto
  have "dseg h1 None as None" using L(1) h1(4) assms(3) by (subst dseg_frame [of _ _ h]) auto
  then obtain h2 where h2: "(if last_of None as \<noteq> None then set_next h1 (last_of None as) (Some b) else Some h1) = Some h2"
    "dseg h2 None as (Some b)" "same_values h1 h2" "\<forall>c. c \<notin> set as \<longrightarrow> h2 c = h1 c"
    using relink_left [OF _ L(2), of h1 None "Some b"] by auto
  have right: "dseg h2 (last_of None as) bs None"
    using h1(2) h2(4) assms(3) by (subst dseg_frame [of _ _ h1]) auto
  define l' where "l' = l\<lparr>l_head := first_of (as @ bs) None, l_tail := last_of None (as @ bs),
    l_len := of_nat (length (as @ bs))\<rparr>"
  have "listJoin h l r = Some (h2, l', r\<lparr>l_head := None, l_tail := None, l_len := 0\<rparr>)"
    using L R h1(1) h2(1) bs by (cases as) (auto simp: listJoin_def l'_def last_of_append last_of_def)
  moreover have "dll h2 l' (as @ bs)"
    using h2(2) right L R assms(3,4) bs by (simp add: dll_def l'_def dseg_append)
  moreover have "values_at h2 (as @ bs) = values_at h as @ values_at h bs" "dom h2 = dom h"
    using same_values_trans [OF h1(3) h2(3)] same_values_at same_values_dom by fastforce+
  moreover have "dll h2 (r\<lparr>l_head := None, l_tail := None, l_len := 0\<rparr>) []" by (simp add: dll_def)
  ultimately show ?thesis by blast
qed

section \<open>Traversal\<close>

lemma listIndexLoop_next:
  "dseg h p as None \<Longrightarrow>
     listIndexLoop ln_next h k (first_of as None) = Some (if k < length as then Some (as ! k) else None)"
proof (induction k arbitrary: p as)
  case 0
  then show ?case by (cases as) simp_all
next
  case (Suc k)
  then show ?case by (cases as) (auto split: option.splits)
qed

lemma listIndexLoop_prev:
  "dseg h None as q \<Longrightarrow>
     listIndexLoop ln_prev h k (last_of None as) = Some (if k < length as then Some (rev as ! k) else None)"
proof (induction k arbitrary: as q)
  case 0
  then show ?case by (cases as rule: rev_cases) simp_all
next
  case (Suc k)
  then show ?case
    by (cases as rule: rev_cases) (auto simp: dseg_append split: option.splits)
qed

lemma listIndex_correct:
  assumes "dll h l as" "LLONG_MIN < i"
  shows "listIndex h l i = Some
    (if 0 \<le> i \<and> i < int (length as) then Some (as ! nat i)
     else if i < 0 \<and> - i \<le> int (length as) then Some (as ! nat (int (length as) + i))
     else None)"
proof -
  have "rev as ! nat (- i - 1) = as ! nat (int (length as) + i)" if "i < 0" "- i \<le> int (length as)"
  proof -
    have "length as - Suc (nat (- i - 1)) = nat (int (length as) + i)" using that by linarith
    with that show ?thesis by (subst rev_nth) (linarith, simp)
  qed
  then show ?thesis
    using assms listIndexLoop_next [of h None as "nat i"] listIndexLoop_prev [of h as None "nat (- i - 1)"]
    by (auto simp: listIndex_def dll_def nat_less_iff)
qed

lemma listSearchLoop_correct:
  "dseg h p as None \<Longrightarrow>
     listSearchLoop h l key \<lparr>it_next = first_of as None, it_direction = AL_START_HEAD\<rparr> =
     Some (List.find (\<lambda>a. case l_match l of Some mt \<Rightarrow> mt (ln_value (the (h a))) key
                         | None \<Rightarrow> key = ln_value (the (h a))) as)"
proof (induction as arbitrary: p)
  case Nil
  then show ?case by (subst listSearchLoop.simps) (simp add: listNext_def)
next
  case (Cons a as)
  then obtain n where "h a = Some n" "ln_next n = first_of as None" "dseg h (Some a) as None"
    by (auto split: option.splits)
  with Cons.IH [of "Some a"] show ?case
    by (subst listSearchLoop.simps) (auto simp: listNext_def split: option.splits)
qed

lemma listEmptyLoop_correct:
  "dseg h p as None \<Longrightarrow> distinct as \<Longrightarrow>
     listEmptyLoop h (length as) (first_of as None) = Some (\<lambda>c. if c \<in> set as then None else h c)"
proof (induction as arbitrary: h p)
  case (Cons a as)
  then obtain n where n: "h a = Some n" "ln_next n = first_of as None" "dseg h (Some a) as None"
    by (auto split: option.splits)
  have "dseg (h(a := None)) (Some a) as None" "distinct as" using n Cons.prems by simp_all
  then have "listEmptyLoop (h(a := None)) (length as) (first_of as None) =
      Some (\<lambda>c. if c \<in> set as then None else (h(a := None)) c)"
    by (rule Cons.IH)
  also have "\<dots> = Some (\<lambda>c. if c \<in> set (a # as) then None else h c)" by auto
  finally show ?case using n by (simp add: ld_def)
qed simp

lemma listEmpty_correct:
  assumes "dll h l as"
  shows "\<exists>l'. listEmpty h l = Some (\<lambda>c. if c \<in> set as then None else h c, l') \<and> dll h' l' [] \<and>
    l_dup l' = l_dup l \<and> l_match l' = l_match l"
  using assms listEmptyLoop_correct [of h None as] unat_of_nat_64 [of "length as"]
  by (auto simp: listEmpty_def dll_def)

section \<open>Duplication\<close>

locale allocator =
  fixes alloc :: "'a node_heap \<Rightarrow> nat option"
  assumes alloc_fresh: "finite (dom h) \<Longrightarrow> \<exists>a. alloc h = Some a \<and> h a = None"

definition dup_value :: "'a adlist \<Rightarrow> 'a \<Rightarrow> 'a option" where
  "dup_value l v = (case l_dup l of Some dup \<Rightarrow> dup v | None \<Rightarrow> Some v)"

context allocator
begin

lemma listDupLoop_correct:
  assumes "dseg h p as None" "dll h copy cs" "set as \<inter> set cs = {}" "finite (dom h)"
    and "length cs + length as < 2 ^ 64"
  shows "\<exists>h' res. listDupLoop alloc h copy \<lparr>it_next = first_of as None, it_direction = AL_START_HEAD\<rparr> = Some (h', res) \<and>
    (\<forall>c. c \<in> dom h - set cs \<longrightarrow> h' c = h c) \<and>
    (case res of None \<Rightarrow> dom h' = dom h - set cs \<and> (\<exists>v \<in> set (values_at h as). dup_value copy v = None)
     | Some copy' \<Rightarrow> \<exists>ds. dll h' copy' (cs @ ds) \<and> set ds \<inter> dom h = {} \<and> dom h' = dom h \<union> set ds \<and>
         values_at h' cs = values_at h cs \<and>
         map Some (values_at h' ds) = map (dup_value copy) (values_at h as))"
  using assms
proof (induction as arbitrary: h p copy cs)
  case Nil
  then show ?case
    by (subst listDupLoop.simps) (auto simp: listNext_def intro!: exI [of _ "[]"])
next
  case (Cons a as)
  then obtain n where n: "h a = Some n" "ln_next n = first_of as None" "dseg h (Some a) as None"
    by (auto split: option.splits)
  define it' where "it' = \<lparr>it_next = first_of as None, it_direction = AL_START_HEAD\<rparr>"
  have iter: "listNext h \<lparr>it_next = first_of (a # as) None, it_direction = AL_START_HEAD\<rparr> = Some (Some a, it')"
    using n by (simp add: listNext_def it'_def)
  show ?case
  proof (cases "dup_value copy (ln_value n)")
    case None
    obtain l' where "listEmpty h copy = Some (\<lambda>c. if c \<in> set cs then None else h c, l')"
      using listEmpty_correct [OF Cons.prems(2)] by blast
    then have "listDupLoop alloc h copy \<lparr>it_next = first_of (a # as) None, it_direction = AL_START_HEAD\<rparr> =
        Some (\<lambda>c. if c \<in> set cs then None else h c, None)"
      using iter n None by (subst listDupLoop.simps) (simp add: dup_value_def listRelease_def)
    with None n(1) show ?thesis by (auto simp: dom_def)
  next
    case (Some v)
    obtain b where b: "alloc h = Some b" "h b = None" using alloc_fresh [OF Cons.prems(4)] by blast
    obtain h1 copy1 where h1: "listAddNodeTail alloc h copy v = Some (h1, copy1, True)" "dll h1 copy1 (cs @ [b])"
      "values_at h1 (cs @ [b]) = values_at h cs @ [v]" "dom h1 = insert b (dom h)"
      "\<forall>c. c \<notin> set (b # cs) \<longrightarrow> h1 c = h c" "l_dup copy1 = l_dup copy"
      using listAddNodeTail_correct [of h copy cs alloc b v] Cons.prems(2,5) b by auto
    have unfold: "listDupLoop alloc h copy \<lparr>it_next = first_of (a # as) None, it_direction = AL_START_HEAD\<rparr> =
        listDupLoop alloc h1 copy1 it'"
      using iter n Some h1(1) by (subst listDupLoop.simps) (simp add: dup_value_def)
    have as: "b \<notin> set as" using dseg_dom [OF n(3)] b(2) by blast
    have seg1: "dseg h1 (Some a) as None"
      using n(3) h1(5) as Cons.prems(3) by (subst dseg_frame [of _ _ h]) auto
    have vals: "values_at h1 as = values_at h as"
      using h1(5) as Cons.prems(3) by (auto simp: values_at_def)
    have dup: "dup_value copy1 = dup_value copy" using h1(6) by (auto simp: dup_value_def fun_eq_iff)
    obtain h' res where run: "listDupLoop alloc h1 copy1 it' = Some (h', res)"
      and keep: "\<forall>c. c \<in> dom h1 - set (cs @ [b]) \<longrightarrow> h' c = h1 c"
      and res: "case res of None \<Rightarrow> dom h' = dom h1 - set (cs @ [b]) \<and> (\<exists>v \<in> set (values_at h1 as). dup_value copy1 v = None)
     | Some copy' \<Rightarrow> \<exists>ds. dll h' copy' ((cs @ [b]) @ ds) \<and> set ds \<inter> dom h1 = {} \<and> dom h' = dom h1 \<union> set ds \<and>
         values_at h' (cs @ [b]) = values_at h1 (cs @ [b]) \<and>
         map Some (values_at h' ds) = map (dup_value copy1) (values_at h1 as)"
      using Cons.IH [OF seg1 h1(2)] as Cons.prems(3-5) h1(4) unfolding it'_def by fastforce
    have keep': "\<forall>c. c \<in> dom h - set cs \<longrightarrow> h' c = h c"
      using keep h1(4,5) b(2) by auto
    show ?thesis
    proof (cases res)
      case None
      with res run unfold keep' h1(4) b(2) vals dup show ?thesis by auto
    next
      case (Some copy')
      with res obtain ds where ds: "dll h' copy' ((cs @ [b]) @ ds)" "set ds \<inter> dom h1 = {}" "dom h' = dom h1 \<union> set ds"
         "values_at h' (cs @ [b]) = values_at h1 (cs @ [b])"
         "map Some (values_at h' ds) = map (dup_value copy1) (values_at h1 as)"
        by auto
      have "dll h' copy' (cs @ (b # ds)) \<and> set (b # ds) \<inter> dom h = {} \<and> dom h' = dom h \<union> set (b # ds) \<and>
         values_at h' cs = values_at h cs \<and>
         map Some (values_at h' (b # ds)) = map (dup_value copy) (values_at h (a # as))"
        using ds h1(3,4) b(2) vals dup n(1) \<open>dup_value copy (ln_value n) = Some v\<close> by auto
      then have "\<exists>ds. dll h' copy' (cs @ ds) \<and> set ds \<inter> dom h = {} \<and> dom h' = dom h \<union> set ds \<and>
         values_at h' cs = values_at h cs \<and>
         map Some (values_at h' ds) = map (dup_value copy) (values_at h (a # as))"
        by (rule exI)
      with run unfold keep' Some show ?thesis by simp
    qed
  qed
qed

lemma listDup_correct:
  assumes "dll h orig as" "finite (dom h)"
  shows "\<exists>h' res. listDup alloc h orig = Some (h', res) \<and> (\<forall>c. c \<in> dom h \<longrightarrow> h' c = h c) \<and>
    (case res of None \<Rightarrow> dom h' = dom h \<and> (\<exists>v \<in> set (values_at h as). dup_value orig v = None)
     | Some copy \<Rightarrow> \<exists>cs. dll h' copy cs \<and> set cs \<inter> dom h = {} \<and> dom h' = dom h \<union> set cs \<and>
         map Some (values_at h' cs) = map (dup_value orig) (values_at h as))"
proof -
  define copy where "copy = listCreate\<lparr>l_dup := l_dup orig, l_match := l_match orig\<rparr>"
  have "dll h copy []" by (simp add: dll_def copy_def listCreate_def)
  moreover have dup: "dup_value copy = dup_value orig" by (simp add: dup_value_def copy_def fun_eq_iff)
  moreover have "listDup alloc h orig = listDupLoop alloc h copy \<lparr>it_next = first_of as None, it_direction = AL_START_HEAD\<rparr>"
    using assms(1) by (simp add: listDup_def copy_def listRewind_def dll_def)
  moreover have "dseg h None as None" "0 + length as < 2 ^ 64" using assms(1) by (simp_all add: dll_def)
  ultimately show ?thesis
    using listDupLoop_correct [of h None as copy "[]", unfolded append_Nil list.set Diff_empty Int_empty_right
        list.size values_at_simps(1) simp_thms dup] assms(2) by simp
qed

end

section \<open>A list is a sequence\<close>

fun chain :: "'a node_heap \<Rightarrow> nat \<Rightarrow> nat option \<Rightarrow> nat list" where
  "chain h 0 p = []"
| "chain h (Suc k) None = []"
| "chain h (Suc k) (Some a) = a # (case h a of None \<Rightarrow> [] | Some n \<Rightarrow> chain h k (ln_next n))"

lemma chain_dseg: "dseg h p as None \<Longrightarrow> chain h (length as) (first_of as None) = as"
  by (induction as arbitrary: p) (auto split: option.splits)

definition list_abs :: "'a node_heap \<times> 'a adlist \<Rightarrow> 'a list" where
  "list_abs s = (case s of (h, l) \<Rightarrow> values_at h (chain h (unat (l_len l)) (l_head l)))"

lemma list_abs_dll: "dll h l as \<Longrightarrow> list_abs (h, l) = values_at h as"
  using chain_dseg [of h None as] unat_of_nat_64 [of "length as"] by (simp add: list_abs_def dll_def)

definition list_ok :: "'a node_heap \<times> 'a adlist \<Rightarrow> bool" where
  "list_ok s = (case s of (h, l) \<Rightarrow> finite (dom h) \<and> (\<exists>as. dll h l as))"

datatype 'a list_op =
    L_push_head 'a | L_push_tail 'a | L_insert int 'a bool | L_delete int | L_index int
  | L_rotate_tail_to_head | L_rotate_head_to_tail | L_empty

fun list_op_valid :: "'a list_op \<Rightarrow> bool" where
  "list_op_valid (L_insert i v after) = (LLONG_MIN < i)"
| "list_op_valid (L_delete i) = (LLONG_MIN < i)"
| "list_op_valid (L_index i) = (LLONG_MIN < i)"
| "list_op_valid _ = True"

fun list_op_cost :: "'a list_op \<Rightarrow> nat" where
  "list_op_cost (L_push_head v) = 1"
| "list_op_cost (L_push_tail v) = 1"
| "list_op_cost (L_insert i v after) = 1"
| "list_op_cost _ = 0"

fun list_step :: "'a node_alloc \<Rightarrow> 'a list_op \<Rightarrow> 'a node_heap \<times> 'a adlist \<Rightarrow>
    (('a node_heap \<times> 'a adlist) \<times> 'a option) option" where
  "list_step alloc (L_push_head v) (h, l) =
     do { (h', l', _) \<leftarrow> listAddNodeHead alloc h l v; Some ((h', l'), None) }"
| "list_step alloc (L_push_tail v) (h, l) =
     do { (h', l', _) \<leftarrow> listAddNodeTail alloc h l v; Some ((h', l'), None) }"
| "list_step alloc (L_insert i v after) (h, l) =
     do {
       node \<leftarrow> listIndex h l i;
       case node of None \<Rightarrow> Some ((h, l), None)
       | Some a \<Rightarrow> do { (h', l', _) \<leftarrow> listInsertNode alloc h l a v after; Some ((h', l'), None) }
     }"
| "list_step alloc (L_delete i) (h, l) =
     do {
       node \<leftarrow> listIndex h l i;
       case node of None \<Rightarrow> Some ((h, l), None)
       | Some a \<Rightarrow> do { s \<leftarrow> listDelNode h l a; Some (s, None) }
     }"
| "list_step alloc (L_index i) (h, l) =
     do {
       node \<leftarrow> listIndex h l i;
       case node of None \<Rightarrow> Some ((h, l), None)
       | Some a \<Rightarrow> do { n \<leftarrow> h a; Some ((h, l), Some (ln_value n)) }
     }"
| "list_step alloc L_rotate_tail_to_head (h, l) = do { s \<leftarrow> listRotateTailToHead h l; Some (s, None) }"
| "list_step alloc L_rotate_head_to_tail (h, l) = do { s \<leftarrow> listRotateHeadToTail h l; Some (s, None) }"
| "list_step alloc L_empty (h, l) = do { s \<leftarrow> listEmpty h l; Some (s, None) }"

text \<open>A negative index counts from the end.\<close>

definition list_pos :: "int \<Rightarrow> nat \<Rightarrow> nat option" where
  "list_pos i n =
     (if 0 \<le> i \<and> i < int n then Some (nat i)
      else if i < 0 \<and> - i \<le> int n then Some (nat (int n + i))
      else None)"

fun list_spec :: "'a list_op \<Rightarrow> 'a list \<Rightarrow> 'a list \<times> 'a option" where
  "list_spec (L_push_head v) xs = (v # xs, None)"
| "list_spec (L_push_tail v) xs = (xs @ [v], None)"
| "list_spec (L_insert i v after) xs =
     (case list_pos i (length xs) of None \<Rightarrow> xs
      | Some k \<Rightarrow> if after then take (Suc k) xs @ v # drop (Suc k) xs else take k xs @ v # drop k xs, None)"
| "list_spec (L_delete i) xs =
     (case list_pos i (length xs) of None \<Rightarrow> xs | Some k \<Rightarrow> take k xs @ drop (Suc k) xs, None)"
| "list_spec (L_index i) xs = (xs, map_option (\<lambda>k. xs ! k) (list_pos i (length xs)))"
| "list_spec L_rotate_tail_to_head xs = (if length xs \<le> 1 then xs else last xs # butlast xs, None)"
| "list_spec L_rotate_head_to_tail xs = (if length xs \<le> 1 then xs else tl xs @ [hd xs], None)"
| "list_spec L_empty xs = ([], None)"

lemma length_values_at [simp]: "length (values_at h as) = length as"
  by (simp add: values_at_def)

lemma listIndex_pos:
  "dll h l as \<Longrightarrow> LLONG_MIN < i \<Longrightarrow> listIndex h l i = Some (map_option (\<lambda>k. as ! k) (list_pos i (length as)))"
  using listIndex_correct [of h l as i] by (simp add: list_pos_def)

lemma list_pos_less: "list_pos i n = Some k \<Longrightarrow> k < n"
  by (auto simp: list_pos_def split: if_splits)

lemma split_at: "k < length as \<Longrightarrow> as = take k as @ as ! k # drop (Suc k) as"
  by (rule id_take_nth_drop)

lemma values_at_take_drop:
  "values_at h (take k as) = take k (values_at h as)" "values_at h (drop k as) = drop k (values_at h as)"
  by (simp_all add: values_at_def take_map drop_map)

context allocator
begin

lemma list_push_step:
  assumes "dll h l as" "finite (dom h)" "Suc (length as) < 2 ^ 64" "op = L_push_head v \<or> op = L_push_tail v"
  shows "\<exists>s' r. list_step alloc op (h, l) = Some (s', r) \<and> list_ok s' \<and>
    length (list_abs s') \<le> Suc (length as) \<and> list_spec op (values_at h as) = (list_abs s', r)"
proof -
  obtain a where a: "alloc h = Some a" "h a = None" using alloc_fresh [OF assms(2)] by blast
  from listAddNodeHead_correct [of h l as alloc a v] obtain h1 l1 where
    "listAddNodeHead alloc h l v = Some (h1, l1, True)" "dll h1 l1 (a # as)"
    "values_at h1 (a # as) = v # values_at h as" "dom h1 = insert a (dom h)"
    using assms(1,3) a by auto
  moreover from listAddNodeTail_correct [of h l as alloc a v] obtain h2 l2 where
    "listAddNodeTail alloc h l v = Some (h2, l2, True)" "dll h2 l2 (as @ [a])"
    "values_at h2 (as @ [a]) = values_at h as @ [v]" "dom h2 = insert a (dom h)"
    using assms(1,3) a by auto
  ultimately show ?thesis
    using assms(2,4) list_abs_dll [of h1 l1] list_abs_dll [of h2 l2] by (auto simp: list_ok_def)
qed

lemma list_insert_step:
  assumes "dll h l as" "finite (dom h)" "Suc (length as) < 2 ^ 64" "LLONG_MIN < i"
  shows "\<exists>s' r. list_step alloc (L_insert i v after) (h, l) = Some (s', r) \<and> list_ok s' \<and>
    length (list_abs s') \<le> Suc (length as) \<and> list_spec (L_insert i v after) (values_at h as) = (list_abs s', r)"
proof (cases "list_pos i (length as)")
  case None
  with assms listIndex_pos [OF assms(1,4)] list_abs_dll [OF assms(1)] show ?thesis by (auto simp: list_ok_def)
next
  case (Some k)
  define xs b ys where "xs = take k as" and "b = as ! k" and "ys = drop (Suc k) as"
  have k: "k < length as" using list_pos_less [OF Some] .
  have as: "as = xs @ b # ys" unfolding xs_def b_def ys_def using split_at [OF k] .
  have idx: "listIndex h l i = Some (Some b)" using listIndex_pos [OF assms(1,4)] Some by (simp add: b_def)
  obtain a where a: "alloc h = Some a" "h a = None" using alloc_fresh [OF assms(2)] by blast
  have len: "length xs = k" using k by (simp add: xs_def)
  show ?thesis
  proof (cases after)
    case True
    obtain h' l' where h': "listInsertNode alloc h l b v True = Some (h', l', True)" "dll h' l' (xs @ b # a # ys)"
      "values_at h' (xs @ b # a # ys) = values_at h (xs @ [b]) @ v # values_at h ys" "dom h' = insert a (dom h)"
      using listInsertNode_after [of h l xs b ys alloc a v] assms(1,3) a as by auto
    have "values_at h (xs @ [b]) = take (Suc k) (values_at h as)" "values_at h ys = drop (Suc k) (values_at h as)"
      using len by (simp_all add: as)
    with True h' idx Some assms(2) k len list_abs_dll [OF h'(2)] show ?thesis by (auto simp: list_ok_def)
  next
    case False
    obtain h' l' where h': "listInsertNode alloc h l b v False = Some (h', l', True)" "dll h' l' (xs @ a # b # ys)"
      "values_at h' (xs @ a # b # ys) = values_at h xs @ v # values_at h (b # ys)" "dom h' = insert a (dom h)"
      using listInsertNode_before [of h l xs b ys alloc a v] assms(1,3) a as by auto
    have "values_at h xs = take k (values_at h as)" "values_at h (b # ys) = drop k (values_at h as)"
      using len by (simp_all add: as)
    with False h' idx Some assms(2) k list_abs_dll [OF h'(2)] show ?thesis by (auto simp: list_ok_def)
  qed
qed

lemma list_delete_step:
  assumes "dll h l as" "finite (dom h)" "LLONG_MIN < i"
  shows "\<exists>s' r. list_step alloc (L_delete i) (h, l) = Some (s', r) \<and> list_ok s' \<and>
    length (list_abs s') \<le> length as \<and> list_spec (L_delete i) (values_at h as) = (list_abs s', r)"
proof (cases "list_pos i (length as)")
  case None
  with assms listIndex_pos [OF assms(1,3)] list_abs_dll [OF assms(1)] show ?thesis by (auto simp: list_ok_def)
next
  case (Some k)
  define xs b ys where "xs = take k as" and "b = as ! k" and "ys = drop (Suc k) as"
  have k: "k < length as" using list_pos_less [OF Some] .
  have as: "as = xs @ b # ys" unfolding xs_def b_def ys_def using split_at [OF k] .
  have idx: "listIndex h l i = Some (Some b)" using listIndex_pos [OF assms(1,3)] Some by (simp add: b_def)
  obtain h' l' where h': "listDelNode h l b = Some (h', l')" "dll h' l' (xs @ ys)"
    "values_at h' (xs @ ys) = values_at h (xs @ ys)" "dom h' = dom h - {b}"
    using listDelNode_correct [of h l xs b ys] assms(1) as by auto
  have "values_at h (xs @ ys) = take k (values_at h as) @ drop (Suc k) (values_at h as)"
    using k by (simp add: xs_def ys_def values_at_take_drop)
  with h' idx Some assms(2) k list_abs_dll [OF h'(2)] show ?thesis by (auto simp: list_ok_def)
qed

lemma list_quiet_step:
  assumes "dll h l as" "finite (dom h)"
    and "op = L_index i \<and> LLONG_MIN < i \<or> op = L_rotate_tail_to_head \<or> op = L_rotate_head_to_tail \<or> op = L_empty"
  shows "\<exists>s' r. list_step alloc op (h, l) = Some (s', r) \<and> list_ok s' \<and>
    length (list_abs s') \<le> length as \<and> list_spec op (values_at h as) = (list_abs s', r)"
  using assms(3)
proof (elim disjE)
  assume op: "op = L_index i \<and> LLONG_MIN < i"
  have mem: "\<exists>n. h (as ! k) = Some n" if "list_pos i (length as) = Some k" for k
    using dseg_dom [of h None as None "as ! k"] assms(1) list_pos_less [OF that] by (auto simp: dll_def)
  from op assms listIndex_pos [OF assms(1), of i] list_abs_dll [OF assms(1)] show ?thesis
    by (cases "list_pos i (length as)") (use mem list_pos_less in \<open>fastforce simp: list_ok_def values_at_def\<close>)+
next
  assume op: "op = L_rotate_tail_to_head"
  define as' where "as' = (if length as \<le> 1 then as else last as # butlast as)"
  obtain h' l' where h': "listRotateTailToHead h l = Some (h', l')" "dll h' l' as'" "dom h' = dom h"
    "values_at h' as' = (if length as \<le> 1 then values_at h as else last (values_at h as) # butlast (values_at h as))"
    using listRotateTailToHead_correct [OF assms(1)] unfolding Let_def as'_def [symmetric] by blast
  have "length as' = length as" by (auto simp: as'_def)
  with op h' assms(2) list_abs_dll [OF h'(2)] show ?thesis by (auto simp: list_ok_def)
next
  assume op: "op = L_rotate_head_to_tail"
  define as' where "as' = (if length as \<le> 1 then as else tl as @ [hd as])"
  obtain h' l' where h': "listRotateHeadToTail h l = Some (h', l')" "dll h' l' as'" "dom h' = dom h"
    "values_at h' as' = (if length as \<le> 1 then values_at h as else tl (values_at h as) @ [hd (values_at h as)])"
    using listRotateHeadToTail_correct [OF assms(1)] unfolding Let_def as'_def [symmetric] by blast
  have "length as' = length as" by (auto simp: as'_def)
  with op h' assms(2) list_abs_dll [OF h'(2)] show ?thesis by (auto simp: list_ok_def)
next
  assume op: "op = L_empty"
  define h' where "h' = (\<lambda>c. if c \<in> set as then None else h c)"
  obtain l' where l': "listEmpty h l = Some (h', l')" "dll h' l' []"
    using listEmpty_correct [OF assms(1), of h'] unfolding h'_def by blast
  have "finite (dom h')" by (rule finite_subset [OF _ assms(2)]) (auto simp: h'_def dom_def)
  with op l' list_abs_dll [OF l'(2)] show ?thesis by (auto simp: list_ok_def)
qed

end

sublocale allocator \<subseteq> alist: data_refinement
    list_ok list_abs list_op_valid "\<lambda>s. length (list_abs s)" list_op_cost "2 ^ 64 - 1" "list_step alloc" list_spec
proof unfold_locales
  fix s :: "'a node_heap \<times> 'a adlist" and op :: "'a list_op"
  assume ok: "list_ok s" and valid: "list_op_valid op" and cap: "length (list_abs s) + list_op_cost op \<le> 2 ^ 64 - 1"
  obtain h l where s: "s = (h, l)" by (cases s) auto
  with ok obtain as where as: "dll h l as" "finite (dom h)" by (auto simp: list_ok_def)
  have abs: "list_abs (h, l) = values_at h as" using list_abs_dll [OF as(1)] .
  show "\<exists>s' r. list_step alloc op s = Some (s', r) \<and> list_ok s' \<and>
      length (list_abs s') \<le> length (list_abs s) + list_op_cost op \<and> list_spec op (list_abs s) = (list_abs s', r)"
  proof (cases op)
    case (L_push_head v)
    with list_push_step [OF as, of op v] cap [unfolded s] abs show ?thesis by (simp add: s)
  next
    case (L_push_tail v)
    with list_push_step [OF as, of op v] cap [unfolded s] abs show ?thesis by (simp add: s)
  next
    case (L_insert i v after)
    with list_insert_step [OF as, of i v after] cap [unfolded s] abs valid show ?thesis by (simp add: s)
  next
    case (L_delete i)
    with list_delete_step [OF as, of i] abs valid show ?thesis by (simp add: s)
  next
    case (L_index i)
    with list_quiet_step [OF as, of op i] abs valid show ?thesis by (simp add: s)
  qed (use list_quiet_step [OF as, of op] in \<open>simp_all add: s abs\<close>)
qed

context allocator
begin

lemma list_run_refines:
  assumes "list_ok s" "list_all list_op_valid ops" "length (list_abs s) + sum_list (map list_op_cost ops) \<le> 2 ^ 64 - 1"
  shows "\<exists>s' rs. run_concrete (list_step alloc) ops s = Some (s', rs) \<and> list_ok s' \<and>
    run_abstract list_spec ops (list_abs s) = (list_abs s', rs)"
  using assms by (rule alist.run_refines)

end

section \<open>Properties\<close>

text \<open>An allocator that hands out the address after the highest one in use.\<close>

definition bump_alloc :: "'a node_heap \<Rightarrow> nat option" where
  "bump_alloc h = Some (Suc (Max (insert 0 (dom h))))"

interpretation bump: allocator bump_alloc
proof unfold_locales
  fix h :: "'a node_heap"
  assume "finite (dom h)"
  then have "Suc (Max (insert 0 (dom h))) \<notin> dom h"
    by (metis Max_ge Suc_n_not_le_n finite_insert insertI2)
  then show "\<exists>a. bump_alloc h = Some a \<and> h a = None" by (auto simp: bump_alloc_def dom_def)
qed

text \<open>The list \<open>[10, 20]\<close> at the addresses 3 and 5.\<close>

definition ex_heap :: "nat node_heap" where
  "ex_heap = [3 \<mapsto> \<lparr>ln_prev = None, ln_next = Some 5, ln_value = 10\<rparr>,
              5 \<mapsto> \<lparr>ln_prev = Some 3, ln_next = None, ln_value = 20\<rparr>]"

definition ex_list :: "nat adlist" where
  "ex_list = \<lparr>l_head = Some 3, l_tail = Some 5, l_dup = None, l_match = None, l_len = 2\<rparr>"

lemma ex_dll: "dll ex_heap ex_list [3, 5]" "values_at ex_heap [3, 5] = [10, 20]" "finite (dom ex_heap)"
  by (simp_all add: dll_def ex_heap_def ex_list_def)

lemma ex_list_ok: "list_ok (ex_heap, ex_list)" "list_abs (ex_heap, ex_list) = [10, 20]"
  using ex_dll list_abs_dll [OF ex_dll(1)] by (auto simp: list_ok_def)

text \<open>
  C3: any sequence of insertions at both ends and around an index, deletions, rotations,
  indexing (from either end) and clears on a linked list follows no null or dangling pointer,
  keeps the links of both directions and the length consistent, and does to the sequence of
  values exactly what the same operations do to a list.
\<close>

theorem adlist_runs_as_sequence:
  assumes "allocator alloc" "list_ok s" "list_all list_op_valid ops"
    and "length (list_abs s) + sum_list (map list_op_cost ops) \<le> 2 ^ 64 - 1"
  shows "\<exists>s' rs. run_concrete (list_step alloc) ops s = Some (s', rs) \<and> list_ok s' \<and>
    run_abstract list_spec ops (list_abs s) = (list_abs s', rs)"
  using assms by (rule allocator.list_run_refines)

theorem adlist_runs_as_sequence_witness:
  "\<exists>s' rs. run_concrete (list_step bump_alloc) [L_push_head 7, L_insert (- 1) 8 False, L_delete 1, L_rotate_tail_to_head]
      (ex_heap, ex_list) = Some (s', rs) \<and> list_ok s' \<and>
    run_abstract list_spec [L_push_head 7, L_insert (- 1) 8 False, L_delete 1, L_rotate_tail_to_head]
      (list_abs (ex_heap, ex_list)) = (list_abs s', rs)"
  by (rule adlist_runs_as_sequence [OF bump.allocator_axioms ex_list_ok(1)])
    (simp_all add: ex_list_ok(2) LLONG_MIN_def)

text \<open>
  C21: duplicating a list leaves every node that existed untouched.  It either returns a list
  of fresh nodes whose values are the duplicates in order, or, when a value cannot be
  duplicated, returns null with every node it had allocated released again.
\<close>

theorem listDup_copies:
  assumes "allocator alloc" "dll h orig as" "finite (dom h)"
  shows "\<exists>h' res. listDup alloc h orig = Some (h', res) \<and> (\<forall>c. c \<in> dom h \<longrightarrow> h' c = h c) \<and>
    (case res of None \<Rightarrow> dom h' = dom h \<and> (\<exists>v \<in> set (values_at h as). dup_value orig v = None)
     | Some copy \<Rightarrow> \<exists>cs. dll h' copy cs \<and> set cs \<inter> dom h = {} \<and> dom h' = dom h \<union> set cs \<and>
         map Some (values_at h' cs) = map (dup_value orig) (values_at h as))"
  using assms by (rule allocator.listDup_correct)

theorem listDup_copies_witness:
  "\<exists>h' res. listDup bump_alloc ex_heap ex_list = Some (h', res) \<and> (\<forall>c. c \<in> dom ex_heap \<longrightarrow> h' c = ex_heap c) \<and>
    (case res of None \<Rightarrow> dom h' = dom ex_heap \<and> (\<exists>v \<in> set (values_at ex_heap [3, 5]). dup_value ex_list v = None)
     | Some copy \<Rightarrow> \<exists>cs. dll h' copy cs \<and> set cs \<inter> dom ex_heap = {} \<and> dom h' = dom ex_heap \<union> set cs \<and>
         map Some (values_at h' cs) = map (dup_value ex_list) (values_at ex_heap [3, 5]))"
  by (rule listDup_copies [OF bump.allocator_axioms ex_dll(1,3)])

text \<open>
  C22: joining two lists without a common node gives the concatenation and leaves the other
  list empty, in constant time: no node is allocated or freed.
\<close>

theorem listJoin_concatenates:
  assumes "dll h l as" "dll h r bs" "set as \<inter> set bs = {}" "length as + length bs < 2 ^ 64"
  shows "\<exists>h' l' r'. listJoin h l r = Some (h', l', r') \<and> dll h' l' (as @ bs) \<and> dll h' r' [] \<and>
    values_at h' (as @ bs) = values_at h as @ values_at h bs \<and> dom h' = dom h"
  using assms by (rule listJoin_correct)

theorem listJoin_concatenates_witness:
  "let h = ex_heap(8 \<mapsto> \<lparr>ln_prev = None, ln_next = None, ln_value = 30\<rparr>);
       r = \<lparr>l_head = Some 8, l_tail = Some 8, l_dup = None, l_match = None, l_len = 1\<rparr> in
   \<exists>h' l' r'. listJoin h ex_list r = Some (h', l', r') \<and> dll h' l' ([3, 5] @ [8]) \<and> dll h' r' [] \<and>
     values_at h' ([3, 5] @ [8]) = values_at h [3, 5] @ values_at h [8] \<and> dom h' = dom h"
  unfolding Let_def
  by (rule listJoin_concatenates) (simp_all add: dll_def ex_heap_def ex_list_def)

end
