(* ===== verification/Util.thy ===== *)
theory Util
  imports Redis_Prelude "HOL-Library.Monad_Syntax"
begin

text \<open>
  The string routines of \<^verbatim>\<open>src/redis/redis-6.2.6-annotation/src/util.c\<close>: decimal conversion in
  both directions, memory sizes with a unit, glob matching and the character set helpers.
  Characters are bytes; a C string handed over with its length is the list of its bytes.
  \<open>None\<close> is a rejected input where the C function returns 0, and, where a routine writes into
  a buffer, a write outside of it.  The decimal routines are compared with \<open>dec_int\<close>, the usual
  decimal numeral of an integer; the glob matcher with a token-by-token semantics of patterns.
\<close>

section \<open>Decimal output\<close>

function digits10 :: "uint64 \<Rightarrow> uint32" where
  "digits10 v =
     (if v < 10 then 1
      else if v < 100 then 2
      else if v < 1000 then 3
      else if v < 1000000000000 then
        if v < 100000000 then
          if v < 1000000 then
            if v < 10000 then 4
            else 5 + (if v \<ge> 100000 then 1 else 0)
          else 7 + (if v \<ge> 10000000 then 1 else 0)
        else if v < 10000000000 then 9 + (if v \<ge> 1000000000 then 1 else 0)
        else 11 + (if v \<ge> 100000000000 then 1 else 0)
      else 12 + digits10 (v div 1000000000000))"
  by pat_completeness auto

termination
proof (relation "measure unat")
  fix v :: uint64
  assume "\<not> v < 10"
  then have "unat (v div 1000000000000) < unat v"
    by (simp add: unat_div word_less_nat_alt)
  then show "(v div 1000000000000, v) \<in> measure unat" by simp
qed simp

declare digits10.simps [simp del]

definition sdigits10 :: "int \<Rightarrow> uint32" where
  "sdigits10 v =
     (if v < 0 then
        let uv = (if v \<noteq> LLONG_MIN then word_of_int (- v) else word_of_int LLONG_MAX + 1) in
        digits10 uv + 1
      else digits10 (word_of_int v))"

text \<open>The static table \<^verbatim>\<open>digits\<close> of the two digits of every number below 100.\<close>

definition digits_table :: "byte list" where
  "digits_table = [
     48, 48, 48, 49, 48, 50, 48, 51, 48, 52, 48, 53, 48, 54, 48, 55, 48, 56, 48, 57,
     49, 48, 49, 49, 49, 50, 49, 51, 49, 52, 49, 53, 49, 54, 49, 55, 49, 56, 49, 57,
     50, 48, 50, 49, 50, 50, 50, 51, 50, 52, 50, 53, 50, 54, 50, 55, 50, 56, 50, 57,
     51, 48, 51, 49, 51, 50, 51, 51, 51, 52, 51, 53, 51, 54, 51, 55, 51, 56, 51, 57,
     52, 48, 52, 49, 52, 50, 52, 51, 52, 52, 52, 53, 52, 54, 52, 55, 52, 56, 52, 57,
     53, 48, 53, 49, 53, 50, 53, 51, 53, 52, 53, 53, 53, 54, 53, 55, 53, 56, 53, 57,
     54, 48, 54, 49, 54, 50, 54, 51, 54, 52, 54, 53, 54, 54, 54, 55, 54, 56, 54, 57,
     55, 48, 55, 49, 55, 50, 55, 51, 55, 52, 55, 53, 55, 54, 55, 55, 55, 56, 55, 57,
     56, 48, 56, 49, 56, 50, 56, 51, 56, 52, 56, 53, 56, 54, 56, 55, 56, 56, 56, 57,
     57, 48, 57, 49, 57, 50, 57, 51, 57, 52, 57, 53, 57, 54, 57, 55, 57, 56, 57, 57]"

text \<open>\<^verbatim>\<open>dst[i] = c\<close>, with \<open>None\<close> outside of the buffer.\<close>

definition store :: "byte list \<Rightarrow> int \<Rightarrow> byte \<Rightarrow> byte list option" where
  "store dst i c = (if 0 \<le> i \<and> i < int (length dst) then Some (dst[nat i := c]) else None)"

function ll2stringLoop :: "uint64 \<Rightarrow> int \<Rightarrow> byte list \<Rightarrow> (uint64 \<times> int \<times> byte list) option" where
  "ll2stringLoop value nxt dst =
     (if value \<ge> 100 then
        (let i = unat (value mod 100) * 2 in
         do {
           d1 \<leftarrow> store dst nxt (digits_table ! (i + 1));
           d2 \<leftarrow> store d1 (nxt - 1) (digits_table ! i);
           ll2stringLoop (value div 100) (nxt - 2) d2
         })
      else Some (value, nxt, dst))"
  by pat_completeness auto

termination
proof (relation "measure (\<lambda>(value, nxt, dst). unat value)")
  fix v :: uint64 and nxt nxt' :: int and dst d2 :: "byte list"
  assume "100 \<le> v"
  then have "unat (v div 100) < unat v"
    by (simp add: unat_div word_le_nat_alt)
  then show "((v div 100, nxt', d2), v, nxt, dst) \<in> measure (\<lambda>(value, nxt, dst). unat value)"
    by simp
qed simp

declare ll2stringLoop.simps [simp del]

text \<open>The result is the length written and the buffer; \<^verbatim>\<open>dstlen\<close> is the length of the buffer.\<close>

definition ll2string :: "byte list \<Rightarrow> int \<Rightarrow> (nat \<times> byte list) option" where
  "ll2string dst svalue =
     (let negative = (svalue < 0);
          value = (if svalue < 0 then
                     if svalue \<noteq> LLONG_MIN then word_of_int (- svalue) else word_of_int LLONG_MAX + 1
                   else word_of_int svalue) :: uint64;
          len = digits10 value + (if negative then 1 else 0) in
      if unat len \<ge> length dst then Some (0, dst)
      else do {
        d0 \<leftarrow> store dst (uint len) 0;
        (v, nxt, d1) \<leftarrow> ll2stringLoop value (uint len - 1) d0;
        d2 \<leftarrow> (if v < 10 then store d1 nxt (48 + ucast v)
              else do {
                d \<leftarrow> store d1 nxt (digits_table ! (unat v * 2 + 1));
                store d (nxt - 1) (digits_table ! (unat v * 2))
              });
        d3 \<leftarrow> (if negative then store d2 0 45 else Some d2);
        Some (unat len, d3)
      })"

section \<open>Decimal input\<close>

definition is_digit :: "byte \<Rightarrow> bool" where
  "is_digit c \<longleftrightarrow> 48 \<le> c \<and> c \<le> 57"

text \<open>The digit loop: \<open>None\<close> is the early return on overflow, otherwise value and unread rest.\<close>

fun string2llLoop :: "uint64 \<Rightarrow> byte list \<Rightarrow> (uint64 \<times> byte list) option" where
  "string2llLoop v [] = Some (v, [])"
| "string2llLoop v (c # p) =
     (if is_digit c then
        if v > word_of_int (ULLONG_MAX div 10) then None
        else let v1 = v * 10 in
          if v1 > word_of_int ULLONG_MAX - ucast (c - 48) then None
          else string2llLoop (v1 + ucast (c - 48)) p
      else Some (v, c # p))"

definition string2ll :: "byte list \<Rightarrow> int option" where
  "string2ll s =
     (if s = [] then None
      else if s = [48] then Some 0
      else let negative = (hd s = 45); p = (if negative then tl s else s) in
        case p of [] \<Rightarrow> None
        | c # p' \<Rightarrow>
            if 49 \<le> c \<and> c \<le> 57 then
              do {
                (v, rest) \<leftarrow> string2llLoop (ucast (c - 48)) p';
                if rest \<noteq> [] then None
                else if negative then
                  if v > word_of_int (- (LLONG_MIN + 1)) + 1 then None else Some (sint (- v))
                else
                  if v > word_of_int LLONG_MAX then None else Some (sint v)
              }
            else None)"

text \<open>\<^verbatim>\<open>long\<close> has 64 bits, so the range test never rejects.\<close>

definition string2l :: "byte list \<Rightarrow> int option" where
  "string2l s =
     do {
       llval \<leftarrow> string2ll s;
       if llval < LLONG_MIN \<or> llval > LLONG_MAX then None else Some llval
     }"

section \<open>Decimal numerals\<close>

fun dec_nat :: "nat \<Rightarrow> byte list" where
  "dec_nat n = (if n < 10 then [48 + of_nat n] else dec_nat (n div 10) @ [48 + of_nat (n mod 10)])"

declare dec_nat.simps [simp del]

definition dec_int :: "int \<Rightarrow> byte list" where
  "dec_int v = (if v < 0 then 45 # dec_nat (nat (- v)) else dec_nat (nat v))"

lemma dec_nat_small: "n < 10 \<Longrightarrow> dec_nat n = [48 + of_nat n]"
  by (simp add: dec_nat.simps)

lemma dec_nat_step: "10 \<le> n \<Longrightarrow> dec_nat n = dec_nat (n div 10) @ [48 + of_nat (n mod 10)]"
  by (subst dec_nat.simps) simp

lemma length_dec_nat:
  assumes "n < 10 ^ Suc k" "10 ^ k \<le> n \<or> k = 0"
  shows "length (dec_nat n) = Suc k"
  using assms
proof (induction k arbitrary: n)
  case 0
  then show ?case by (simp add: dec_nat_small)
next
  case (Suc k)
  have "(10 :: nat) \<le> 10 ^ Suc k" by simp
  then have "10 \<le> n" using Suc.prems by linarith
  moreover have "n div 10 < 10 ^ Suc k" "10 ^ k \<le> n div 10"
    using Suc.prems by (simp_all add: div_less_iff_less_mult less_eq_div_iff_mult_less_eq)
  ultimately show ?case using Suc.IH [of "n div 10"] by (simp add: dec_nat_step)
qed

lemma length_dec_nat_div:
  "10 ^ k \<le> n \<Longrightarrow> length (dec_nat n) = k + length (dec_nat (n div 10 ^ k))"
proof (induction k arbitrary: n)
  case (Suc k)
  have "(10 :: nat) \<le> 10 ^ Suc k" by simp
  then have "10 \<le> n" using Suc.prems by linarith
  moreover have "10 ^ k \<le> n div 10"
    using Suc.prems by (simp add: less_eq_div_iff_mult_less_eq)
  ultimately show ?case using Suc.IH [of "n div 10"] by (simp add: dec_nat_step div_mult2_eq)
qed simp

lemma length_dec_nat_max: "n < 10 ^ Suc k \<Longrightarrow> length (dec_nat n) \<le> Suc k"
proof (induction k arbitrary: n)
  case (Suc k)
  then have "n div 10 < 10 ^ Suc k" by (simp add: div_less_iff_less_mult)
  with Suc.IH [of "n div 10"] show ?case
    by (cases "n < 10") (simp_all add: dec_nat_small dec_nat_step)
qed (simp add: dec_nat_small)

lemma dec_nat_not_Nil [simp]: "dec_nat n \<noteq> []"
  by (cases "n < 10") (simp_all add: dec_nat_small dec_nat_step)

lemma digits10_correct: "unat (digits10 v) = length (dec_nat (unat v))"
proof (induction v rule: digits10.induct)
  case (1 v)
  note cmp = word_less_nat_alt word_le_nat_alt
  show ?case
  proof (cases "v < 1000000000000")
    case True
    then show ?thesis
      using length_dec_nat [of "unat v" 0]
        length_dec_nat [of "unat v" 1]
        length_dec_nat [of "unat v" 2]
        length_dec_nat [of "unat v" 3]
        length_dec_nat [of "unat v" 4]
        length_dec_nat [of "unat v" 5]
        length_dec_nat [of "unat v" 6]
        length_dec_nat [of "unat v" 7]
        length_dec_nat [of "unat v" 8]
        length_dec_nat [of "unat v" 9]
        length_dec_nat [of "unat v" 10]
        length_dec_nat [of "unat v" 11]
      by (simp add: digits10.simps [of v] cmp)
  next
    case False
    then have big: "10 ^ 12 \<le> unat v" "\<not> v < 10" "\<not> v < 100" "\<not> v < 1000"
      by (simp_all add: cmp)
    have div: "unat (v div 1000000000000) = unat v div 10 ^ 12" by (simp add: unat_div)
    have IH: "unat (digits10 (v div 1000000000000)) = length (dec_nat (unat v div 10 ^ 12))"
      using "1.IH" big False div by simp
    have "unat v div 10 ^ 12 < 10 ^ Suc 19" using unat_less_64 [of v] by (simp add: div_less_iff_less_mult)
    then have "length (dec_nat (unat v div 10 ^ 12)) \<le> 20" using length_dec_nat_max [of _ 19] by simp
    then have "unat (12 + digits10 (v div 1000000000000)) = 12 + length (dec_nat (unat v div 10 ^ 12))"
      using IH by (simp add: unat_word_ariths)
    then show ?thesis
      using length_dec_nat_div [OF big(1)] big False by (simp add: digits10.simps [of v])
  qed
qed

section \<open>ll2string writes the numeral\<close>

lemma digits_table_all:
  "list_all (\<lambda>i. digits_table ! (i * 2) = 48 + of_nat (i div 10) \<and>
     digits_table ! Suc (i * 2) = 48 + of_nat (i mod 10)) [0..<100]"
  by code_simp

lemma digits_table_nth:
  assumes "i < 100"
  shows "digits_table ! (i * 2) = 48 + of_nat (i div 10)" "digits_table ! Suc (i * 2) = 48 + of_nat (i mod 10)"
  using digits_table_all assms by (simp_all add: list_all_iff)

lemma dec_nat_step2:
  assumes "100 \<le> n"
  shows "dec_nat n = dec_nat (n div 100) @ [48 + of_nat (n mod 100 div 10), 48 + of_nat (n mod 100 mod 10)]"
proof -
  have "10 \<le> n div 10" using assms by simp
  moreover have "n div 10 mod 10 = n mod 100 div 10" "n mod 100 mod 10 = n mod 10" "n div 10 div 10 = n div 100"
    using mod_mult2_eq [of n 10 10] by (simp_all add: div_mult2_eq [symmetric] mod_mod_cancel)
  ultimately show ?thesis using assms by (simp add: dec_nat_step)
qed

lemma store_Some: "i < length dst \<Longrightarrow> store dst (int i) c = Some (dst[i := c])"
  by (simp add: store_def)

lemma put_bytes_digits2:
  assumes "off + length xs + 2 \<le> length dst" "i = off + length xs"
  shows "put_bytes (dst[Suc i := b, i := a]) off xs = put_bytes dst off (xs @ [a, b])"
proof -
  have split: "drop i ys = ys ! i # ys ! Suc i # drop (Suc (Suc i)) ys" if "Suc i < length ys" for ys :: "'a list"
    using that by (simp add: Cons_nth_drop_Suc)
  have "drop i (dst[Suc i := b, i := a]) = a # b # drop (Suc (Suc i)) dst"
    using split [of "dst[Suc i := b, i := a]"] assms by simp
  then show ?thesis
    using assms by (simp add: put_bytes_def)
qed

lemma ll2string_digits:
  assumes "nxt < length dst" "length (dec_nat (unat val)) \<le> Suc nxt"
  shows "\<exists>v n d1. ll2stringLoop val (int nxt) dst = Some (v, n, d1) \<and>
    (if v < 10 then store d1 n (48 + ucast v)
     else do {
       d \<leftarrow> store d1 n (digits_table ! (unat v * 2 + 1));
       store d (n - 1) (digits_table ! (unat v * 2))
     }) = Some (put_bytes dst (Suc nxt - length (dec_nat (unat val))) (dec_nat (unat val)))"
  using assms
proof (induction "unat val" arbitrary: val nxt dst rule: less_induct)
  case less
  define ds where "ds = dec_nat (unat val div 100)"
  show ?case
  proof (cases "100 \<le> val")
    case True
    define i where "i = unat (val mod 100)"
    have val: "100 \<le> unat val" using True by (simp add: word_le_nat_alt)
    have div: "unat (val div 100) = unat val div 100" "i = unat val mod 100" by (simp_all add: i_def unat_div unat_mod)
    have i: "i < 100" by (simp add: div)
    define a b where "a = digits_table ! (i * 2)" and "b = digits_table ! Suc (i * 2)"
    have dec: "dec_nat (unat val) = ds @ [a, b]"
      using dec_nat_step2 [OF val] digits_table_nth [OF i] by (simp add: ds_def a_def b_def div)
    have len: "length ds + 2 \<le> Suc nxt" "0 < length ds" using less.prems(2) dec by (simp_all add: ds_def)
    then obtain m where m: "nxt = Suc (Suc m)" by (cases nxt rule: nat.exhaust; cases "nxt - 1") auto
    define d2 where "d2 = dst[Suc (Suc m) := b, Suc m := a]"
    have step: "ll2stringLoop val (int nxt) dst = ll2stringLoop (val div 100) (int m) d2"
      using True less.prems(1) by (subst ll2stringLoop.simps)
        (simp add: Let_def i_def [symmetric] a_def [symmetric] b_def [symmetric] m store_def d2_def nat_add_distrib)
    have "unat (val div 100) < unat val" using val div by simp
    from less.hyps [OF this, of m d2] have
      "\<exists>v n d1. ll2stringLoop (val div 100) (int m) d2 = Some (v, n, d1) \<and>
        (if v < 10 then store d1 n (48 + ucast v)
         else do {
           d \<leftarrow> store d1 n (digits_table ! (unat v * 2 + 1));
           store d (n - 1) (digits_table ! (unat v * 2))
         }) = Some (put_bytes d2 (Suc m - length ds) ds)"
      using less.prems(1) len m div by (simp add: d2_def ds_def)
    moreover have "put_bytes d2 (Suc m - length ds) ds = put_bytes dst (Suc nxt - length (ds @ [a, b])) (ds @ [a, b])"
      using put_bytes_digits2 [of "Suc m - length ds" ds dst "Suc m" b a] less.prems(1) len m by (simp add: d2_def)
    ultimately show ?thesis unfolding step dec by simp
  next
    case False
    then have loop: "ll2stringLoop val (int nxt) dst = Some (val, int nxt, dst)"
      by (simp add: ll2stringLoop.simps)
    have val: "unat val < 100" using False by (simp add: word_le_nat_alt)
    show ?thesis
    proof (cases "val < 10")
      case True
      then have "dec_nat (unat val) = [48 + ucast val]"
        by (simp add: dec_nat_small word_less_nat_alt)
      with True loop less.prems show ?thesis
        by (simp add: store_Some put_bytes_def upd_conv_take_nth_drop)
    next
      case two: False
      then have ten: "10 \<le> unat val" by (simp add: word_less_nat_alt)
      define a b where "a = digits_table ! (unat val * 2)" and "b = digits_table ! Suc (unat val * 2)"
      have "unat val div 10 < 10" using val by simp
      then have dec: "dec_nat (unat val) = [a, b]"
        using ten digits_table_nth [OF val] by (simp add: dec_nat_step dec_nat_small a_def b_def)
      obtain m where m: "nxt = Suc m" using less.prems(2) dec by (cases nxt) simp_all
      have "put_bytes (dst[Suc m := b, m := a]) m [] = put_bytes dst m ([] @ [a, b])"
        using less.prems(1) m by (intro put_bytes_digits2) simp_all
      moreover have "put_bytes (dst[Suc m := b, m := a]) m [] = dst[Suc m := b, m := a]"
        unfolding put_bytes_def by (simp only: append_take_drop_id append_Nil list.size add_0_right)
      ultimately have put: "dst[Suc m := b, m := a] = put_bytes dst m [a, b]" by simp
      have "store dst (int nxt) b = Some (dst[Suc m := b])"
        "store (dst[Suc m := b]) (int nxt - 1) a = Some (dst[Suc m := b, m := a])"
        using less.prems(1) m by (simp_all add: store_def nat_add_distrib)
      with two loop m put show ?thesis
        unfolding dec by (simp add: a_def b_def)
    qed
  qed
qed

lemma ll2string_value:
  assumes "is_int64 sv"
  defines "val \<equiv> (if sv < 0 then if sv \<noteq> LLONG_MIN then word_of_int (- sv) else word_of_int LLONG_MAX + 1
    else word_of_int sv) :: uint64"
  shows "unat val = nat \<bar>sv\<bar>"
proof -
  have "unat (word_of_int w :: uint64) = nat w" if "0 \<le> w" "w < 2 ^ 64" for w
    using that by (simp add: unsigned_of_int take_bit_int_eq_self)
  from this [of "- sv"] this [of sv] assms show ?thesis
    by (auto simp: is_int64_def c_limits)
qed

lemma length_dec_nat_64: "n < 2 ^ 64 \<Longrightarrow> length (dec_nat n) \<le> 20"
  using length_dec_nat_max [of n 19] by simp

lemma ll2string_correct:
  assumes "is_int64 sv"
  shows "ll2string dst sv =
    (if length (dec_int sv) < length dst
     then Some (length (dec_int sv), dec_int sv @ 0 # drop (Suc (length (dec_int sv))) dst)
     else Some (0, dst))"
proof -
  define val where "val = ((if sv < 0 then if sv \<noteq> LLONG_MIN then word_of_int (- sv) else word_of_int LLONG_MAX + 1
    else word_of_int sv) :: uint64)"
  define ds where "ds = dec_nat (unat val)"
  define neg where "neg = (if sv < 0 then 1 else 0 :: nat)"
  define len where "len = digits10 val + (if sv < 0 then 1 else 0)"
  have val: "unat val = nat \<bar>sv\<bar>" unfolding val_def using ll2string_value [OF assms] .
  then have dec: "dec_int sv = (if sv < 0 then 45 # ds else ds)" by (simp add: dec_int_def ds_def)
  have "length ds \<le> 20" using length_dec_nat_64 [of "unat val"] unat_less_64 [of val] by (simp add: ds_def)
  then have len: "unat len = length ds + neg"
    using digits10_correct [of val] by (simp add: len_def neg_def ds_def unat_word_ariths)
  then have len_dec: "unat len = length (dec_int sv)" by (simp add: dec neg_def)
  show ?thesis
  proof (cases "length (dec_int sv) < length dst")
    case False
    then show ?thesis
      using len_dec by (simp add: ll2string_def Let_def val_def [symmetric] len_def [symmetric])
  next
    case True
    define n where "n = length ds + neg - 1"
    define d0 where "d0 = dst[Suc n := 0]"
    have pos: "0 < length ds" by (simp add: ds_def)
    then have len_n: "unat len = Suc n" using len by (simp add: n_def)
    moreover have "uint len = int (unat len)" by simp
    ultimately have n: "uint len - 1 = int n" "uint len = int (Suc n)" "unat len = Suc n" by linarith+
    have d0: "store dst (uint len) 0 = Some d0"
      using True len_dec n by (simp add: store_def d0_def nat_add_distrib)
    have fit: "n < length d0" "length ds \<le> Suc n"
      using True len_dec n(3) pos by (simp_all add: d0_def n_def)
    obtain v k d1 where loop: "ll2stringLoop val (int n) d0 = Some (v, k, d1)"
      and fin: "(if v < 10 then store d1 k (48 + ucast v)
        else do {
          d \<leftarrow> store d1 k (digits_table ! (unat v * 2 + 1));
          store d (k - 1) (digits_table ! (unat v * 2))
        }) = Some (put_bytes d0 (Suc n - length ds) ds)"
      using ll2string_digits [of n d0 val] fit by (auto simp: ds_def)
    have off: "Suc n - length ds = neg" using pos by (simp add: n_def)
    have sign: "(if sv < 0 then store (put_bytes d0 neg ds) 0 45 else Some (put_bytes d0 neg ds)) =
        Some (dec_int sv @ 0 # drop (Suc (Suc n)) dst)"
    proof (cases "sv < 0")
      case neg: True
      then obtain x xs where "dst = x # xs" using True by (cases dst) auto
      with neg True len_dec n(3) fit off show ?thesis unfolding dec neg_def
        by (auto simp: store_def put_bytes_def d0_def n_def neg_def Cons_nth_drop_Suc [symmetric])
    next
      case False
      with True len_dec n(3) fit off show ?thesis unfolding dec neg_def
        by (auto simp: put_bytes_def d0_def n_def neg_def Cons_nth_drop_Suc [symmetric])
    qed
    show ?thesis
      unfolding ll2string_def Let_def val_def [symmetric] len_def [symmetric] n(1)
      using True loop fin [unfolded off] d0 sign len_dec n(3) by simp
  qed
qed

section \<open>string2ll accepts exactly the numerals\<close>

definition dval :: "nat \<Rightarrow> byte list \<Rightarrow> nat" where
  "dval a ds = foldl (\<lambda>a c. 10 * a + (unat c - 48)) a ds"

lemma dval_simps [simp]:
  "dval a [] = a" "dval a (c # ds) = dval (10 * a + (unat c - 48)) ds"
  "dval a (ds @ [c]) = 10 * dval a ds + (unat c - 48)"
  by (simp_all add: dval_def)

lemma dval_ge: "a \<le> dval a ds"
proof (induction ds arbitrary: a)
  case (Cons c ds)
  then have "10 * a + (unat c - 48) \<le> dval a (c # ds)" by simp
  then show ?case by linarith
qed simp

lemma is_digit_unat: "is_digit c \<longleftrightarrow> 48 \<le> unat c \<and> unat c \<le> 57"
  by (simp add: is_digit_def word_le_nat_alt)

lemma unat_digit: "is_digit c \<Longrightarrow> unat (ucast (c - 48) :: uint64) = unat c - 48"
  by (simp add: unat_ucast_8_64 is_digit_def unat_sub)

lemma string2llLoop_correct:
  "string2llLoop v p =
     (if dval (unat v) (takeWhile is_digit p) < 2 ^ 64
      then Some (of_nat (dval (unat v) (takeWhile is_digit p)), dropWhile is_digit p) else None)"
proof (induction p arbitrary: v)
  case Nil
  then show ?case using unat_less_64 [of v] by simp
next
  case (Cons c p)
  show ?case
  proof (cases "is_digit c")
    case False
    then show ?thesis using unat_less_64 [of v] by simp
  next
    case digit: True
    define d where "d = unat c - 48"
    have d: "unat (ucast (c - 48) :: uint64) = d" "d \<le> 9"
      using unat_digit [OF digit] digit by (auto simp: d_def is_digit_unat)
    have ge: "10 * unat v + d \<le> dval (10 * unat v + d) (takeWhile is_digit p)" by (rule dval_ge)
    have max: "v > word_of_int (ULLONG_MAX div 10) \<longleftrightarrow> 1844674407370955161 < unat v"
      by (simp add: ULLONG_MAX_def word_less_nat_alt)
    show ?thesis
    proof (cases "1844674407370955161 < unat v")
      case True
      then have "\<not> dval (10 * unat v + d) (takeWhile is_digit p) < 2 ^ 64" using ge by simp
      with True digit max show ?thesis by (simp add: d_def [symmetric])
    next
      case False
      then have v10: "unat (v * 10) = 10 * unat v" by (simp add: unat_word_ariths)
      have sub: "unat (word_of_int ULLONG_MAX - ucast (c - 48) :: uint64) = 18446744073709551615 - d"
        using d by (subst unat_sub) (simp_all add: ULLONG_MAX_def word_le_nat_alt)
      have over: "v * 10 > word_of_int ULLONG_MAX - ucast (c - 48) \<longleftrightarrow> 18446744073709551615 < 10 * unat v + d"
        unfolding word_less_nat_alt v10 sub using d(2) by linarith
      show ?thesis
      proof (cases "18446744073709551615 < 10 * unat v + d")
        case True
        then have "\<not> dval (10 * unat v + d) (takeWhile is_digit p) < 2 ^ 64" using ge by simp
        with True False digit max over show ?thesis by (simp add: d_def [symmetric])
      next
        case fits: False
        then have "unat (v * 10 + ucast (c - 48)) = 10 * unat v + d"
          using v10 d by (subst unat_word_ariths) simp
        with Cons.IH [of "v * 10 + ucast (c - 48)"] False fits digit max over show ?thesis
          by (simp add: d_def [symmetric])
      qed
    qed
  qed
qed

lemma dec_nat_digits: "list_all is_digit (dec_nat n)"
proof (induction n rule: dec_nat.induct)
  case (1 n)
  have "unat (48 + of_nat k :: byte) = 48 + k" if "k < 10" for k
    using that by (simp add: unat_word_ariths unsigned_of_nat take_bit_nat_eq_self)
  then have "is_digit (48 + of_nat k)" if "k < 10" for k
    using that by (simp add: is_digit_unat)
  with 1 show ?case by (cases "n < 10") (simp_all add: dec_nat_small dec_nat_step)
qed

lemma unat_digit_of_nat: "k < 10 \<Longrightarrow> unat (48 + of_nat k :: byte) = 48 + k"
  by (simp add: unat_word_ariths unsigned_of_nat take_bit_nat_eq_self)

lemma dval_dec_nat: "dval 0 (dec_nat n) = n"
proof (induction n rule: dec_nat.induct)
  case (1 n)
  then show ?case by (cases "n < 10") (simp_all add: dec_nat_small dec_nat_step unat_digit_of_nat)
qed

lemma hd_dec_nat: "0 < n \<Longrightarrow> 49 \<le> hd (dec_nat n)"
proof (induction n rule: dec_nat.induct)
  case (1 n)
  then show ?case
    by (cases "n < 10") (simp_all add: dec_nat_small dec_nat_step unat_digit_of_nat word_le_nat_alt hd_append)
qed

lemma dec_nat_dval:
  assumes "list_all is_digit ds" "ds \<noteq> []" "49 \<le> hd ds"
  shows "dec_nat (dval 0 ds) = ds \<and> 0 < dval 0 ds"
  using assms
proof (induction ds rule: rev_induct)
  case (snoc c ds)
  have c: "48 \<le> unat c" "unat c \<le> 57" using snoc.prems(1) by (simp_all add: is_digit_unat)
  then have byte: "48 + of_nat (unat c - 48) = c"
    by (simp add: of_nat_diff)
  show ?case
  proof (cases ds)
    case Nil
    with snoc.prems c byte show ?thesis by (simp add: dec_nat_small word_le_nat_alt)
  next
    case (Cons e es)
    with snoc have IH: "dec_nat (dval 0 ds) = ds" "0 < dval 0 ds" by simp_all
    then have "10 \<le> 10 * dval 0 ds + (unat c - 48)" by linarith
    moreover have "unat c - 48 < 10" using c by linarith
    then have "(10 * dval 0 ds + (unat c - 48)) div 10 = dval 0 ds"
      "(10 * dval 0 ds + (unat c - 48)) mod 10 = unat c - 48" by simp_all
    ultimately show ?thesis using IH byte by (simp add: dec_nat_step)
  qed
qed simp

lemma takeWhile_all:
  "list_all P xs \<Longrightarrow> takeWhile P xs = xs" "list_all P xs \<Longrightarrow> dropWhile P xs = []"
  by (induction xs) simp_all

lemma sint_word_of_int_64:
  assumes "- (2 ^ 63) \<le> k" "k < 2 ^ 63"
  shows "sint (word_of_int k :: uint64) = k"
  using assms by (simp add: signed_of_int signed_take_bit_int_eq_self)

lemma string2ll_range:
  assumes "n < 2 ^ 64"
  shows "(if (of_nat n :: uint64) > word_of_int (- (LLONG_MIN + 1)) + 1 then None else Some (sint (- of_nat n :: uint64))) =
      (if n \<le> 2 ^ 63 then Some (- int n) else None)"
    "(if (of_nat n :: uint64) > word_of_int LLONG_MAX then None else Some (sint (of_nat n :: uint64))) =
      (if n < 2 ^ 63 then Some (int n) else None)"
proof -
  have n: "unat (of_nat n :: uint64) = n" using assms unat_of_nat_64 by simp
  have "(of_nat n :: uint64) > word_of_int (- (LLONG_MIN + 1)) + 1 \<longleftrightarrow> 2 ^ 63 < n"
    "(of_nat n :: uint64) > word_of_int LLONG_MAX \<longleftrightarrow> \<not> n < 2 ^ 63"
    unfolding word_less_nat_alt n by (auto simp: c_limits)
  moreover have "sint (- of_nat n :: uint64) = - int n" if "n \<le> 2 ^ 63"
    using sint_word_of_int_64 [of "- int n"] that by simp
  moreover have "sint (of_nat n :: uint64) = int n" if "n < 2 ^ 63"
    using sint_word_of_int_64 [of "int n"] that by simp
  ultimately show "(if (of_nat n :: uint64) > word_of_int (- (LLONG_MIN + 1)) + 1 then None else Some (sint (- of_nat n :: uint64))) =
      (if n \<le> 2 ^ 63 then Some (- int n) else None)"
    "(if (of_nat n :: uint64) > word_of_int LLONG_MAX then None else Some (sint (of_nat n :: uint64))) =
      (if n < 2 ^ 63 then Some (int n) else None)"
    by simp_all
qed

lemma string2ll_eq:
  "string2ll s =
     (if s = [48] then Some 0
      else let negative = (s \<noteq> [] \<and> hd s = 45); p = (if negative then tl s else s); n = dval 0 p in
        if p \<noteq> [] \<and> 49 \<le> hd p \<and> list_all is_digit p then
          if negative then (if n \<le> 2 ^ 63 then Some (- int n) else None)
          else (if n < 2 ^ 63 then Some (int n) else None)
        else None)"
proof (cases "s = [] \<or> s = [48]")
  case True
  then show ?thesis by (auto simp: string2ll_def)
next
  case False
  define negative where "negative = (hd s = 45)"
  define p where "p = (if negative then tl s else s)"
  have spec: "string2ll s = (case p of [] \<Rightarrow> None
        | c # p' \<Rightarrow>
            if 49 \<le> c \<and> c \<le> 57 then
              do {
                (v, rest) \<leftarrow> string2llLoop (ucast (c - 48)) p';
                if rest \<noteq> [] then None
                else if negative then
                  if v > word_of_int (- (LLONG_MIN + 1)) + 1 then None else Some (sint (- v))
                else
                  if v > word_of_int LLONG_MAX then None else Some (sint v)
              }
            else None)"
    using False unfolding string2ll_def Let_def p_def negative_def by simp
  show ?thesis
  proof (cases p)
    case Nil
    with spec False show ?thesis by (simp add: p_def negative_def Let_def)
  next
    case (Cons c p')
    show ?thesis
    proof (cases "49 \<le> c \<and> c \<le> 57")
      case no: False
      then have "\<not> (49 \<le> hd p \<and> list_all is_digit p)" using Cons by (auto simp: is_digit_def)
      with no Cons spec False show ?thesis by (auto simp: p_def [symmetric] negative_def [symmetric] Let_def)
    next
      case c: True
      then have "is_digit c" by (auto simp: is_digit_def word_le_nat_alt)
      then have start: "dval (unat (ucast (c - 48) :: uint64)) p' = dval 0 p"
        using Cons unat_digit by simp
      have hd: "49 \<le> hd p" using c Cons by simp
      show ?thesis
      proof (cases "list_all is_digit p'")
        case False
        then have "dropWhile is_digit p' \<noteq> []" by (simp add: list_all_iff)
        with False spec c Cons \<open>\<not> (s = [] \<or> s = [48])\<close> show ?thesis
          by (auto simp: string2llLoop_correct p_def [symmetric] negative_def [symmetric] Let_def)
      next
        case all: True
        define n where "n = dval 0 p"
        have loop: "string2llLoop (ucast (c - 48)) p' = (if n < 2 ^ 64 then Some (of_nat n, []) else None)"
          unfolding string2llLoop_correct takeWhile_all(1) [OF all] takeWhile_all(2) [OF all] start n_def ..
        have lhs: "string2ll s = (if n < 2 ^ 64 then
            if negative then (if n \<le> 2 ^ 63 then Some (- int n) else None)
            else (if n < 2 ^ 63 then Some (int n) else None) else None)"
          using spec c Cons string2ll_range [of n] by (simp add: loop)
        have p: "p \<noteq> [] \<and> 49 \<le> hd p \<and> list_all is_digit p" using Cons hd all \<open>is_digit c\<close> by simp
        have neg: "(s \<noteq> [] \<and> hd s = 45) = negative" using False by (simp add: negative_def)
        show ?thesis
          unfolding Let_def neg p_def [symmetric] n_def [symmetric] lhs using p False by simp
      qed
    qed
  qed
qed

lemma string2ll_iff: "string2ll s = Some v \<longleftrightarrow> is_int64 v \<and> s = dec_int v"
proof
  assume "string2ll s = Some v"
  then show "is_int64 v \<and> s = dec_int v"
    using dec_nat_dval [of s] dec_nat_dval [of "tl s"]
    by (cases s) (auto simp: string2ll_eq Let_def is_int64_def c_limits dec_int_def dec_nat_small split: if_splits)
next
  assume v: "is_int64 v \<and> s = dec_int v"
  show "string2ll s = Some v"
  proof (cases "v = 0")
    case True
    with v show ?thesis by (simp add: string2ll_eq dec_int_def dec_nat_small)
  next
    case False
    define n where "n = nat \<bar>v\<bar>"
    have n: "0 < n" "n \<le> 2 ^ 63" "v \<ge> 0 \<Longrightarrow> n < 2 ^ 63" using v False by (auto simp: n_def is_int64_def c_limits)
    have s: "s = (if v < 0 then 45 # dec_nat n else dec_nat n)" using v by (simp add: dec_int_def n_def)
    have "hd (dec_nat n) \<noteq> 45" using hd_dec_nat [OF n(1)] by (auto simp: word_le_nat_alt)
    moreover have "dec_nat n \<noteq> [48]" using hd_dec_nat [OF n(1)] by (auto simp: word_le_nat_alt)
    ultimately show ?thesis
      using n hd_dec_nat [OF n(1)] dec_nat_digits [of n] dval_dec_nat [of n] unfolding s
      by (auto simp: string2ll_eq Let_def n_def)
  qed
qed

lemma string2l_eq: "string2l s = string2ll s"
proof (cases "string2ll s")
  case (Some v)
  then have "is_int64 v" by (simp add: string2ll_iff)
  with Some show ?thesis by (simp add: string2l_def is_int64_def)
qed (simp add: string2l_def)

section \<open>Properties\<close>

text \<open>
  C17: the integer parser accepts exactly the canonical decimal numerals of the 64 bit signed
  integers (no sign before zero, no leading zeros, no spaces, nothing out of range), and
  returns the number denoted.
\<close>

theorem string2ll_accepts_numerals:
  "string2ll s = Some v \<longleftrightarrow> is_int64 v \<and> s = dec_int v"
  by (rule string2ll_iff)

text \<open>
  C11: printing a 64 bit integer writes its numeral and a terminating zero byte and touches
  nothing behind it; it never writes outside of the buffer, returns 0 when the buffer is too
  small, and what it wrote parses back to the same number.
\<close>

theorem ll2string_roundtrip:
  assumes "is_int64 v"
  shows "case ll2string dst v of
      None \<Rightarrow> False
    | Some (len, dst') \<Rightarrow>
        if length (dec_int v) < length dst
        then len = length (dec_int v) \<and> dst' = dec_int v @ 0 # drop (Suc len) dst \<and>
          string2ll (take len dst') = Some v
        else len = 0 \<and> dst' = dst"
proof -
  have "string2ll (dec_int v) = Some v" using assms by (simp add: string2ll_iff)
  then show ?thesis using ll2string_correct [OF assms, of dst] by simp
qed

theorem ll2string_roundtrip_witness:
  "case ll2string (replicate 21 0) (- 9223372036854775808) of
      None \<Rightarrow> False
    | Some (len, dst') \<Rightarrow>
        if length (dec_int (- 9223372036854775808)) < length (replicate 21 (0 :: byte))
        then len = length (dec_int (- 9223372036854775808)) \<and>
          dst' = dec_int (- 9223372036854775808) @ 0 # drop (Suc len) (replicate 21 0) \<and>
          string2ll (take len dst') = Some (- 9223372036854775808)
        else len = 0 \<and> dst' = replicate 21 0"
  by (rule ll2string_roundtrip) (simp add: is_int64_def c_limits)

text \<open>
  C27: the branch tree of \<^verbatim>\<open>digits10\<close> computes the number of decimal digits of every 64 bit value.
\<close>

theorem digits10_counts: "unat (digits10 v) = length (dec_nat (unat v))"
  by (rule digits10_correct)

end
