(* ===== verification/Util_Strings.thy ===== *)
theory Util_Strings
  imports Util "HOL-Library.Sublist"
begin

text \<open>
  Glob matching, memory sizes and the character set helpers of
  \<^verbatim>\<open>src/redis/redis-6.2.6-annotation/src/util.c\<close>.  A pattern and a string are the lists of their
  remaining bytes, so \<^verbatim>\<open>pattern++; patternLen--\<close> is \<open>tl\<close>.  The matcher looks at \<^verbatim>\<open>pattern[0]\<close> and
  \<^verbatim>\<open>pattern[1]\<close> without consulting \<^verbatim>\<open>patternLen\<close>; every pattern is terminated by a zero byte, and
  \<open>at\<close> returns that byte at the end.  The matcher is compared with a semantics of patterns that
  first splits them into tokens.
\<close>

section \<open>Characters\<close>

text \<open>\<^verbatim>\<open>char\<close> is signed; \<^verbatim>\<open>tolower\<close> in the C locale.\<close>

definition tolower :: "int \<Rightarrow> int" where
  "tolower c = (if 65 \<le> c \<and> c \<le> 90 then c + 32 else c)"

definition at :: "byte list \<Rightarrow> nat \<Rightarrow> byte" where
  "at p i = (if i < length p then p ! i else 0)"

section \<open>stringmatchlen\<close>

definition same_char :: "bool \<Rightarrow> byte \<Rightarrow> byte \<Rightarrow> bool" where
  "same_char nocase a b =
     (if \<not> nocase then a = b else tolower (sint a) = tolower (sint b))"

definition in_range :: "bool \<Rightarrow> byte \<Rightarrow> byte \<Rightarrow> byte \<Rightarrow> bool" where
  "in_range nocase a b x =
     (let start = sint a; end' = sint b; c = sint x;
          (start, end') = (if start > end' then (end', start) else (start, end'));
          (start, end', c) = (if nocase then (tolower start, tolower end', tolower c) else (start, end', c)) in
      start \<le> c \<and> c \<le> end')"

text \<open>
  The loop over a bracket expression.  The result is whether \<open>x\<close> matched and the pattern after
  the closing bracket, that is after the \<^verbatim>\<open>pattern++\<close> that follows the switch.
\<close>

fun classLoop :: "bool \<Rightarrow> byte \<Rightarrow> bool \<Rightarrow> byte list \<Rightarrow> bool \<times> byte list" where
  "classLoop nocase x match [] = (match, [])"
| "classLoop nocase x match (c # p) =
     (if c = 92 \<and> length (c # p) \<ge> 2 then
        classLoop nocase x (match \<or> hd p = x) (tl p)
      else if c = 93 then (match, p)
      else if length (c # p) \<ge> 3 \<and> hd p = 45 then
        classLoop nocase x (match \<or> in_range nocase c (p ! 1) x) (drop 2 p)
      else classLoop nocase x (match \<or> same_char nocase c x) p)"

definition dropStars :: "byte list \<Rightarrow> byte list" where
  "dropStars p = dropWhile (\<lambda>c. c = 42) p"

lemma classLoop_length: "length (snd (classLoop nocase x match p)) \<le> length p"
proof (induction nocase x match p rule: classLoop.induct)
  case (2 nocase x match c p)
  show ?case
    using 2 by (auto simp: Let_def intro: le_SucI order_trans)
qed simp

lemma dropStars_length: "length (dropStars p) \<le> length p"
  by (simp add: dropStars_def length_dropWhile_le)

definition match_measure :: "(bool \<times> byte list \<times> byte list) + (bool \<times> byte list \<times> byte list) + (bool \<times> byte list \<times> byte list) \<Rightarrow> nat" where
  "match_measure z = (case z of
     Inl (_, p, s) \<Rightarrow> 2 * (length p + length s)
   | Inr (Inl (_, p, s)) \<Rightarrow> Suc (2 * (length p + length s))
   | Inr (Inr (_, p, s)) \<Rightarrow> Suc (2 * (length p + length s)))"

lemma class_rest_short:
  assumes "(match, p2) = classLoop nocase x False (if at p 0 = 94 then tl p else p)"
  shows "length p2 \<le> length p"
proof -
  have "length p2 \<le> length (if at p 0 = 94 then tl p else p)"
    using classLoop_length [of nocase x False] assms by (metis snd_conv)
  also have "\<dots> \<le> length p" by simp
  finally show ?thesis .
qed

text \<open>
  \<open>stringmatchlen\<close> is one pass of the outer loop, \<open>starLoop\<close> the loop over the suffixes behind a
  star, and \<open>nextStep\<close> the end of the pass: the loop goes on while string is left.
\<close>

function (sequential) stringmatchlen :: "bool \<Rightarrow> byte list \<Rightarrow> byte list \<Rightarrow> bool"
  and starLoop :: "bool \<Rightarrow> byte list \<Rightarrow> byte list \<Rightarrow> bool"
  and nextStep :: "bool \<Rightarrow> byte list \<Rightarrow> byte list \<Rightarrow> bool" where
  "stringmatchlen nocase [] s = (s = [])"
| "stringmatchlen nocase (c # p) [] = False"
| "stringmatchlen nocase (c # p) (x # s) =
     (if c = 42 then
        (let q = dropStars p in if q = [] then True else starLoop nocase q (x # s))
      else if c = 63 then nextStep nocase p s
      else if c = 91 then
        (let neg = (at p 0 = 94); p1 = (if neg then tl p else p);
             (match, p2) = classLoop nocase x False p1 in
         if (if neg then \<not> match else match) then nextStep nocase p2 s else False)
      else
        (let esc = (c = 92 \<and> length (c # p) \<ge> 2); c1 = (if esc then hd p else c); p1 = (if esc then tl p else p) in
         if \<not> same_char nocase c1 x then False else nextStep nocase p1 s))"
| "starLoop nocase q [] = False"
| "starLoop nocase q (x # s) = (stringmatchlen nocase q (x # s) \<or> starLoop nocase q s)"
| "nextStep nocase p s = (if s = [] then dropStars p = [] else stringmatchlen nocase p s)"
  by pat_completeness auto

termination
  by (relation "measure match_measure")
    (auto simp: match_measure_def less_Suc_eq_le intro: dropStars_length dest!: class_rest_short)

declare nextStep.simps [simp del]

definition stringmatch :: "byte list \<Rightarrow> byte list \<Rightarrow> bool \<Rightarrow> bool" where
  "stringmatch pattern string nocase = stringmatchlen nocase pattern string"

section \<open>Sizes with a unit\<close>

definition tolower_byte :: "byte \<Rightarrow> byte" where
  "tolower_byte c = (if 65 \<le> c \<and> c \<le> 90 then c + 32 else c)"

definition strcasecmp_eq :: "byte list \<Rightarrow> byte list \<Rightarrow> bool" where
  "strcasecmp_eq a b \<longleftrightarrow> map tolower_byte a = map tolower_byte b"

text \<open>
  \<^verbatim>\<open>strtoll(buf, &endptr, 10)\<close> on what \<^verbatim>\<open>memtoll\<close> passes, an optional minus sign and digits: the
  value, limited to the range of the type, and the rest that \<^verbatim>\<open>endptr\<close> points to.
\<close>

definition strtoll :: "byte list \<Rightarrow> int \<times> byte list" where
  "strtoll buf =
     (let neg = (buf \<noteq> [] \<and> hd buf = 45); ds = takeWhile is_digit (if neg then tl buf else buf) in
      if ds = [] then (0, buf)
      else let v = (if neg then - int (dval 0 ds) else int (dval 0 ds)) in
        (max LLONG_MIN (min LLONG_MAX v), dropWhile is_digit (if neg then tl buf else buf)))"

text \<open>\<open>M_error\<close> is \<^verbatim>\<open>*err = 1\<close>; \<open>M_undefined\<close> is the signed overflow of \<^verbatim>\<open>val*mul\<close>.\<close>

datatype memtoll_result = M_value int | M_error | M_undefined

definition memtoll_unit :: "byte list \<Rightarrow> int option" where
  "memtoll_unit u =
     (if u = [] \<or> strcasecmp_eq u [98] then Some 1
      else if strcasecmp_eq u [107] then Some 1000
      else if strcasecmp_eq u [107, 98] then Some 1024
      else if strcasecmp_eq u [109] then Some (1000 * 1000)
      else if strcasecmp_eq u [109, 98] then Some (1024 * 1024)
      else if strcasecmp_eq u [103] then Some (1000 * 1000 * 1000)
      else if strcasecmp_eq u [103, 98] then Some (1024 * 1024 * 1024)
      else None)"

definition memtoll :: "byte list \<Rightarrow> memtoll_result" where
  "memtoll p =
     (let u = dropWhile is_digit (if p \<noteq> [] \<and> hd p = 45 then tl p else p) in
      case memtoll_unit u of None \<Rightarrow> M_error
      | Some mul \<Rightarrow>
          let digits = length p - length u in
          if digits \<ge> 128 then M_error
          else let (val, rest) = strtoll (take digits p) in
            if rest \<noteq> [] then M_error
            else if is_int64 (val * mul) then M_value (val * mul) else M_undefined)"

section \<open>Character sets\<close>

fun mempbrkInner :: "byte \<Rightarrow> byte list \<Rightarrow> bool" where
  "mempbrkInner c [] = False"
| "mempbrkInner c (d # chars) = (if c = d then True else mempbrkInner c chars)"

text \<open>The offset of the returned pointer.\<close>

fun mempbrk :: "byte list \<Rightarrow> byte list \<Rightarrow> nat option" where
  "mempbrk [] chars = None"
| "mempbrk (c # s) chars = (if mempbrkInner c chars then Some 0 else map_option Suc (mempbrk s chars))"

fun memmapInner :: "byte \<Rightarrow> byte list \<Rightarrow> byte list \<Rightarrow> byte" where
  "memmapInner c (f # from) (t # to) = (if c = f then t else memmapInner c from to)"
| "memmapInner c _ _ = c"

fun memmapchars :: "byte list \<Rightarrow> byte list \<Rightarrow> byte list \<Rightarrow> byte list" where
  "memmapchars [] from to = []"
| "memmapchars (c # s) from to = memmapInner c from to # memmapchars s from to"

section \<open>The meaning of patterns\<close>

datatype class_item = C_esc byte | C_range byte byte | C_char byte

datatype token = T_star | T_any | T_class bool "class_item list" | T_char byte

fun parse_class :: "byte list \<Rightarrow> class_item list \<times> byte list" where
  "parse_class [] = ([], [])"
| "parse_class (c # p) =
     (if c = 92 \<and> p \<noteq> [] then apfst ((#) (C_esc (hd p))) (parse_class (tl p))
      else if c = 93 then ([], p)
      else if length p \<ge> 2 \<and> hd p = 45 then apfst ((#) (C_range c (p ! 1))) (parse_class (drop 2 p))
      else apfst ((#) (C_char c)) (parse_class p))"

fun item_matches :: "bool \<Rightarrow> byte \<Rightarrow> class_item \<Rightarrow> bool" where
  "item_matches nocase x (C_esc c) = (c = x)"
| "item_matches nocase x (C_range a b) = in_range nocase a b x"
| "item_matches nocase x (C_char c) = same_char nocase c x"

lemma classLoop_parse:
  "classLoop nocase x m p = (m \<or> list_ex (item_matches nocase x) (fst (parse_class p)), snd (parse_class p))"
  by (induction nocase x m p rule: classLoop.induct) (auto simp: Suc_le_eq numeral_2_eq_2)

lemma parse_class_length: "length (snd (parse_class p)) \<le> length p"
  using classLoop_length [of False 0 False p] by (simp add: classLoop_parse)

function parse_glob :: "byte list \<Rightarrow> token list" where
  "parse_glob [] = []"
| "parse_glob (c # p) =
     (if c = 42 then T_star # parse_glob p
      else if c = 63 then T_any # parse_glob p
      else if c = 91 then
        (let neg = (p \<noteq> [] \<and> hd p = 94); p1 = (if neg then tl p else p) in
         T_class neg (fst (parse_class p1)) # parse_glob (snd (parse_class p1)))
      else if c = 92 \<and> p \<noteq> [] then T_char (hd p) # parse_glob (tl p)
      else T_char c # parse_glob p)"
  by pat_completeness auto

termination
proof (relation "measure length")
  fix c :: byte and p p1 :: "byte list" and neg
  assume "p1 = (if neg then tl p else p)"
  then have "length p1 \<le> length p" by simp
  then show "(snd (parse_class p1), c # p) \<in> measure length"
    using parse_class_length [of p1] by simp
qed simp_all

fun token_matches :: "bool \<Rightarrow> byte \<Rightarrow> token \<Rightarrow> bool" where
  "token_matches nocase x T_star = True"
| "token_matches nocase x T_any = True"
| "token_matches nocase x (T_class neg items) = (neg \<noteq> list_ex (item_matches nocase x) items)"
| "token_matches nocase x (T_char c) = same_char nocase c x"

fun glob :: "bool \<Rightarrow> token list \<Rightarrow> byte list \<Rightarrow> bool" where
  "glob nocase [] s = (s = [])"
| "glob nocase (T_star # ts) s = list_ex (glob nocase ts) (suffixes s)"
| "glob nocase (t # ts) [] = False"
| "glob nocase (t # ts) (x # s) = (token_matches nocase x t \<and> glob nocase ts s)"

section \<open>The matcher implements the meaning\<close>

lemma glob_star: "glob nocase (T_star # ts) s \<longleftrightarrow> (\<exists>t. suffix t s \<and> glob nocase ts t)"
  by (auto simp: list_ex_iff)

lemma glob_star_star: "glob nocase (T_star # T_star # ts) s \<longleftrightarrow> glob nocase (T_star # ts) s"
proof
  assume "glob nocase (T_star # T_star # ts) s"
  then show "glob nocase (T_star # ts) s" unfolding glob_star using suffix_order.trans by blast
next
  assume "glob nocase (T_star # ts) s"
  then obtain t where "suffix t s" "glob nocase ts t" unfolding glob_star by blast
  moreover have "suffix t t" by simp
  ultimately show "glob nocase (T_star # T_star # ts) s" unfolding glob_star by blast
qed

lemma glob_dropStars: "glob nocase (T_star # parse_glob p) s \<longleftrightarrow> glob nocase (T_star # parse_glob (dropStars p)) s"
proof (induction p)
  case (Cons c p)
  then show ?case
    by (cases "c = 42") (simp_all add: dropStars_def glob_star_star del: glob.simps(2))
qed (simp add: dropStars_def)

lemma glob_Nil: "glob nocase (parse_glob p) [] \<longleftrightarrow> dropStars p = []"
proof (induction p)
  case (Cons c p)
  show ?case
  proof (cases "c = 42")
    case True
    with Cons show ?thesis by (simp add: dropStars_def)
  qed (simp add: dropStars_def Let_def)
qed (simp add: dropStars_def)

lemma dropStars_hd: "dropStars p = c # q \<Longrightarrow> c \<noteq> 42"
  unfolding dropStars_def by (drule dropWhile_eq_Cons_conv [THEN iffD1]) simp

lemma glob_starts_nonempty:
  assumes "q = c # q'" "c \<noteq> 42"
  shows "\<not> glob nocase (parse_glob q) []"
  unfolding glob_Nil using assms by (simp add: dropStars_def)

lemma suffix_Cons_nonempty:
  "(\<exists>t. suffix t (x # s) \<and> t \<noteq> [] \<and> P t) \<longleftrightarrow> P (x # s) \<or> (\<exists>t. suffix t s \<and> t \<noteq> [] \<and> P t)"
  by (auto simp: suffix_Cons)

lemma match_correct:
  "s \<noteq> [] \<longrightarrow> stringmatchlen nocase p s = glob nocase (parse_glob p) s"
  "starLoop nocase q s = (\<exists>t. suffix t s \<and> t \<noteq> [] \<and> glob nocase (parse_glob q) t)"
  "nextStep nocase p s = glob nocase (parse_glob p) s"
proof (induction nocase p s and nocase q s and nocase p s rule: stringmatchlen_starLoop_nextStep.induct)
  case (3 nocase c p x s)
  consider (star) "c = 42" | (any) "c = 63" | (cls) "c = 91" | (chr) "c \<noteq> 42" "c \<noteq> 63" "c \<noteq> 91" by blast
  then show ?case
  proof cases
    case star
    show ?thesis
    proof (cases "dropStars p")
      case Nil
      have "glob nocase (T_star # parse_glob (dropStars p)) (x # s)"
        unfolding Nil glob_star by (intro exI [of _ "[]"]) simp
      then have "glob nocase (T_star # parse_glob p) (x # s)"
        using glob_dropStars by blast
      with star Nil show ?thesis by (simp del: glob.simps(2))
    next
      case (Cons d q')
      have "glob nocase (T_star # parse_glob p) (x # s) \<longleftrightarrow>
          (\<exists>t. suffix t (x # s) \<and> t \<noteq> [] \<and> glob nocase (parse_glob (dropStars p)) t)"
        unfolding glob_dropStars [of _ p] unfolding glob_star
        using glob_starts_nonempty [OF Cons dropStars_hd [OF Cons], of nocase] by metis
      with star Cons "3.IH"(1) [OF star refl] show ?thesis
        by (simp del: glob.simps(2))
    qed
  next
    case any
    with "3.IH"(2) show ?thesis by simp
  next
    case cls
    define neg where "neg = (at p 0 = 94)"
    define p1 where "p1 = (if neg then tl p else p)"
    have neg: "neg = (p \<noteq> [] \<and> hd p = 94)" by (cases p) (simp_all add: neg_def at_def)
    obtain items rest where parse: "parse_class p1 = (items, rest)" by fastforce
    have loop: "classLoop nocase x False p1 = (list_ex (item_matches nocase x) items, rest)"
      by (simp add: classLoop_parse parse)
    define lm where "lm = list_ex (item_matches nocase x) items"
    have "if neg then \<not> lm else lm \<Longrightarrow> nextStep nocase rest s = glob nocase (parse_glob rest) s"
      using "3.IH"(3) [of neg p1 "(lm, rest)" lm rest] cls loop unfolding neg_def p1_def lm_def by simp
    moreover have "stringmatchlen nocase (c # p) (x # s) = ((if neg then \<not> lm else lm) \<and> nextStep nocase rest s)"
      using cls loop by (simp add: neg_def [symmetric] p1_def [symmetric] lm_def)
    moreover have "glob nocase (parse_glob (c # p)) (x # s) = (neg \<noteq> lm \<and> glob nocase (parse_glob rest) s)"
      using cls parse by (simp add: neg [symmetric] p1_def [symmetric] lm_def)
    ultimately show ?thesis by metis
  next
    case chr
    define esc where "esc = (c = 92 \<and> p \<noteq> [])"
    define c1 p1 where "c1 = (if esc then hd p else c)" and "p1 = (if esc then tl p else p)"
    have esc: "(c = 92 \<and> length (c # p) \<ge> 2) = esc" by (cases p) (simp_all add: esc_def)
    have "same_char nocase c1 x \<Longrightarrow> nextStep nocase p1 s = glob nocase (parse_glob p1) s"
      using "3.IH"(4) [OF chr refl refl refl] unfolding esc c1_def p1_def by simp
    moreover have "stringmatchlen nocase (c # p) (x # s) = (same_char nocase c1 x \<and> nextStep nocase p1 s)"
      unfolding stringmatchlen.simps Let_def esc c1_def [symmetric] p1_def [symmetric] using chr by simp
    moreover have "glob nocase (parse_glob (c # p)) (x # s) = (same_char nocase c1 x \<and> glob nocase (parse_glob p1) s)"
      using chr by (simp add: esc_def [symmetric] c1_def p1_def)
    ultimately show ?thesis by metis
  qed
next
  case (5 nocase q x s)
  then show ?case unfolding starLoop.simps suffix_Cons_nonempty by simp
next
  case (6 nocase p s)
  then show ?case by (cases "s = []") (simp_all add: nextStep.simps glob_Nil)
next
  case (1 nocase s)
  show ?case by simp
next
  case (2 nocase c p)
  show ?case by simp
next
  case (4 nocase q)
  show ?case by simp
qed

section \<open>Sizes and character sets\<close>

lemma dec_int_prefix:
  assumes "u = [] \<or> \<not> is_digit (hd u)"
  shows "dropWhile is_digit (if dec_int v @ u \<noteq> [] \<and> hd (dec_int v @ u) = 45 then tl (dec_int v @ u) else dec_int v @ u) = u"
proof -
  have drop: "dropWhile is_digit (dec_nat n @ u) = u" for n
    using dec_nat_digits [of n] assms by (cases u) (auto simp: dropWhile_append list_all_iff)
  have "hd (dec_nat n @ u) \<noteq> 45" for n
    using dec_nat_digits [of n] by (cases "dec_nat n") (auto simp: is_digit_def)
  with drop show ?thesis by (simp add: dec_int_def)
qed

lemma strtoll_dec_int:
  assumes "is_int64 v"
  shows "strtoll (dec_int v) = (v, [])"
proof -
  have d: "takeWhile is_digit (dec_nat n) = dec_nat n" "dropWhile is_digit (dec_nat n) = []" for n
    using takeWhile_all [OF dec_nat_digits] by blast+
  have "hd (dec_nat n) \<noteq> 45" for n
    using dec_nat_digits [of n] by (cases "dec_nat n") (auto simp: is_digit_def)
  moreover have "is_digit x" if "x \<in> set (dec_nat n)" for x n
    using that dec_nat_digits [of n] by (simp add: list_all_iff)
  ultimately show ?thesis
    using assms by (auto simp: strtoll_def dec_int_def Let_def d dval_dec_nat is_int64_def c_limits)
qed

lemma length_dec_int: "is_int64 v \<Longrightarrow> length (dec_int v) < 128"
  using length_dec_nat_64 [of "nat v"] length_dec_nat_64 [of "nat (- v)"]
  by (auto simp: dec_int_def is_int64_def c_limits nat_less_iff)

lemma mempbrkInner_iff: "mempbrkInner c chars \<longleftrightarrow> c \<in> set chars"
  by (induction chars) auto

lemma memmapInner_eq: "memmapInner c from to = (case map_of (zip from to) c of Some d \<Rightarrow> d | None \<Rightarrow> c)"
  by (induction c "from" to rule: memmapInner.induct) auto

section \<open>Properties\<close>

text \<open>
  C10: for a non-empty string the pointer-walking matcher decides exactly the meaning of the
  pattern: star matches any string, a question mark any character, a bracket expression a
  character of its (possibly negated) set, a backslash the next character.
\<close>

theorem stringmatchlen_is_glob:
  assumes "s \<noteq> []"
  shows "stringmatchlen nocase p s \<longleftrightarrow> glob nocase (parse_glob p) s"
  using match_correct(1) assms by blast

theorem stringmatchlen_is_glob_witness:
  "stringmatchlen False [104, 42, 108, 91, 97, 45, 122, 93] [104, 101, 108, 108, 111] \<longleftrightarrow>
     glob False (parse_glob [104, 42, 108, 91, 97, 45, 122, 93]) [104, 101, 108, 108, 111]"
  by (rule stringmatchlen_is_glob) simp

text \<open>The units a size can have, in lower case, with the number of bytes each stands for.\<close>

definition size_units :: "(byte list \<times> int) list" where
  "size_units =
     [([], 1), (map of_char ''b'', 1), (map of_char ''k'', 10 ^ 3), (map of_char ''kb'', 2 ^ 10), (map of_char ''m'', 10 ^ 6),
      (map of_char ''mb'', 2 ^ 20), (map of_char ''g'', 10 ^ 9), (map of_char ''gb'', 2 ^ 30)]"

lemma memtoll_unit_table: "memtoll_unit u = map_of size_units (map tolower_byte u)"
  by (auto simp: memtoll_unit_def size_units_def strcasecmp_eq_def tolower_byte_def of_char_def)

text \<open>
  C28: a size written as a numeral and a suffix is the number times what the suffix stands for: nothing or
  \<open>b\<close> for bytes, \<open>k\<close>, \<open>m\<close>, \<open>g\<close> for powers of 1000, \<open>kb\<close>, \<open>mb\<close>, \<open>gb\<close> for powers of 1024, in any mixture of
  cases.  Every other suffix is reported as an error, and a product outside of 64 bits overflows.\<close>

theorem memtoll_value:
  assumes "is_int64 v" "u = [] \<or> \<not> is_digit (hd u)"
  shows "memtoll (dec_int v @ u) =
    (case map_of size_units (map tolower_byte u) of None \<Rightarrow> M_error
     | Some mul \<Rightarrow> if is_int64 (v * mul) then M_value (v * mul) else M_undefined)"
  using dec_int_prefix [OF assms(2), of v] strtoll_dec_int [OF assms(1)] length_dec_int [OF assms(1)]
  by (simp add: memtoll_def memtoll_unit_table split: option.split)

theorem memtoll_value_witness:
  "memtoll (dec_int 3 @ [75, 98]) = M_value 3072"
  using memtoll_value [of 3 "[75, 98]"]
  by (simp add: is_int64_def c_limits is_digit_def size_units_def tolower_byte_def of_char_def)

text \<open>
  The character set helpers: the first position of a character of the set, and the
  replacement of every character by its image under the first pair that mentions it.
\<close>

lemma memmapchars_maps:
  "memmapchars s from to = map (\<lambda>c. case map_of (zip from to) c of Some d \<Rightarrow> d | None \<Rightarrow> c) s \<and>
   mempbrk s chars = (let i = length (takeWhile (\<lambda>c. c \<notin> set chars) s) in if i < length s then Some i else None)"
proof
  show "memmapchars s from to = map (\<lambda>c. case map_of (zip from to) c of Some d \<Rightarrow> d | None \<Rightarrow> c) s"
    by (induction s) (simp_all add: memmapInner_eq)
  show "mempbrk s chars = (let i = length (takeWhile (\<lambda>c. c \<notin> set chars) s) in if i < length s then Some i else None)"
    by (induction s) (auto simp: mempbrkInner_iff Let_def)
qed

end
