(* ===== verification/Sds.thy ===== *)
theory Sds
  imports Util_Strings Refinement "HOL-Library.Monad_Syntax"
begin

unbundle bit_operations_syntax

text \<open>
  The dynamic strings of \<^verbatim>\<open>src/redis/redis-6.2.6-annotation/src/sds.h\<close> and \<^verbatim>\<open>sds.c\<close>.  An
  \<^verbatim>\<open>sds\<close> points behind one of five headers, chosen by the low three bits of the byte before it;
  the record \<open>sds\<close> holds that byte, the \<^verbatim>\<open>len\<close> and \<^verbatim>\<open>alloc\<close> fields of the header (cut to the
  width the header has on every assignment) and the bytes of the allocation behind the header.
  A \<^verbatim>\<open>size_t\<close> is a \<open>nat\<close> with its wrap-around written out.  \<open>None\<close> is a \<^verbatim>\<open>NULL\<close> result, a failed
  \<^verbatim>\<open>assert\<close> or an access outside the allocation.  A C string argument is the list of the bytes
  at the pointer, followed by the terminator.
\<close>

section \<open>Data\<close>

record sds =
  sds_flags :: byte
  sds_hlen :: nat
  sds_halloc :: nat
  sds_buf :: "byte list"

text \<open>
  The allocator is the C library's, behind \<^verbatim>\<open>s_malloc_usable\<close> and its variants: the usable size
  of a block of the requested size, if there is memory for it, and what an unwritten byte holds.
\<close>

record mem =
  usable_size :: "nat \<Rightarrow> nat option"
  fresh :: "nat \<Rightarrow> byte"

definition SDS_MAX_PREALLOC :: nat where "SDS_MAX_PREALLOC = 1024 * 1024"

definition SDS_TYPE_5 :: nat where "SDS_TYPE_5 = 0"
definition SDS_TYPE_8 :: nat where "SDS_TYPE_8 = 1"
definition SDS_TYPE_16 :: nat where "SDS_TYPE_16 = 2"
definition SDS_TYPE_32 :: nat where "SDS_TYPE_32 = 3"
definition SDS_TYPE_64 :: nat where "SDS_TYPE_64 = 4"
definition SDS_TYPE_MASK :: byte where "SDS_TYPE_MASK = 7"
definition SDS_TYPE_BITS :: nat where "SDS_TYPE_BITS = 3"

named_theorems sds_consts \<open>the header types of the strings\<close>

declare SDS_TYPE_5_def [sds_consts] SDS_TYPE_8_def [sds_consts] SDS_TYPE_16_def [sds_consts]
  SDS_TYPE_32_def [sds_consts] SDS_TYPE_64_def [sds_consts] SDS_TYPE_MASK_def [sds_consts]
  SDS_TYPE_BITS_def [sds_consts]

definition SDS_TYPE_5_LEN :: "byte \<Rightarrow> nat" where
  "SDS_TYPE_5_LEN f = unat (drop_bit SDS_TYPE_BITS f)"

definition sdstype :: "sds \<Rightarrow> nat" where
  "sdstype s = unat (sds_flags s AND SDS_TYPE_MASK)"

text \<open>Assignments to the fields of \<^verbatim>\<open>sdshdr8\<close>, \<^verbatim>\<open>sdshdr16\<close>, \<^verbatim>\<open>sdshdr32\<close> and \<^verbatim>\<open>sdshdr64\<close>.\<close>

definition hdr_bits :: "nat \<Rightarrow> nat" where
  "hdr_bits type =
     (if type = SDS_TYPE_8 then 8 else if type = SDS_TYPE_16 then 16
      else if type = SDS_TYPE_32 then 32 else 64)"

definition set_hlen :: "nat \<Rightarrow> sds \<Rightarrow> nat \<Rightarrow> sds" where
  "set_hlen type s n = s\<lparr>sds_hlen := n mod 2 ^ hdr_bits type\<rparr>"

definition set_halloc :: "nat \<Rightarrow> sds \<Rightarrow> nat \<Rightarrow> sds" where
  "set_halloc type s n = s\<lparr>sds_halloc := n mod 2 ^ hdr_bits type\<rparr>"

text \<open>Reads and writes at \<^verbatim>\<open>s + i\<close>.\<close>

definition sds_put :: "sds \<Rightarrow> nat \<Rightarrow> byte list \<Rightarrow> sds option" where
  "sds_put s i bs =
     (if i + length bs \<le> length (sds_buf s) then Some (s\<lparr>sds_buf := put_bytes (sds_buf s) i bs\<rparr>) else None)"

definition sds_get :: "sds \<Rightarrow> nat \<Rightarrow> nat \<Rightarrow> byte list option" where
  "sds_get s i n = (if i + n \<le> length (sds_buf s) then Some (get_bytes (sds_buf s) i n) else None)"

section \<open>Header access (sds.h)\<close>

definition sdslen :: "sds \<Rightarrow> nat" where
  "sdslen s =
     (let type = sdstype s in
      if type = SDS_TYPE_5 then SDS_TYPE_5_LEN (sds_flags s)
      else if type = SDS_TYPE_8 then sds_hlen s
      else if type = SDS_TYPE_16 then sds_hlen s
      else if type = SDS_TYPE_32 then sds_hlen s
      else if type = SDS_TYPE_64 then sds_hlen s
      else 0)"

text \<open>The small fields are promoted to \<^verbatim>\<open>int\<close>, and the result is converted to \<^verbatim>\<open>size_t\<close>.\<close>

definition sdsavail :: "sds \<Rightarrow> nat" where
  "sdsavail s =
     (let type = sdstype s; diff = int (sds_halloc s) - int (sds_hlen s) in
      if type = SDS_TYPE_5 then 0
      else if type = SDS_TYPE_8 then nat (diff mod 2 ^ 64)
      else if type = SDS_TYPE_16 then nat (diff mod 2 ^ 64)
      else if type = SDS_TYPE_32 then nat (diff mod 2 ^ 32)
      else if type = SDS_TYPE_64 then nat (diff mod 2 ^ 64)
      else 0)"

definition sdssetlen :: "sds \<Rightarrow> nat \<Rightarrow> sds" where
  "sdssetlen s newlen =
     (let type = sdstype s in
      if type = SDS_TYPE_5 then s\<lparr>sds_flags := of_nat (SDS_TYPE_5 OR push_bit SDS_TYPE_BITS newlen)\<rparr>
      else if type = SDS_TYPE_8 then set_hlen SDS_TYPE_8 s newlen
      else if type = SDS_TYPE_16 then set_hlen SDS_TYPE_16 s newlen
      else if type = SDS_TYPE_32 then set_hlen SDS_TYPE_32 s newlen
      else if type = SDS_TYPE_64 then set_hlen SDS_TYPE_64 s newlen
      else s)"

definition sdsinclen :: "sds \<Rightarrow> nat \<Rightarrow> sds" where
  "sdsinclen s inc =
     (let type = sdstype s in
      if type = SDS_TYPE_5 then
        (let newlen = (SDS_TYPE_5_LEN (sds_flags s) + inc) mod 2 ^ 8 in
         s\<lparr>sds_flags := of_nat (SDS_TYPE_5 OR push_bit SDS_TYPE_BITS newlen)\<rparr>)
      else if type = SDS_TYPE_8 then set_hlen SDS_TYPE_8 s (sds_hlen s + inc)
      else if type = SDS_TYPE_16 then set_hlen SDS_TYPE_16 s (sds_hlen s + inc)
      else if type = SDS_TYPE_32 then set_hlen SDS_TYPE_32 s (sds_hlen s + inc)
      else if type = SDS_TYPE_64 then set_hlen SDS_TYPE_64 s (sds_hlen s + inc)
      else s)"

definition sdsalloc :: "sds \<Rightarrow> nat" where
  "sdsalloc s =
     (let type = sdstype s in
      if type = SDS_TYPE_5 then SDS_TYPE_5_LEN (sds_flags s)
      else if type = SDS_TYPE_8 then sds_halloc s
      else if type = SDS_TYPE_16 then sds_halloc s
      else if type = SDS_TYPE_32 then sds_halloc s
      else if type = SDS_TYPE_64 then sds_halloc s
      else 0)"

definition sdssetalloc :: "sds \<Rightarrow> nat \<Rightarrow> sds" where
  "sdssetalloc s newlen =
     (let type = sdstype s in
      if type = SDS_TYPE_5 then s
      else if type = SDS_TYPE_8 then set_halloc SDS_TYPE_8 s newlen
      else if type = SDS_TYPE_16 then set_halloc SDS_TYPE_16 s newlen
      else if type = SDS_TYPE_32 then set_halloc SDS_TYPE_32 s newlen
      else if type = SDS_TYPE_64 then set_halloc SDS_TYPE_64 s newlen
      else s)"

section \<open>Creation and space (sds.c)\<close>

definition sdsHdrSize :: "nat \<Rightarrow> nat" where
  "sdsHdrSize type =
     (if type = SDS_TYPE_5 then 1 else if type = SDS_TYPE_8 then 3 else if type = SDS_TYPE_16 then 5
      else if type = SDS_TYPE_32 then 9 else if type = SDS_TYPE_64 then 17 else 0)"

definition sdsReqType :: "nat \<Rightarrow> nat" where
  "sdsReqType string_size =
     (if string_size < 2 ^ 5 then SDS_TYPE_5
      else if string_size < 2 ^ 8 then SDS_TYPE_8
      else if string_size < 2 ^ 16 then SDS_TYPE_16
      else if string_size < 2 ^ 32 then SDS_TYPE_32
      else SDS_TYPE_64)"

definition sdsTypeMaxSize :: "nat \<Rightarrow> nat" where
  "sdsTypeMaxSize type =
     (if type = SDS_TYPE_5 then 2 ^ 5 - 1
      else if type = SDS_TYPE_8 then 2 ^ 8 - 1
      else if type = SDS_TYPE_16 then 2 ^ 16 - 1
      else if type = SDS_TYPE_32 then 2 ^ 32 - 1
      else 2 ^ 64 - 1)"

text \<open>
  The three kinds of \<^verbatim>\<open>init\<close> pointer: \<^verbatim>\<open>NULL\<close>, \<^verbatim>\<open>SDS_NOINIT\<close> and a pointer to bytes.  With the first
  the block is zeroed, header included, before the header is written.
\<close>

datatype sds_init = Init_null | Init_noinit | Init_bytes "byte list"

definition priv_sdsnewlen :: "mem \<Rightarrow> sds_init \<Rightarrow> nat \<Rightarrow> sds option" where
  "priv_sdsnewlen M init initlen =
     (let type0 = sdsReqType initlen;
          type = (if type0 = SDS_TYPE_5 \<and> initlen = 0 then SDS_TYPE_8 else type0);
          hdrlen = sdsHdrSize type in
      if \<not> (initlen + hdrlen + 1) mod 2 ^ 64 > initlen then None
      else do {
        total \<leftarrow> usable_size M (hdrlen + initlen + 1);
        let buf0 = map (fresh M) [hdrlen..<total];
        let buf = (if init = Init_null then put_bytes buf0 0 (replicate (initlen + 1) 0) else buf0);
        let usable0 = total - hdrlen - 1;
        let usable = (if usable0 > sdsTypeMaxSize type then sdsTypeMaxSize type else usable0);
        let s = (if type = SDS_TYPE_5
                 then \<lparr>sds_flags = of_nat (type OR push_bit SDS_TYPE_BITS initlen), sds_hlen = 0,
                   sds_halloc = 0, sds_buf = buf\<rparr>
                 else set_halloc type (set_hlen type
                   \<lparr>sds_flags = of_nat type, sds_hlen = 0, sds_halloc = 0, sds_buf = buf\<rparr> initlen) usable);
        s' \<leftarrow> (case init of
                 Init_bytes bs \<Rightarrow> if initlen \<le> length bs then sds_put s 0 (take initlen bs) else None
               | _ \<Rightarrow> Some s);
        sds_put s' initlen [0]
      })"

definition sdsnewlen :: "mem \<Rightarrow> sds_init \<Rightarrow> nat \<Rightarrow> sds option" where
  "sdsnewlen M init initlen = priv_sdsnewlen M init initlen"

definition sdstrynewlen :: "mem \<Rightarrow> sds_init \<Rightarrow> nat \<Rightarrow> sds option" where
  "sdstrynewlen M init initlen = priv_sdsnewlen M init initlen"

definition sdsempty :: "mem \<Rightarrow> sds option" where
  "sdsempty M = sdsnewlen M (Init_bytes []) 0"

definition strlen :: "byte list \<Rightarrow> nat" where
  "strlen t = length (takeWhile (\<lambda>c. c \<noteq> 0) t)"

definition sdsnew :: "mem \<Rightarrow> byte list option \<Rightarrow> sds option" where
  "sdsnew M init =
     (let initlen = (case init of None \<Rightarrow> 0 | Some t \<Rightarrow> strlen t) in
      sdsnewlen M (case init of None \<Rightarrow> Init_null | Some t \<Rightarrow> Init_bytes t) initlen)"

definition sdsdup :: "mem \<Rightarrow> sds \<Rightarrow> sds option" where
  "sdsdup M s = sdsnewlen M (Init_bytes (sds_buf s)) (sdslen s)"

definition sdsupdatelen :: "sds \<Rightarrow> sds" where
  "sdsupdatelen s = (let reallen = strlen (sds_buf s) in sdssetlen s reallen)"

definition sdsclear :: "sds \<Rightarrow> sds option" where
  "sdsclear s = sds_put (sdssetlen s 0) 0 [0]"

text \<open>
  The two ways to get a larger block.  \<^verbatim>\<open>s_realloc\<close> keeps the header and the bytes behind it;
  otherwise a new block gets \<^verbatim>\<open>len + 1\<close> bytes of the old one.
\<close>

definition sds_realloc_block :: "mem \<Rightarrow> sds \<Rightarrow> nat \<Rightarrow> nat \<Rightarrow> (sds \<times> nat) option" where
  "sds_realloc_block M s hdrlen n =
     do {
       total \<leftarrow> usable_size M (hdrlen + n + 1);
       Some (s\<lparr>sds_buf := realloc_bytes (fresh M) (sds_buf s) (total - hdrlen)\<rparr>, total)
     }"

definition sds_move_block :: "mem \<Rightarrow> sds \<Rightarrow> nat \<Rightarrow> nat \<Rightarrow> nat \<Rightarrow> nat \<Rightarrow> (sds \<times> nat) option" where
  "sds_move_block M s type len hdrlen n =
     do {
       total \<leftarrow> usable_size M (hdrlen + n + 1);
       old \<leftarrow> sds_get s 0 (len + 1);
       let s' = \<lparr>sds_flags = of_nat type, sds_hlen = 0, sds_halloc = 0,
                  sds_buf = map (fresh M) [hdrlen..<total]\<rparr>;
       s'' \<leftarrow> sds_put s' 0 old;
       Some (sdssetlen s'' len, total)
     }"

definition sdsMakeRoomFor :: "mem \<Rightarrow> sds \<Rightarrow> nat \<Rightarrow> sds option" where
  "sdsMakeRoomFor M s addlen =
     (let avail = sdsavail s; oldtype = sdstype s in
      if avail \<ge> addlen then Some s
      else
        (let len = sdslen s; reqlen = (len + addlen) mod 2 ^ 64 in
         if \<not> reqlen > len then None
         else
           (let newlen = (if reqlen < SDS_MAX_PREALLOC then reqlen * 2 mod 2 ^ 64
                          else (reqlen + SDS_MAX_PREALLOC) mod 2 ^ 64);
                type0 = sdsReqType newlen;
                type = (if type0 = SDS_TYPE_5 then SDS_TYPE_8 else type0);
                hdrlen = sdsHdrSize type in
            if \<not> (hdrlen + newlen + 1) mod 2 ^ 64 > reqlen then None
            else do {
              (s', total) \<leftarrow>
                (if oldtype = type then sds_realloc_block M s hdrlen newlen
                 else sds_move_block M s type len hdrlen newlen);
              let usable0 = total - hdrlen - 1;
              let usable = (if usable0 > sdsTypeMaxSize type then sdsTypeMaxSize type else usable0);
              Some (sdssetalloc s' usable)
            })))"

definition sdsRemoveFreeSpace :: "mem \<Rightarrow> sds \<Rightarrow> sds option" where
  "sdsRemoveFreeSpace M s =
     (let oldtype = sdstype s; oldhdrlen = sdsHdrSize oldtype; len = sdslen s; avail = sdsavail s in
      if avail = 0 then Some s
      else
        (let type = sdsReqType len; hdrlen = sdsHdrSize type in
         do {
           (s', _) \<leftarrow>
             (if oldtype = type \<or> type > SDS_TYPE_8 then sds_realloc_block M s oldhdrlen len
              else sds_move_block M s type len hdrlen len);
           Some (sdssetalloc s' len)
         }))"

definition sdsAllocSize :: "sds \<Rightarrow> nat" where
  "sdsAllocSize s = (let alloc = sdsalloc s in sdsHdrSize (sdstype s) + alloc + 1)"

text \<open>
  \<^verbatim>\<open>incr\<close> is a \<^verbatim>\<open>ssize_t\<close>; the casts of the source cut \<^verbatim>\<open>-incr\<close> to 32 or 64 bits.  The small fields
  are compared as signed values, the 32 and 64 bit ones as unsigned values.
\<close>

definition sdsIncrLen :: "sds \<Rightarrow> int \<Rightarrow> sds option" where
  "sdsIncrLen s incr =
     (let type = sdstype s; l = int (sds_hlen s); diff = int (sds_halloc s) - l in
      if type = SDS_TYPE_5 then
        (let oldlen = int (SDS_TYPE_5_LEN (sds_flags s)) in
         if (incr > 0 \<and> oldlen + incr < 32) \<or> (incr < 0 \<and> oldlen \<ge> - incr mod 2 ^ 32) then
           sds_put (s\<lparr>sds_flags := word_of_int ((oldlen + incr) * 8)\<rparr>) (nat ((oldlen + incr) mod 2 ^ 64)) [0]
         else None)
      else if type = SDS_TYPE_8 then
        (if (incr \<ge> 0 \<and> diff \<ge> incr) \<or> (incr < 0 \<and> l \<ge> - incr mod 2 ^ 32) then
           (let len = nat ((l + incr) mod 2 ^ 8) in sds_put (set_hlen SDS_TYPE_8 s len) len [0])
         else None)
      else if type = SDS_TYPE_16 then
        (if (incr \<ge> 0 \<and> diff \<ge> incr) \<or> (incr < 0 \<and> l \<ge> - incr mod 2 ^ 32) then
           (let len = nat ((l + incr) mod 2 ^ 16) in sds_put (set_hlen SDS_TYPE_16 s len) len [0])
         else None)
      else if type = SDS_TYPE_32 then
        (if (incr \<ge> 0 \<and> diff mod 2 ^ 32 \<ge> incr mod 2 ^ 32) \<or> (incr < 0 \<and> l \<ge> - incr mod 2 ^ 32) then
           (let len = nat ((l + incr) mod 2 ^ 32) in sds_put (set_hlen SDS_TYPE_32 s len) len [0])
         else None)
      else if type = SDS_TYPE_64 then
        (if (incr \<ge> 0 \<and> diff mod 2 ^ 64 \<ge> incr mod 2 ^ 64) \<or> (incr < 0 \<and> l \<ge> - incr mod 2 ^ 64) then
           (let len = nat ((l + incr) mod 2 ^ 64) in sds_put (set_hlen SDS_TYPE_64 s len) len [0])
         else None)
      else sds_put s 0 [0])"

text \<open>The use of the two functions that the comment of \<^verbatim>\<open>sdsIncrLen\<close> shows; \<open>bs\<close> is what was read.\<close>

definition sdsReadInto :: "mem \<Rightarrow> sds \<Rightarrow> nat \<Rightarrow> byte list \<Rightarrow> sds option" where
  "sdsReadInto M s n bs =
     do {
       s1 \<leftarrow> sdsMakeRoomFor M s n;
       s2 \<leftarrow> sds_put s1 (sdslen s) bs;
       sdsIncrLen s2 (int (length bs))
     }"

section \<open>Contents\<close>

definition sdsgrowzero :: "mem \<Rightarrow> sds \<Rightarrow> nat \<Rightarrow> sds option" where
  "sdsgrowzero M s len =
     (let curlen = sdslen s in
      if len \<le> curlen then Some s
      else do {
        s \<leftarrow> sdsMakeRoomFor M s (len - curlen);
        s \<leftarrow> sds_put s curlen (replicate (len - curlen + 1) 0);
        Some (sdssetlen s len)
      })"

definition sdscatlen :: "mem \<Rightarrow> sds \<Rightarrow> byte list \<Rightarrow> sds option" where
  "sdscatlen M s t =
     (let curlen = sdslen s; len = length t in
      do {
        s \<leftarrow> sdsMakeRoomFor M s len;
        s \<leftarrow> sds_put s curlen t;
        let s = sdssetlen s ((curlen + len) mod 2 ^ 64);
        sds_put s ((curlen + len) mod 2 ^ 64) [0]
      })"

definition sdscat :: "mem \<Rightarrow> sds \<Rightarrow> byte list \<Rightarrow> sds option" where
  "sdscat M s t = sdscatlen M s (take (strlen t) t)"

definition sdscatsds :: "mem \<Rightarrow> sds \<Rightarrow> sds \<Rightarrow> sds option" where
  "sdscatsds M s t = do { bs \<leftarrow> sds_get t 0 (sdslen t); sdscatlen M s bs }"

definition sdscpylen :: "mem \<Rightarrow> sds \<Rightarrow> byte list \<Rightarrow> sds option" where
  "sdscpylen M s t =
     (let len = length t in
      do {
        s \<leftarrow> (if sdsalloc s < len
              then sdsMakeRoomFor M s (nat ((int len - int (sdslen s)) mod 2 ^ 64)) else Some s);
        s \<leftarrow> sds_put s 0 t;
        s \<leftarrow> sds_put s len [0];
        Some (sdssetlen s len)
      })"

definition sdscpy :: "mem \<Rightarrow> sds \<Rightarrow> byte list \<Rightarrow> sds option" where
  "sdscpy M s t = sdscpylen M s (take (strlen t) t)"

text \<open>\<^verbatim>\<open>strchr\<close> also finds the terminator.\<close>

definition strchr :: "byte list \<Rightarrow> byte \<Rightarrow> bool" where
  "strchr cset c \<longleftrightarrow> c = 0 \<or> c \<in> set (takeWhile (\<lambda>c. c \<noteq> 0) cset)"

text \<open>The two loops of \<^verbatim>\<open>sdstrim\<close>, with the pointers as offsets from \<^verbatim>\<open>s\<close>.\<close>

definition byte_at :: "sds \<Rightarrow> int \<Rightarrow> byte option" where
  "byte_at s i = (if 0 \<le> i \<and> nat i < length (sds_buf s) then Some (sds_buf s ! nat i) else None)"

function trimStart :: "sds \<Rightarrow> byte list \<Rightarrow> int \<Rightarrow> int \<Rightarrow> int option" where
  "trimStart s cset sp e =
     (if sp \<le> e then
        (case byte_at s sp of None \<Rightarrow> None
         | Some c \<Rightarrow> if strchr cset c then trimStart s cset (sp + 1) e else Some sp)
      else Some sp)"
  by pat_completeness auto

termination by (relation "measure (\<lambda>(s, cset, sp, e). nat (e + 1 - sp))") auto

function trimEnd :: "sds \<Rightarrow> byte list \<Rightarrow> int \<Rightarrow> int \<Rightarrow> int option" where
  "trimEnd s cset ep sp =
     (if ep > sp then
        (case byte_at s ep of None \<Rightarrow> None
         | Some c \<Rightarrow> if strchr cset c then trimEnd s cset (ep - 1) sp else Some ep)
      else Some ep)"
  by pat_completeness auto

termination by (relation "measure (\<lambda>(s, cset, ep, sp). nat (ep - sp))") auto

declare trimStart.simps [simp del] trimEnd.simps [simp del]

definition sdstrim :: "sds \<Rightarrow> byte list \<Rightarrow> sds option" where
  "sdstrim s cset =
     (let e = int (sdslen s) - 1 in
      do {
        sp \<leftarrow> trimStart s cset 0 e;
        ep \<leftarrow> trimEnd s cset e sp;
        let len = (if sp > ep then 0 else nat (ep - sp + 1));
        s \<leftarrow> (if sp \<noteq> 0 then do { bs \<leftarrow> sds_get s (nat sp) len; sds_put s 0 bs } else Some s);
        s \<leftarrow> sds_put s len [0];
        Some (sdssetlen s len)
      })"

definition sdssubstr :: "sds \<Rightarrow> nat \<Rightarrow> nat \<Rightarrow> sds option" where
  "sdssubstr s start len =
     (let oldlen = sdslen s;
          (start, len) = (if start \<ge> oldlen then (0, 0) else (start, len));
          len = (if len > oldlen - start then oldlen - start else len) in
      do {
        s \<leftarrow> (if len > 0 then do { bs \<leftarrow> sds_get s start len; sds_put s 0 bs } else Some s);
        s \<leftarrow> sds_put s len [0];
        Some (sdssetlen s len)
      })"

text \<open>
  The \<^verbatim>\<open>ssize_t\<close> arguments are converted to \<^verbatim>\<open>size_t\<close> in the call.  \<open>None\<close> is also a signed overflow of
  \<^verbatim>\<open>end-start+1\<close>.
\<close>

definition sdsrange :: "sds \<Rightarrow> int \<Rightarrow> int \<Rightarrow> sds option" where
  "sdsrange s start e =
     (let len = int (sdslen s) in
      if len = 0 then Some s
      else
        (let start = (if start < 0 then len + start else start);
             e = (if e < 0 then len + e else e);
             newlen = (if start > e then 0 else e - start + 1) in
         if newlen > LLONG_MAX then None
         else sdssubstr s (nat (start mod 2 ^ 64)) (nat newlen)))"

definition toupper_byte :: "byte \<Rightarrow> byte" where
  "toupper_byte c = (if 97 \<le> c \<and> c \<le> 122 then c - 32 else c)"

text \<open>The loops that replace every byte of the string in place.\<close>

definition sds_map :: "(byte \<Rightarrow> byte) \<Rightarrow> sds \<Rightarrow> sds option" where
  "sds_map f s = do { bs \<leftarrow> sds_get s 0 (sdslen s); sds_put s 0 (map f bs) }"

definition sdstolower :: "sds \<Rightarrow> sds option" where
  "sdstolower s = sds_map tolower_byte s"

definition sdstoupper :: "sds \<Rightarrow> sds option" where
  "sdstoupper s = sds_map toupper_byte s"

text \<open>Both arrays must hold \<open>setlen\<close> bytes, which the inner loop runs over.\<close>

definition sdsmapchars :: "sds \<Rightarrow> byte list \<Rightarrow> byte list \<Rightarrow> nat \<Rightarrow> sds option" where
  "sdsmapchars s from to setlen =
     (if setlen \<le> length from \<and> setlen \<le> length to
      then sds_map (\<lambda>c. memmapInner c (take setlen from) (take setlen to)) s else None)"

text \<open>The sign of \<^verbatim>\<open>memcmp\<close>, which is all the C library promises.\<close>

fun memcmp :: "byte list \<Rightarrow> byte list \<Rightarrow> int" where
  "memcmp (x # xs) (y # ys) = (if x < y then -1 else if y < x then 1 else memcmp xs ys)"
| "memcmp _ _ = 0"

definition sdscmp :: "sds \<Rightarrow> sds \<Rightarrow> int option" where
  "sdscmp s1 s2 =
     (let l1 = sdslen s1; l2 = sdslen s2; minlen = (if l1 < l2 then l1 else l2) in
      do {
        b1 \<leftarrow> sds_get s1 0 minlen;
        b2 \<leftarrow> sds_get s2 0 minlen;
        let cmp = memcmp b1 b2;
        Some (if cmp = 0 then (if l1 > l2 then 1 else if l1 < l2 then -1 else 0) else cmp)
      })"

section \<open>Well-formed strings\<close>

definition sds_hdr_ok :: "sds \<Rightarrow> bool" where
  "sds_hdr_ok s \<longleftrightarrow>
     sdstype s \<le> SDS_TYPE_64 \<and> sdslen s \<le> sdsalloc s \<and> sdsalloc s \<le> sdsTypeMaxSize (sdstype s) \<and>
     sdsalloc s < length (sds_buf s)"

definition sds_ok :: "sds \<Rightarrow> bool" where
  "sds_ok s \<longleftrightarrow> sds_hdr_ok s \<and> sds_buf s ! sdslen s = 0"

lemmas sds_ok_defs = sds_ok_def sds_hdr_ok_def

text \<open>The bytes a string stands for.\<close>

definition sds_val :: "sds \<Rightarrow> byte list" where
  "sds_val s = take (sdslen s) (sds_buf s)"

lemma sds_types: "t \<le> SDS_TYPE_64 \<Longrightarrow> t \<in> {SDS_TYPE_5, SDS_TYPE_8, SDS_TYPE_16, SDS_TYPE_32, SDS_TYPE_64}"
  by (auto simp: sds_consts)

lemma type5_flags:
  assumes "n < 32"
  shows "unat (of_nat (SDS_TYPE_5 OR push_bit SDS_TYPE_BITS n) AND SDS_TYPE_MASK) = 0"
    "SDS_TYPE_5_LEN (of_nat (SDS_TYPE_5 OR push_bit SDS_TYPE_BITS n)) = n"
proof -
  define w :: byte where "w = of_nat (SDS_TYPE_5 OR push_bit SDS_TYPE_BITS n)"
  have w: "unat w = n * 8" using assms by (simp add: w_def sds_consts push_bit_eq_mult unat_of_nat del: of_nat_mult)
  have "w AND SDS_TYPE_MASK = take_bit 3 w" by (simp add: take_bit_eq_mask mask_eq_exp_minus_1 sds_consts)
  then have "unat (w AND SDS_TYPE_MASK) = unat w mod 8"
    by (simp add: unsigned_take_bit_eq) (simp add: take_bit_eq_mod)
  then show "unat (of_nat (SDS_TYPE_5 OR push_bit SDS_TYPE_BITS n) AND SDS_TYPE_MASK) = 0"
    using w by (simp flip: w_def)
  have "unat (drop_bit 3 w) = unat w div 8" unfolding unat_drop_bit_eq by (simp add: drop_bit_eq_div)
  then show "SDS_TYPE_5_LEN (of_nat (SDS_TYPE_5 OR push_bit SDS_TYPE_BITS n)) = n"
    using w unfolding w_def [symmetric] SDS_TYPE_5_LEN_def by (simp add: SDS_TYPE_BITS_def)
qed

lemma type5_len_less: "SDS_TYPE_5_LEN f < 32"
proof -
  have "unat (drop_bit 3 f) = unat f div 8" unfolding unat_drop_bit_eq by (simp add: drop_bit_eq_div)
  then show ?thesis using unat_less_byte [of f] by (simp add: SDS_TYPE_5_LEN_def SDS_TYPE_BITS_def)
qed

lemma type_flags: "t \<le> SDS_TYPE_64 \<Longrightarrow> unat (of_nat t AND SDS_TYPE_MASK) = t"
  using sds_types [of t] by (auto simp: sds_consts)

named_theorems sds_view \<open>the header seen through its access functions\<close>

lemma sdstype_update [sds_view]:
  "sdstype (s\<lparr>sds_buf := b\<rparr>) = sdstype s" "sdslen (s\<lparr>sds_buf := b\<rparr>) = sdslen s"
  "sdsalloc (s\<lparr>sds_buf := b\<rparr>) = sdsalloc s" "sdsavail (s\<lparr>sds_buf := b\<rparr>) = sdsavail s"
  by (simp_all add: sdstype_def sdslen_def sdsalloc_def sdsavail_def Let_def)

lemma sdssetlen_5:
  assumes "sdstype s = SDS_TYPE_5" "n < 32"
  shows "sdstype (sdssetlen s n) = SDS_TYPE_5" "sdslen (sdssetlen s n) = n"
    "sdsalloc (sdssetlen s n) = n" "sds_buf (sdssetlen s n) = sds_buf s"
proof -
  let ?s = "s\<lparr>sds_flags := of_nat (SDS_TYPE_5 OR push_bit SDS_TYPE_BITS n)\<rparr>"
  have eq: "sdssetlen s n = ?s" using assms(1) by (simp add: sdssetlen_def)
  have "sdstype ?s = SDS_TYPE_5"
    using type5_flags(1) [OF assms(2)] by (simp add: sdstype_def SDS_TYPE_5_def)
  then show "sdstype (sdssetlen s n) = SDS_TYPE_5" "sdslen (sdssetlen s n) = n"
    "sdsalloc (sdssetlen s n) = n" "sds_buf (sdssetlen s n) = sds_buf s"
    unfolding eq using type5_flags(2) [OF assms(2)] by (simp_all add: sdslen_def sdsalloc_def)
qed

lemma sdssetlen_wide:
  assumes "sdstype s \<le> SDS_TYPE_64" "sdstype s \<noteq> SDS_TYPE_5"
  shows "sdssetlen s n = s\<lparr>sds_hlen := n mod 2 ^ hdr_bits (sdstype s)\<rparr>"
  using sds_types [OF assms(1)] assms(2) by (auto simp: sdssetlen_def set_hlen_def)

lemma sdssetalloc_wide:
  assumes "sdstype s \<le> SDS_TYPE_64" "sdstype s \<noteq> SDS_TYPE_5"
  shows "sdssetalloc s n = s\<lparr>sds_halloc := n mod 2 ^ hdr_bits (sdstype s)\<rparr>"
  using sds_types [OF assms(1)] assms(2) by (auto simp: sdssetalloc_def set_halloc_def)

lemma wide_fields:
  assumes "sdstype s \<le> SDS_TYPE_64" "sdstype s \<noteq> SDS_TYPE_5"
  shows "sdslen s = sds_hlen s" "sdsalloc s = sds_halloc s"
  using sds_types [OF assms(1)] assms(2) by (auto simp: sdslen_def sdsalloc_def)

lemma wide_max:
  assumes "t \<le> SDS_TYPE_64" "t \<noteq> SDS_TYPE_5"
  shows "sdsTypeMaxSize t = 2 ^ hdr_bits t - 1"
  using sds_types [OF assms(1)] assms(2) by (auto simp: sdsTypeMaxSize_def hdr_bits_def sds_consts)

lemma max_mod:
  assumes "t \<le> SDS_TYPE_64" "t \<noteq> SDS_TYPE_5" "n \<le> sdsTypeMaxSize t"
  shows "n mod 2 ^ hdr_bits t = n"
proof -
  have "0 < (2 :: nat) ^ hdr_bits t" by simp
  then have "n < 2 ^ hdr_bits t" using assms(3) unfolding wide_max [OF assms(1,2)] by linarith
  then show ?thesis by simp
qed

lemma sdssetlen_view [sds_view]:
  assumes "sdstype s \<le> SDS_TYPE_64" "n \<le> sdsTypeMaxSize (sdstype s)"
  shows "sdstype (sdssetlen s n) = sdstype s" "sdslen (sdssetlen s n) = n"
    "sdsalloc (sdssetlen s n) = (if sdstype s = SDS_TYPE_5 then n else sdsalloc s)"
    "sds_buf (sdssetlen s n) = sds_buf s"
proof -
  have "sdstype (sdssetlen s n) = sdstype s \<and> sdslen (sdssetlen s n) = n \<and>
    sdsalloc (sdssetlen s n) = (if sdstype s = SDS_TYPE_5 then n else sdsalloc s) \<and>
    sds_buf (sdssetlen s n) = sds_buf s"
  proof (cases "sdstype s = SDS_TYPE_5")
    case True
    then show ?thesis using assms sdssetlen_5 [of s n] by (simp add: sdsTypeMaxSize_def)
  next
    case False
    let ?s = "s\<lparr>sds_hlen := n\<rparr>"
    have ty: "sdstype ?s = sdstype s" by (simp add: sdstype_def)
    have "sdssetlen s n = ?s"
      using sdssetlen_wide [OF assms(1) False] max_mod [OF assms(1) False assms(2)] by simp
    moreover have "sdslen ?s = n" "sdsalloc ?s = sdsalloc s"
      using wide_fields [of ?s] wide_fields [of s] assms(1) False ty by simp_all
    ultimately show ?thesis using False ty by simp
  qed
  then show "sdstype (sdssetlen s n) = sdstype s" "sdslen (sdssetlen s n) = n"
    "sdsalloc (sdssetlen s n) = (if sdstype s = SDS_TYPE_5 then n else sdsalloc s)"
    "sds_buf (sdssetlen s n) = sds_buf s"
    by blast+
qed

lemma sdssetalloc_view [sds_view]:
  assumes "sdstype s \<le> SDS_TYPE_64" "sdstype s \<noteq> SDS_TYPE_5" "n \<le> sdsTypeMaxSize (sdstype s)"
  shows "sdstype (sdssetalloc s n) = sdstype s" "sdslen (sdssetalloc s n) = sdslen s"
    "sdsalloc (sdssetalloc s n) = n" "sds_buf (sdssetalloc s n) = sds_buf s"
proof -
  let ?s = "s\<lparr>sds_halloc := n\<rparr>"
  have eq: "sdssetalloc s n = ?s"
    using sdssetalloc_wide [OF assms(1,2)] max_mod [OF assms(1,2,3)] by simp
  have ty: "sdstype ?s = sdstype s" by (simp add: sdstype_def)
  then show "sdstype (sdssetalloc s n) = sdstype s" "sdslen (sdssetalloc s n) = sdslen s"
    "sdsalloc (sdssetalloc s n) = n" "sds_buf (sdssetalloc s n) = sds_buf s"
    unfolding eq using wide_fields [of ?s] wide_fields [of s] assms(1,2) by simp_all
qed

lemma sdsavail_eq:
  assumes "sds_hdr_ok s"
  shows "sdsavail s = sdsalloc s - sdslen s"
proof (cases "sdstype s = SDS_TYPE_5")
  case True
  then show ?thesis by (simp add: sdsavail_def sdsalloc_def sdslen_def)
next
  case False
  have ty: "sdstype s \<le> SDS_TYPE_64" using assms by (simp add: sds_ok_defs)
  define a l where "a = sds_halloc s" and "l = sds_hlen s"
  have al: "l \<le> a" "a \<le> sdsTypeMaxSize (sdstype s)"
    using assms wide_fields [OF ty False] by (simp_all add: sds_ok_defs a_def l_def)
  have small: "(int a - int l) mod 2 ^ k = int (a - l)" if "a < 2 ^ k" for k
  proof -
    have "int a < 2 ^ k" using that by (metis of_nat_less_iff of_nat_numeral of_nat_power)
    then have "0 \<le> int a - int l" "int a - int l < 2 ^ k" using al(1) by linarith+
    then have "(int a - int l) mod 2 ^ k = int a - int l" by (rule mod_pos_pos_trivial)
    then show ?thesis using al(1) by (simp only: of_nat_diff)
  qed
  have "sdsavail s = a - l"
    using sds_types [OF ty] False al(2) small [of 32] small [of 64]
    by (auto simp: sdsavail_def sdsTypeMaxSize_def sds_consts simp flip: a_def l_def)
  then show ?thesis using wide_fields [OF ty False] by (simp add: a_def l_def)
qed

lemma sds_ok_hdr: "sds_ok s \<Longrightarrow> sds_hdr_ok s"
  by (simp add: sds_ok_def)

text \<open>Writing the bytes behind the header and then the length.\<close>

lemma sds_finish:
  assumes "sds_hdr_ok s" "length b = length (sds_buf s)" "n \<le> sdsalloc s" "b ! n = 0"
  shows "sds_ok (sdssetlen (s\<lparr>sds_buf := b\<rparr>) n)" "sds_val (sdssetlen (s\<lparr>sds_buf := b\<rparr>) n) = take n b"
    "sdslen (sdssetlen (s\<lparr>sds_buf := b\<rparr>) n) = n"
proof -
  have "sdstype s \<le> SDS_TYPE_64" "n \<le> sdsTypeMaxSize (sdstype s)" "n < length (sds_buf s)"
    using assms by (auto simp: sds_ok_defs)
  then show "sds_ok (sdssetlen (s\<lparr>sds_buf := b\<rparr>) n)" "sds_val (sdssetlen (s\<lparr>sds_buf := b\<rparr>) n) = take n b"
    "sdslen (sdssetlen (s\<lparr>sds_buf := b\<rparr>) n) = n"
    using assms by (auto simp: sds_ok_defs sds_val_def sds_view)
qed

lemma sds_hdrD:
  assumes "sds_hdr_ok s"
  shows "sdstype s \<le> SDS_TYPE_64" "sdslen s \<le> sdsalloc s" "sdsalloc s < length (sds_buf s)"
    "sdslen s < length (sds_buf s)" "length (sds_val s) = sdslen s"
  using assms by (auto simp: sds_hdr_ok_def sds_val_def)

lemma sds_okD:
  assumes "sds_ok s"
  shows "sdstype s \<le> SDS_TYPE_64" "sdslen s \<le> sdsalloc s" "sdsalloc s < length (sds_buf s)"
    "sdslen s < length (sds_buf s)" "sds_buf s ! sdslen s = 0" "length (sds_val s) = sdslen s"
  using assms by (auto simp: sds_ok_defs sds_val_def)

section \<open>Allocation\<close>

text \<open>
  What the strings rely on: a block is at least as large as requested, and there is memory for
  requests of up to \<open>2 ^ 63\<close> bytes.
\<close>

locale lawful_mem =
  fixes M :: mem
  assumes usable_ge: "usable_size M n = Some sz \<Longrightarrow> n \<le> sz"
    and available: "n \<le> 2 ^ 63 \<Longrightarrow> usable_size M n \<noteq> None"

lemma hdr_size_bound: "sdsHdrSize t \<le> 17"
  by (simp add: sdsHdrSize_def)

lemma ReqType_max: "n < 2 ^ 64 \<Longrightarrow> n \<le> sdsTypeMaxSize (sdsReqType n)"
  by (simp add: sdsReqType_def sdsTypeMaxSize_def sds_consts)

lemma ReqType_le: "sdsReqType n \<le> SDS_TYPE_64"
  by (simp add: sdsReqType_def sds_consts)

lemma MaxSize_8: "sdsTypeMaxSize SDS_TYPE_5 \<le> sdsTypeMaxSize SDS_TYPE_8"
  by (simp add: sdsTypeMaxSize_def sds_consts)

lemma wide_header:
  fixes b :: "byte list"
  assumes "t \<le> SDS_TYPE_64" "t \<noteq> SDS_TYPE_5" "n \<le> sdsTypeMaxSize t" "u \<le> sdsTypeMaxSize t"
  defines "s \<equiv> set_halloc t (set_hlen t \<lparr>sds_flags = of_nat t, sds_hlen = 0, sds_halloc = 0, sds_buf = b\<rparr> n) u"
  shows "sdstype s = t" "sdslen s = n" "sdsalloc s = u" "sds_buf s = b"
proof -
  have s: "s = \<lparr>sds_flags = of_nat t, sds_hlen = n, sds_halloc = u, sds_buf = b\<rparr>"
    using max_mod [OF assms(1,2,3)] max_mod [OF assms(1,2,4)] by (simp add: s_def set_halloc_def set_hlen_def)
  show t: "sdstype s = t" using type_flags [OF assms(1)] by (simp add: s sdstype_def)
  show "sdslen s = n" "sdsalloc s = u" "sds_buf s = b"
    using wide_fields [of s] assms(1,2) t by (simp_all add: s)
qed

lemma small_header:
  fixes b :: "byte list"
  assumes "n < 32"
  defines "s \<equiv> \<lparr>sds_flags = of_nat (SDS_TYPE_5 OR push_bit SDS_TYPE_BITS n), sds_hlen = 0, sds_halloc = 0, sds_buf = b\<rparr>"
  shows "sdstype s = SDS_TYPE_5" "sdslen s = n" "sdsalloc s = n" "sds_buf s = b"
  using type5_flags [OF assms(1)] by (simp_all add: s_def sdstype_def sdslen_def sdsalloc_def SDS_TYPE_5_def)

lemma sds_put_Some:
  "i + length bs \<le> length (sds_buf s) \<Longrightarrow> sds_put s i bs = Some (s\<lparr>sds_buf := put_bytes (sds_buf s) i bs\<rparr>)"
  by (simp add: sds_put_def)

lemma sds_get_Some: "i + n \<le> length (sds_buf s) \<Longrightarrow> sds_get s i n = Some (get_bytes (sds_buf s) i n)"
  by (simp add: sds_get_def)

lemma nth_put_at [simp]:
  "i < length b \<Longrightarrow> put_bytes b i [x] ! i = x"
  by (simp add: nth_put_bytes)

lemma take_put_end: "i < length b \<Longrightarrow> take i (put_bytes b i bs) = take i b"
  by (simp add: put_bytes_def)

lemma take_put_start: "length bs \<le> length b \<Longrightarrow> take (length bs) (put_bytes b 0 bs) = bs"
  by (simp add: put_bytes_def)

text \<open>A block of type \<open>t\<close> that holds the string, before its \<^verbatim>\<open>alloc\<close> field is set.\<close>

definition holds :: "sds \<Rightarrow> nat \<Rightarrow> byte list \<Rightarrow> byte \<Rightarrow> bool" where
  "holds s t v x \<longleftrightarrow> sdstype s = t \<and> t \<le> SDS_TYPE_64 \<and> sdslen s = length v \<and> length v \<le> sdsTypeMaxSize t \<and>
     length v < length (sds_buf s) \<and> take (length v) (sds_buf s) = v \<and> sds_buf s ! length v = x"

lemma sds_hdr_holds:
  assumes "sds_hdr_ok s"
  shows "holds s (sdstype s) (sds_val s) (sds_buf s ! sdslen s)"
  using sds_hdrD [OF assms] assms by (auto simp: holds_def sds_val_def sds_hdr_ok_def)

lemma holds_setalloc:
  assumes "holds s t v x" "length v \<le> u" "u < length (sds_buf s)" "u \<le> sdsTypeMaxSize t" "t = SDS_TYPE_5 \<Longrightarrow> u = length v"
  shows "sds_hdr_ok (sdssetalloc s u)" "sds_val (sdssetalloc s u) = v" "sdslen (sdssetalloc s u) = length v"
    "sdsalloc (sdssetalloc s u) = u" "sds_buf (sdssetalloc s u) ! length v = x"
proof -
  have "sds_hdr_ok (sdssetalloc s u) \<and> sds_val (sdssetalloc s u) = v \<and> sdslen (sdssetalloc s u) = length v \<and>
    sdsalloc (sdssetalloc s u) = u \<and> sds_buf (sdssetalloc s u) ! length v = x"
  proof (cases "t = SDS_TYPE_5")
    case True
    then have "sdssetalloc s u = s" using assms(1) by (simp add: holds_def sdssetalloc_def)
    moreover have "sdsalloc s = sdslen s" using assms(1) True by (simp add: holds_def sdsalloc_def sdslen_def)
    ultimately show ?thesis using assms(1) assms(5) [OF True] by (simp add: holds_def sds_hdr_ok_def sds_val_def)
  next
    case False
    then show ?thesis using assms sdssetalloc_view [of s u] by (simp add: holds_def sds_hdr_ok_def sds_val_def)
  qed
  then show "sds_hdr_ok (sdssetalloc s u)" "sds_val (sdssetalloc s u) = v" "sdslen (sdssetalloc s u) = length v"
    "sdsalloc (sdssetalloc s u) = u" "sds_buf (sdssetalloc s u) ! length v = x" by blast+
qed

lemma sdssetlen_buf: "sdssetlen (s\<lparr>sds_buf := b\<rparr>) n = (sdssetlen s n)\<lparr>sds_buf := b\<rparr>"
  by (simp add: sdssetlen_def sdstype_update(1) set_hlen_def Let_def)

lemma sds_buf_setlen [simp]: "sds_buf (sdssetlen s n) = sds_buf s"
  by (simp add: sdssetlen_def set_hlen_def Let_def)

section \<open>Operations within the allocation\<close>

text \<open>What the operations make of the bytes of the string.\<close>

definition trim_val :: "byte list \<Rightarrow> byte list \<Rightarrow> byte list" where
  "trim_val cset v = rev (dropWhile (strchr cset) (rev (dropWhile (strchr cset) v)))"

definition substr_val :: "nat \<Rightarrow> nat \<Rightarrow> byte list \<Rightarrow> byte list" where
  "substr_val start len v = take len (drop start v)"

definition range_val :: "int \<Rightarrow> int \<Rightarrow> byte list \<Rightarrow> byte list" where
  "range_val start e v =
     (let len = int (length v); start = (if start < 0 then len + start else start);
          e = (if e < 0 then len + e else e) in
      if start < 0 then [] else substr_val (nat start) (nat (e - start + 1)) v)"

lemma clear_correct:
  assumes "sds_ok s"
  shows "\<exists>s'. sdsclear s = Some s' \<and> sds_ok s' \<and> sds_val s' = []"
proof -
  let ?s = "sdssetlen (s\<lparr>sds_buf := put_bytes (sds_buf s) 0 [0]\<rparr>) 0"
  have l: "0 + length [0 :: byte] \<le> length (sds_buf s)" using sds_okD(4) [OF assms] by (cases "sds_buf s") auto
  have "put_bytes (sds_buf s) 0 [0] ! 0 = 0" by (simp add: put_bytes_def)
  then have "sds_ok ?s" "sds_val ?s = []"
    using sds_finish [OF sds_ok_hdr [OF assms] length_put_bytes [OF l], of 0] by simp_all
  moreover have "sdsclear s = Some ?s" using l by (simp add: sdsclear_def sds_put_def sdssetlen_buf)
  ultimately show ?thesis by blast
qed

text \<open>Moving a part of the string to its start and cutting the rest.\<close>

lemma cut_correct:
  assumes "sds_ok s" "start + len \<le> sdslen s"
  shows "\<exists>s'. do { s \<leftarrow> (if c then do { bs \<leftarrow> sds_get s start len; sds_put s 0 bs } else Some s);
        s \<leftarrow> sds_put s len [0]; Some (sdssetlen s len) } = Some s' \<and>
    sds_ok s' \<and> (c \<or> start = 0 \<or> len = 0 \<longrightarrow> sds_val s' = substr_val start len (sds_val s))"
proof -
  define b where "b = (if c then put_bytes (sds_buf s) 0 (get_bytes (sds_buf s) start len) else sds_buf s)"
  note ok = sds_okD [OF assms(1)]
  have len: "start + len < length (sds_buf s)" "len \<le> sdsalloc s" using ok assms(2) by simp_all
  then have b: "length b = length (sds_buf s)" by (simp add: b_def)
  have fin: "sds_ok (sdssetlen (s\<lparr>sds_buf := put_bytes b len [0]\<rparr>) len)"
    "sds_val (sdssetlen (s\<lparr>sds_buf := put_bytes b len [0]\<rparr>) len) = take len b"
    using sds_finish [OF sds_ok_hdr [OF assms(1)], of "put_bytes b len [0]" len] b len by (simp_all add: take_put_end)
  have "take len b = substr_val start len (sds_val s)" if "c \<or> start = 0 \<or> len = 0"
    using that len assms(2)
    by (auto simp: b_def substr_val_def sds_val_def get_bytes_def put_bytes_def drop_take min_absorb1)
  moreover have "do { s \<leftarrow> (if c then do { bs \<leftarrow> sds_get s start len; sds_put s 0 bs } else Some s);
        s \<leftarrow> sds_put s len [0]; Some (sdssetlen s len) } = Some (sdssetlen (s\<lparr>sds_buf := put_bytes b len [0]\<rparr>) len)"
    using b len by (simp add: sds_get_def sds_put_def b_def)
  ultimately show ?thesis using fin by (metis (no_types, lifting))
qed

lemma substr_correct:
  assumes "sds_ok s"
  shows "\<exists>s'. sdssubstr s start len = Some s' \<and> sds_ok s' \<and> sds_val s' = substr_val start len (sds_val s)"
proof -
  define oldlen where "oldlen = sdslen s"
  define st where "st = (if start \<ge> oldlen then 0 else start)"
  define ln where "ln = (if (if start \<ge> oldlen then 0 else len) > oldlen - st then oldlen - st else (if start \<ge> oldlen then 0 else len))"
  have lv: "length (sds_val s) = oldlen" using sds_okD(6) [OF assms] by (simp add: oldlen_def)
  have b: "st + ln \<le> sdslen s" by (auto simp: st_def ln_def oldlen_def)
  have def: "sdssubstr s start len =
      do { s \<leftarrow> (if ln > 0 then do { bs \<leftarrow> sds_get s st ln; sds_put s 0 bs } else Some s);
           s \<leftarrow> sds_put s ln [0]; Some (sdssetlen s ln) }"
    by (simp add: sdssubstr_def Let_def st_def ln_def oldlen_def)
  have "substr_val st ln (sds_val s) = substr_val start len (sds_val s)"
    using lv by (auto simp: substr_val_def st_def ln_def)
  then show ?thesis using cut_correct [OF assms b, of "ln > 0"] unfolding def by auto
qed

lemma range_correct:
  assumes "sds_ok s" "\<bar>start\<bar> \<le> 2 ^ 61" "\<bar>e\<bar> \<le> 2 ^ 61" "sdslen s \<le> 2 ^ 60"
  shows "\<exists>s'. sdsrange s start e = Some s' \<and> sds_ok s' \<and> sds_val s' = range_val start e (sds_val s)"
proof (cases "sdslen s = 0")
  case True
  then show ?thesis using assms(1) by (simp add: sdsrange_def range_val_def sds_val_def substr_val_def)
next
  case False
  define len where "len = int (sdslen s)"
  define st where "st = (if start < 0 then len + start else start)"
  define en where "en = (if e < 0 then len + e else e)"
  define nl where "nl = (if st > en then 0 else en - st + 1)"
  have lv: "int (length (sds_val s)) = len" using sds_okD(6) [OF assms(1)] by (simp add: len_def)
  have l: "0 < len" "len \<le> 2 ^ 60" using False assms(4) by (simp_all add: len_def)
  then have bounds: "nl \<le> LLONG_MAX" "- (2 ^ 62) \<le> st" "st \<le> 2 ^ 62"
    using assms(2,3) by (auto simp: nl_def st_def en_def LLONG_MAX_def)
  obtain s' where s': "sdssubstr s (nat (st mod 2 ^ 64)) (nat nl) = Some s'" "sds_ok s'"
    "sds_val s' = substr_val (nat (st mod 2 ^ 64)) (nat nl) (sds_val s)"
    using substr_correct [OF assms(1)] by blast
  have "sdsrange s start e = Some s'"
    unfolding sdsrange_def Let_def len_def [symmetric] st_def [symmetric] en_def [symmetric] nl_def [symmetric]
    using bounds(1) l(1) s'(1) by simp
  moreover have "substr_val (nat (st mod 2 ^ 64)) (nat nl) (sds_val s) = range_val start e (sds_val s)"
  proof (cases "st < 0")
    case True
    then have "st mod 2 ^ 64 = st + 2 ^ 64"
      using bounds by (intro mod_pos_pos_trivial [of "st + 2 ^ 64" "2 ^ 64", simplified mod_add_self2]) auto
    then have "length (sds_val s) \<le> nat (st mod 2 ^ 64)" using bounds(2) l lv by simp
    then have "substr_val (nat (st mod 2 ^ 64)) (nat nl) (sds_val s) = []" by (simp add: substr_val_def)
    then show ?thesis using True lv by (simp add: range_val_def Let_def st_def)
  next
    case False
    then have "st mod 2 ^ 64 = st" using bounds by simp
    moreover have "nat nl = nat (en - st + 1)" by (simp add: nl_def)
    ultimately show ?thesis using False lv by (simp add: range_val_def Let_def st_def en_def)
  qed
  ultimately show ?thesis using s'(2,3) by simp
qed

lemma byte_at_val: "sds_ok s \<Longrightarrow> i < sdslen s \<Longrightarrow> byte_at s (int i) = Some (sds_val s ! i)"
  using sds_okD(4) [of s] by (simp add: byte_at_def sds_val_def)

lemma trimStart_correct:
  assumes "sds_ok s" "sp \<le> sdslen s"
  shows "trimStart s cset (int sp) (int (sdslen s) - 1) =
    Some (int (sp + length (takeWhile (strchr cset) (drop sp (sds_val s)))))"
  using assms(2)
proof (induction "sdslen s - sp" arbitrary: sp)
  case 0
  then show ?case using sds_okD(6) [OF assms(1)] by (subst trimStart.simps) simp
next
  case (Suc n)
  then have lt: "sp < sdslen s" by simp
  define c where "c = sds_val s ! sp"
  have at: "byte_at s (int sp) = Some c" using byte_at_val [OF assms(1) lt] by (simp add: c_def)
  have d: "drop sp (sds_val s) = c # drop (Suc sp) (sds_val s)"
    using lt sds_okD(6) [OF assms(1)] by (simp add: c_def Cons_nth_drop_Suc)
  have IH: "trimStart s cset (int (Suc sp)) (int (sdslen s) - 1) =
      Some (int (Suc sp + length (takeWhile (strchr cset) (drop (Suc sp) (sds_val s)))))"
    using Suc.hyps(1) [of "Suc sp"] Suc.hyps(2) lt by simp
  show ?case
  proof (cases "strchr cset c")
    case True
    then have "trimStart s cset (int sp) (int (sdslen s) - 1) = trimStart s cset (int (Suc sp)) (int (sdslen s) - 1)"
      using lt by (subst trimStart.simps) (simp add: at add.commute)
    then show ?thesis using IH True by (simp add: d)
  next
    case False
    then show ?thesis using lt by (subst trimStart.simps) (simp add: at d)
  qed
qed

lemma trimEnd_correct:
  assumes "sds_ok s" "w = drop sp (sds_val s)" "k < length w" "\<not> strchr cset (w ! 0)"
  shows "\<exists>k'. trimEnd s cset (int (sp + k)) (int sp) = Some (int (sp + k')) \<and> k' \<le> k \<and>
    take (Suc k') w = rev (dropWhile (strchr cset) (rev (take (Suc k) w)))"
  using assms(3)
proof (induction k)
  case 0
  have "trimEnd s cset (int (sp + 0)) (int sp) = Some (int (sp + 0))" by (subst trimEnd.simps) simp
  moreover have "take (Suc 0) w = [w ! 0]" using 0 by (cases w) auto
  ultimately show ?case using assms(4) by (intro exI [of _ 0]) simp
next
  case (Suc k)
  have lt: "sp + Suc k < sdslen s" using Suc.prems assms(2) sds_okD(6) [OF assms(1)] by simp
  have at: "byte_at s (int (sp + Suc k)) = Some (w ! Suc k)"
    using byte_at_val [OF assms(1) lt] lt assms(2) sds_okD(6) [OF assms(1)] by simp
  have tk: "take (Suc (Suc k)) w = take (Suc k) w @ [w ! Suc k]" using Suc.prems by (simp add: take_Suc_conv_app_nth)
  show ?case
  proof (cases "strchr cset (w ! Suc k)")
    case True
    then have "trimEnd s cset (int (sp + Suc k)) (int sp) = trimEnd s cset (int (sp + k)) (int sp)"
      using at by (subst trimEnd.simps) simp
    moreover obtain k' where "trimEnd s cset (int (sp + k)) (int sp) = Some (int (sp + k'))" "k' \<le> k"
      "take (Suc k') w = rev (dropWhile (strchr cset) (rev (take (Suc k) w)))"
      using Suc by auto
    ultimately show ?thesis using True by (intro exI [of _ k']) (simp add: tk)
  next
    case False
    then have "trimEnd s cset (int (sp + Suc k)) (int sp) = Some (int (sp + Suc k))"
      using at by (subst trimEnd.simps) simp
    then show ?thesis using False by (intro exI [of _ "Suc k"]) (simp add: tk)
  qed
qed

lemma trim_correct:
  assumes "sds_ok s"
  shows "\<exists>s'. sdstrim s cset = Some s' \<and> sds_ok s' \<and> sds_val s' = trim_val cset (sds_val s)"
proof -
  define v sp where "v = sds_val s" and "sp = length (takeWhile (strchr cset) v)"
  define w where "w = drop sp v"
  have lv: "length v = sdslen s" using sds_okD(6) [OF assms] by (simp add: v_def)
  have w: "w = dropWhile (strchr cset) v" by (simp add: w_def sp_def dropWhile_eq_drop)
  have trim: "trim_val cset v = rev (dropWhile (strchr cset) (rev w))" by (simp only: trim_val_def w)
  have start: "trimStart s cset 0 (int (sdslen s) - 1) = Some (int sp)"
    using trimStart_correct [OF assms, of 0 cset] by (simp add: sp_def v_def)
  have cut: "sdstrim s cset = do { s \<leftarrow> (if int sp \<noteq> 0 then do { bs \<leftarrow> sds_get s sp len; sds_put s 0 bs } else Some s);
        s \<leftarrow> sds_put s len [0]; Some (sdssetlen s len) }"
    if "trimEnd s cset (int (sdslen s) - 1) (int sp) = Some ep"
      "(if int sp > ep then 0 else nat (ep - int sp + 1)) = len" for ep len
    unfolding sdstrim_def Let_def using that start by simp
  show ?thesis
  proof (cases "w = []")
    case True
    then have sp: "sp = sdslen s" using lv sp_def w_def length_takeWhile_le [of "strchr cset" v] by simp
    have "trimEnd s cset (int (sdslen s) - 1) (int sp) = Some (int (sdslen s) - 1)"
      by (subst trimEnd.simps) (simp add: sp)
    from cut [OF this, of 0] have "sdstrim s cset = do { s \<leftarrow> (if int sp \<noteq> 0 then do { bs \<leftarrow> sds_get s sp 0; sds_put s 0 bs } else Some s);
        s \<leftarrow> sds_put s 0 [0]; Some (sdssetlen s 0) }" by (simp add: sp)
    moreover have "trim_val cset v = substr_val sp 0 v" using True by (simp add: trim substr_val_def)
    ultimately show ?thesis using cut_correct [OF assms, of sp 0 "int sp \<noteq> 0"] sp by (simp add: v_def)
  next
    case False
    then have "\<not> strchr cset (w ! 0)" unfolding w by (metis hd_conv_nth hd_dropWhile)
    moreover have "length w - 1 < length w" using False by simp
    ultimately obtain k where k: "trimEnd s cset (int (sp + (length w - 1))) (int sp) = Some (int (sp + k))"
      "k \<le> length w - 1" "take (Suc k) w = rev (dropWhile (strchr cset) (rev (take (Suc (length w - 1)) w)))"
      using trimEnd_correct [OF assms, of w sp "length w - 1" cset] by (auto simp: w_def v_def)
    have l: "length w = sdslen s - sp" "sp < sdslen s" using lv False by (auto simp: w_def)
    then have "trimEnd s cset (int (sdslen s) - 1) (int sp) = Some (int (sp + k))"
      using k(1) False by (simp add: of_nat_diff)
    from cut [OF this, of "Suc k"] have eq: "sdstrim s cset =
      do { s \<leftarrow> (if int sp \<noteq> 0 then do { bs \<leftarrow> sds_get s sp (Suc k); sds_put s 0 bs } else Some s);
           s \<leftarrow> sds_put s (Suc k) [0]; Some (sdssetlen s (Suc k)) }" by simp
    have tv: "trim_val cset (sds_val s) = substr_val sp (Suc k) (sds_val s)"
      using k(3) False by (simp add: trim substr_val_def w_def flip: v_def)
    have "sp + Suc k \<le> sdslen s" "int sp \<noteq> 0 \<or> sp = 0 \<or> Suc k = 0" using k(2) l by auto
    then show ?thesis
      using cut_correct [OF assms, of sp "Suc k" "int sp \<noteq> 0"] unfolding eq tv by blast
  qed
qed

lemma map_correct:
  assumes "sds_ok s"
  shows "\<exists>s'. sds_map f s = Some s' \<and> sds_ok s' \<and> sds_val s' = map f (sds_val s)"
proof -
  note ok = sds_okD [OF assms]
  define s' where "s' = s\<lparr>sds_buf := put_bytes (sds_buf s) 0 (map f (sds_val s))\<rparr>"
  have "sds_map f s = Some s'"
    using ok by (simp add: sds_map_def sds_get_def sds_put_def get_bytes_def sds_val_def s'_def)
  moreover have "sds_ok s'" "sds_val s' = map f (sds_val s)"
    using ok assms by (auto simp: sds_ok_defs sds_val_def s'_def sds_view put_bytes_def nth_append)
  ultimately show ?thesis by blast
qed

text \<open>Comparison is the lexicographic order of the bytes.\<close>

lemma memcmp_lexord:
  "(let m = (if length xs < length ys then length xs else length ys); c = memcmp (take m xs) (take m ys) in
     if c = 0 then (if length xs > length ys then 1 else if length xs < length ys then -1 else 0) else c) =
   (if xs = ys then 0 else if (xs, ys) \<in> lexord {(x, y). x < y} then -1 else 1)"
proof (induction xs arbitrary: ys)
  case Nil
  then show ?case by (cases ys) auto
next
  case (Cons x xs)
  show ?case
  proof (cases ys)
    case Nil
    then show ?thesis by simp
  next
    case (Cons y ys')
    define m where "m = (if length xs < length ys' then length xs else length ys')"
    have m: "(if length (x # xs) < length (y # ys') then length (x # xs) else length (y # ys')) = Suc m" for x y :: byte
      by (simp add: m_def)
    note IH = Cons.IH [of ys', unfolded Let_def, folded m_def]
    show ?thesis
    proof (cases x y rule: linorder_cases)
      case less
      then show ?thesis unfolding Cons Let_def m take_Suc_Cons by auto
    next
      case equal
      have "memcmp (y # take m xs) (y # take m ys') = memcmp (take m xs) (take m ys')"
        "(y # xs, y # ys') \<in> lexord {(x, y). x < y} \<longleftrightarrow> (xs, ys') \<in> lexord {(x, y). x < y}" by simp_all
      then show ?thesis
        using IH unfolding Cons equal Let_def m take_Suc_Cons by (simp only: list.inject simp_thms length_Cons Suc_less_eq)
    next
      case greater
      then show ?thesis unfolding Cons Let_def m take_Suc_Cons by auto
    qed
  qed
qed

lemma sdscmp_correct:
  assumes "sds_ok s1" "sds_ok s2"
  shows "sdscmp s1 s2 = Some (if sds_val s1 = sds_val s2 then 0
    else if (sds_val s1, sds_val s2) \<in> lexord {(x, y). x < y} then -1 else 1)"
proof -
  note ok1 = sds_okD [OF assms(1)] and ok2 = sds_okD [OF assms(2)]
  define m where "m = (if sdslen s1 < sdslen s2 then sdslen s1 else sdslen s2)"
  have "sds_get s1 0 m = Some (take m (sds_val s1))" "sds_get s2 0 m = Some (take m (sds_val s2))"
    using ok1(4) ok2(4) by (auto simp: sds_get_def get_bytes_def sds_val_def m_def min_absorb1)
  then show ?thesis
    unfolding memcmp_lexord [symmetric] sdscmp_def Let_def ok1(6) ok2(6) m_def [symmetric] by simp
qed

lemma updatelen_correct:
  assumes "sds_ok s"
  shows "sds_ok (sdsupdatelen s) \<and> sds_val (sdsupdatelen s) = takeWhile (\<lambda>c. c \<noteq> 0) (sds_val s)"
proof -
  note ok = sds_okD [OF assms]
  define n where "n = strlen (sds_buf s)"
  have split: "sds_buf s = sds_val s @ 0 # drop (Suc (sdslen s)) (sds_buf s)"
    using ok by (metis id_take_nth_drop sds_val_def)
  have tw: "takeWhile (\<lambda>c. c \<noteq> 0) (sds_buf s) = takeWhile (\<lambda>c. c \<noteq> 0) (sds_val s)"
    by (subst split) (rule takeWhile_tail, simp)
  have n: "n \<le> sdslen s" using length_takeWhile_le [of "\<lambda>c. c \<noteq> 0" "sds_val s"] ok(6) by (simp add: n_def strlen_def tw)
  have "length (takeWhile (\<lambda>c. c \<noteq> 0) (sds_buf s)) < length (sds_buf s)" using n ok(4) by (simp add: n_def strlen_def)
  then have "sds_buf s ! n = 0"
    unfolding n_def strlen_def using nth_length_takeWhile [of "\<lambda>c. c \<noteq> 0" "sds_buf s"] by blast
  moreover have "take n (sds_buf s) = takeWhile (\<lambda>c. c \<noteq> 0) (sds_val s)"
    unfolding n_def strlen_def tw [symmetric] by (metis takeWhile_eq_take)
  ultimately show ?thesis
    using sds_finish [OF sds_ok_hdr [OF assms] refl, of n] n ok(2) by (simp add: sdsupdatelen_def n_def)
qed

lemma incrLen_5:
  assumes "sdstype s = SDS_TYPE_5" "incr < 0" "0 \<le> int (sdslen s) + incr"
  shows "sdsIncrLen s incr = sds_put (sdssetlen s (nat (int (sdslen s) + incr))) (nat (int (sdslen s) + incr)) [0]"
proof -
  define l where "l = SDS_TYPE_5_LEN (sds_flags s)"
  have l: "sdslen s = l" "l < 32" using assms(1) type5_len_less by (simp_all add: sdslen_def l_def)
  have m: "- incr mod 2 ^ 32 = - incr" "(int l + incr) mod 2 ^ 64 = int l + incr" using assms(2,3) l by simp_all
  obtain n where n: "int l + incr = int n" using assms(3) l(1) nonneg_int_cases by metis
  have "(word_of_int (int n * 8) :: byte) = of_nat (SDS_TYPE_5 OR push_bit SDS_TYPE_BITS n)"
    by (simp add: sds_consts push_bit_eq_mult)
  then have "sdssetlen s n = s\<lparr>sds_flags := word_of_int (int n * 8)\<rparr>"
    using assms(1) by (simp add: sdssetlen_def)
  moreover have "- incr \<le> int l" using assms(3) l(1) by simp
  ultimately show ?thesis
    using assms(1,2) m n l(1) by (simp add: sdsIncrLen_def Let_def flip: l_def)
qed

lemma incrLen_wide:
  assumes ty: "sdstype s \<le> SDS_TYPE_64" "sdstype s \<noteq> SDS_TYPE_5"
    and max: "sdsalloc s \<le> sdsTypeMaxSize (sdstype s)" "sdslen s \<le> sdsalloc s"
    and incr: "0 \<le> int (sdslen s) + incr" "int (sdslen s) + incr \<le> int (sdsalloc s)"
  shows "sdsIncrLen s incr = sds_put (sdssetlen s (nat (int (sdslen s) + incr))) (nat (int (sdslen s) + incr)) [0]"
proof -
  define l a where "l = int (sds_hlen s)" and "a = int (sds_halloc s)"
  have f: "int (sdslen s) = l" "int (sdsalloc s) = a" using wide_fields [OF ty] by (simp_all add: l_def a_def)
  have "0 < (2 :: nat) ^ hdr_bits (sdstype s)" by simp
  then have "sds_halloc s < 2 ^ hdr_bits (sdstype s)"
    using max(1) unfolding wide_max [OF ty] wide_fields [OF ty] by linarith
  then have "a < 2 ^ hdr_bits (sdstype s)"
    unfolding a_def by (metis of_nat_less_iff of_nat_numeral of_nat_power)
  then have b: "a < 2 ^ hdr_bits (sdstype s)" "0 \<le> l" "l \<le> a" "0 \<le> l + incr" "l + incr \<le> a"
    using max(2) incr wide_fields [OF ty] unfolding l_def a_def by simp_all
  have set: "sdssetlen s (nat (l + incr)) = set_hlen (sdstype s) s (nat (l + incr))"
    using sdssetlen_wide [OF ty] by (simp add: set_hlen_def)
  have md: "(l + incr) mod 2 ^ hdr_bits (sdstype s) = l + incr" using b by simp
  have guard: "(incr \<ge> 0 \<and> a - l \<ge> incr) \<or> (incr < 0 \<and> l \<ge> - incr mod m)" if "a < m" for m
    using b that by (cases "incr < 0") auto
  have guard': "(incr \<ge> 0 \<and> (a - l) mod m \<ge> incr mod m) \<or> (incr < 0 \<and> l \<ge> - incr mod m)" if "a < m" for m
    using b that by (cases "incr < 0") auto
  have lt: "a < 2 ^ 64" and lt32: "sdstype s \<noteq> SDS_TYPE_64 \<Longrightarrow> a < 2 ^ 32"
    using b(1) sds_types [OF ty(1)] ty(2) by (auto simp: hdr_bits_def sds_consts)
  consider "sdstype s = SDS_TYPE_8" | "sdstype s = SDS_TYPE_16" | "sdstype s = SDS_TYPE_32" | "sdstype s = SDS_TYPE_64"
    using sds_types [OF ty(1)] ty(2) by blast
  then show ?thesis
  proof cases
    case 1
    then show ?thesis using guard [OF lt32] md set unfolding f sdsIncrLen_def Let_def l_def [symmetric] a_def [symmetric]
      by (simp add: sds_consts hdr_bits_def)
  next
    case 2
    then show ?thesis using guard [OF lt32] md set unfolding f sdsIncrLen_def Let_def l_def [symmetric] a_def [symmetric]
      by (simp add: sds_consts hdr_bits_def)
  next
    case 3
    then show ?thesis using guard' [OF lt32] md set unfolding f sdsIncrLen_def Let_def l_def [symmetric] a_def [symmetric]
      by (simp add: sds_consts hdr_bits_def)
  next
    case 4
    then show ?thesis using guard' [OF lt] md set unfolding f sdsIncrLen_def Let_def l_def [symmetric] a_def [symmetric]
      by (simp add: sds_consts hdr_bits_def)
  qed
qed

lemma incrLen_correct:
  assumes ok: "sds_hdr_ok s"
    and incr: "0 \<le> int (sdslen s) + incr" "int (sdslen s) + incr \<le> int (sdsalloc s)"
    and five: "sdstype s = SDS_TYPE_5 \<Longrightarrow> incr \<noteq> 0"
  shows "\<exists>s'. sdsIncrLen s incr = Some s' \<and> sds_ok s' \<and>
    sds_val s' = take (nat (int (sdslen s) + incr)) (sds_buf s)"
proof -
  define n where "n = nat (int (sdslen s) + incr)"
  have n: "n \<le> sdsalloc s" "n < length (sds_buf s)" using incr ok by (auto simp: n_def sds_hdr_ok_def)
  have "sdsIncrLen s incr = sds_put (sdssetlen s n) n [0]"
  proof (cases "sdstype s = SDS_TYPE_5")
    case True
    then have "sdsalloc s = sdslen s" by (simp add: sdsalloc_def sdslen_def)
    with incr(2) five [OF True] have "incr < 0" by simp
    then show ?thesis using incrLen_5 [OF True _ incr(1)] by (simp add: n_def)
  next
    case False
    then show ?thesis using incrLen_wide [OF _ False _ _ incr] ok by (simp add: sds_ok_defs n_def)
  qed
  moreover have "sds_put (sdssetlen s n) n [0] = Some (sdssetlen (s\<lparr>sds_buf := put_bytes (sds_buf s) n [0]\<rparr>) n)"
    using n(2) by (simp add: sds_put_def sdssetlen_buf)
  ultimately show ?thesis
    using sds_finish [OF ok, of "put_bytes (sds_buf s) n [0]" n] n by (simp add: take_put_end flip: n_def)
qed

text \<open>Writing behind the current contents, after room has been made.\<close>

lemma append_correct:
  assumes "sds_ok s" "sdslen s + length t \<le> sdsalloc s" "sdsalloc s < 2 ^ 64"
  defines "n \<equiv> sdslen s + length t"
  defines "b \<equiv> put_bytes (put_bytes (sds_buf s) (sdslen s) t) n [0]"
  shows "sds_ok (sdssetlen (s\<lparr>sds_buf := b\<rparr>) n)" "sds_val (sdssetlen (s\<lparr>sds_buf := b\<rparr>) n) = sds_val s @ t"
    "length b = length (sds_buf s)"
proof -
  have n: "n < length (sds_buf s)" "n \<le> sdsalloc s" using assms(2) sds_okD(3) [OF assms(1)] by (simp_all add: n_def)
  then show len: "length b = length (sds_buf s)" by (simp add: b_def n_def)
  have "b ! n = 0" using n by (simp add: b_def n_def)
  moreover have "take n b = sds_val s @ t"
    using n by (simp add: b_def n_def put_bytes_def sds_val_def)
  ultimately show "sds_ok (sdssetlen (s\<lparr>sds_buf := b\<rparr>) n)" "sds_val (sdssetlen (s\<lparr>sds_buf := b\<rparr>) n) = sds_val s @ t"
    using sds_finish [OF sds_ok_hdr [OF assms(1)] len n(2)] by simp_all
qed

lemma sds_alloc_less: "sds_ok s \<Longrightarrow> sdsalloc s < 2 ^ 64"
  by (auto simp: sds_ok_defs sdsTypeMaxSize_def split: if_splits)

context lawful_mem
begin

lemma block_size:
  assumes "n \<le> 2 ^ 62"
  obtains sz where "usable_size M (sdsHdrSize t + n + 1) = Some sz" "sdsHdrSize t + n + 1 \<le> sz"
    "(n + sdsHdrSize t + 1) mod 2 ^ 64 > n"
proof -
  have b: "sdsHdrSize t + n + 1 \<le> 2 ^ 63" using assms hdr_size_bound [of t] by simp
  then obtain sz where "usable_size M (sdsHdrSize t + n + 1) = Some sz" using available by blast
  moreover from this have "sdsHdrSize t + n + 1 \<le> sz" by (rule usable_ge)
  moreover have "(n + sdsHdrSize t + 1) mod 2 ^ 64 > n" using b by simp
  ultimately show ?thesis by (rule that)
qed

lemma newlen_correct:
  assumes "initlen \<le> 2 ^ 62" "\<And>bs. init = Init_bytes bs \<Longrightarrow> initlen \<le> length bs"
  shows "\<exists>s. priv_sdsnewlen M init initlen = Some s \<and> sds_ok s \<and> sdslen s = initlen \<and>
    (init = Init_null \<longrightarrow> sds_val s = replicate initlen 0) \<and>
    (\<forall>bs. init = Init_bytes bs \<longrightarrow> sds_val s = take initlen bs)"
proof -
  define t where "t = (if sdsReqType initlen = SDS_TYPE_5 \<and> initlen = 0 then SDS_TYPE_8 else sdsReqType initlen)"
  define hl where "hl = sdsHdrSize t"
  obtain sz where sz: "usable_size M (hl + initlen + 1) = Some sz" "hl + initlen + 1 \<le> sz"
    "(initlen + hl + 1) mod 2 ^ 64 > initlen"
    using block_size [OF assms(1), of t] unfolding hl_def by blast
  define buf where "buf = (if init = Init_null then put_bytes (map (fresh M) [hl..<sz]) 0 (replicate (initlen + 1) 0)
    else map (fresh M) [hl..<sz])"
  define u where "u = (if sz - hl - 1 > sdsTypeMaxSize t then sdsTypeMaxSize t else sz - hl - 1)"
  define s0 where "s0 = (if t = SDS_TYPE_5
    then \<lparr>sds_flags = of_nat (t OR push_bit SDS_TYPE_BITS initlen), sds_hlen = 0, sds_halloc = 0, sds_buf = buf\<rparr>
    else set_halloc t (set_hlen t \<lparr>sds_flags = of_nat t, sds_hlen = 0, sds_halloc = 0, sds_buf = buf\<rparr> initlen) u)"
  have t: "t \<le> SDS_TYPE_64" "initlen \<le> sdsTypeMaxSize t"
    using ReqType_le ReqType_max [of initlen] MaxSize_8 assms(1) by (auto simp: t_def SDS_TYPE_8_def SDS_TYPE_64_def)
  have len: "length buf = sz - hl" using sz(2) by (simp add: buf_def)
  have u: "u \<le> sdsTypeMaxSize t" "initlen \<le> u" "u < length buf"
    using sz(2) t(2) unfolding u_def len by (auto split: if_splits)
  have s0: "sdstype s0 = t" "sdslen s0 = initlen" "sdsalloc s0 = (if t = SDS_TYPE_5 then initlen else u)" "sds_buf s0 = buf"
    using wide_header [OF t(1) _ t(2) u(1)] small_header [of initlen buf] t(2)
    by (auto simp: s0_def sdsTypeMaxSize_def)
  define b1 where "b1 = (case init of Init_bytes bs \<Rightarrow> put_bytes buf 0 (take initlen bs) | _ \<Rightarrow> buf)"
  define s where "s = s0\<lparr>sds_buf := put_bytes b1 initlen [0]\<rparr>"
  have il: "initlen < length buf" using u by simp
  have b1: "length b1 = length buf" using il assms(2) by (auto simp: b1_def split: sds_init.splits)
  have "priv_sdsnewlen M init initlen =
    do { s' \<leftarrow> (case init of Init_bytes bs \<Rightarrow> if initlen \<le> length bs then sds_put s0 0 (take initlen bs) else None
                | _ \<Rightarrow> Some s0); sds_put s' initlen [0] }"
    unfolding priv_sdsnewlen_def Let_def t_def [symmetric] hl_def [symmetric]
    by (simp only: sz(1) sz(3) not_True_eq_False if_False bind.bind_lunit
        buf_def [symmetric] u_def [symmetric] s0_def [symmetric])
  also have "\<dots> = Some s"
    using il b1 assms(2) s0(4) by (cases init) (simp_all add: sds_put_def s_def b1_def)
  finally have run: "priv_sdsnewlen M init initlen = Some s" .
  have ok: "sds_ok s" "sdslen s = initlen"
    using t u il b1 by (auto simp: sds_ok_defs s_def sds_view s0)
  have val: "sds_val s = take initlen b1" using ok(2) il b1 by (simp add: sds_val_def s_def take_put_end)
  have "sds_val s = replicate initlen 0" if "init = Init_null"
    using that val sz(2) by (simp add: b1_def buf_def put_bytes_def del: replicate_Suc)
  moreover have "sds_val s = take initlen bs" if "init = Init_bytes bs" for bs
    using that val il assms(2) by (simp add: b1_def put_bytes_def)
  ultimately show ?thesis using run ok by blast
qed

lemma realloc_block_correct:
  assumes "holds s t v x" "length v \<le> n" "n \<le> 2 ^ 62"
  obtains s' sz where "sds_realloc_block M s (sdsHdrSize t) n = Some (s', sz)" "holds s' t v x"
    "length (sds_buf s') = sz - sdsHdrSize t" "sdsHdrSize t + n + 1 \<le> sz"
proof -
  obtain sz where sz: "usable_size M (sdsHdrSize t + n + 1) = Some sz" "sdsHdrSize t + n + 1 \<le> sz"
    using block_size [OF assms(3), of t] by blast
  define s' where "s' = s\<lparr>sds_buf := realloc_bytes (fresh M) (sds_buf s) (sz - sdsHdrSize t)\<rparr>"
  have l: "length v < sz - sdsHdrSize t" using sz(2) assms(2) by simp
  have "holds s' t v x"
    using assms(1) l by (auto simp: holds_def s'_def sds_view realloc_bytes_def nth_append min_absorb1)
  moreover have "sds_realloc_block M s (sdsHdrSize t) n = Some (s', sz)"
    using sz(1) by (simp add: sds_realloc_block_def s'_def)
  moreover have "length (sds_buf s') = sz - sdsHdrSize t" by (simp add: s'_def)
  ultimately show ?thesis using that sz(2) by blast
qed

lemma move_block_correct:
  assumes "sds_hdr_ok s" "t \<le> SDS_TYPE_64" "sdslen s \<le> sdsTypeMaxSize t" "sdslen s \<le> n" "n \<le> 2 ^ 62"
  obtains s' sz where "sds_move_block M s t (sdslen s) (sdsHdrSize t) n = Some (s', sz)" "holds s' t (sds_val s) (sds_buf s ! sdslen s)"
    "length (sds_buf s') = sz - sdsHdrSize t" "sdsHdrSize t + n + 1 \<le> sz"
proof -
  obtain sz where sz: "usable_size M (sdsHdrSize t + n + 1) = Some sz" "sdsHdrSize t + n + 1 \<le> sz"
    using block_size [OF assms(5), of t] by blast
  define hl l where "hl = sdsHdrSize t" and "l = sdslen s"
  note ok = sds_hdrD [OF assms(1), folded l_def]
  define b where "b = put_bytes (map (fresh M) [hl..<sz]) 0 (take (l + 1) (sds_buf s))"
  define s1 where "s1 = \<lparr>sds_flags = of_nat t, sds_hlen = 0, sds_halloc = 0, sds_buf = b\<rparr>"
  have l: "l < sz - hl" using sz(2) assms(4) by (simp add: hl_def l_def)
  have t1: "sdstype s1 = t" using type_flags [OF assms(2)] by (simp add: s1_def sdstype_def)
  have view: "sdstype (sdssetlen s1 l) = t" "sdslen (sdssetlen s1 l) = l" "sds_buf (sdssetlen s1 l) = b"
    using sdssetlen_view [of s1 l] t1 assms(2,3) by (simp_all add: l_def s1_def)
  have b: "length b = sz - hl" "take l b = sds_val s" "b ! l = sds_buf s ! l"
    using ok l by (simp_all add: b_def put_bytes_def nth_append sds_val_def l_def min_absorb1)
  have "holds (sdssetlen s1 l) t (sds_val s) (sds_buf s ! l)"
    unfolding holds_def ok(5) view using b l assms(2,3) by (simp add: l_def)
  moreover have "sds_move_block M s t l hl n = Some (sdssetlen s1 l, sz)"
    using sz(1) ok(4) l by (simp add: sds_move_block_def sds_get_def sds_put_def get_bytes_def s1_def b_def hl_def)
  moreover have "length (sds_buf (sdssetlen s1 l)) = sz - hl" using view b(1) by simp
  ultimately show ?thesis using that sz(2) unfolding hl_def l_def by blast
qed

lemma makeRoom_hdr:
  assumes ok: "sds_hdr_ok s" and bound: "sdslen s + addlen \<le> 2 ^ 60"
  shows "\<exists>s'. sdsMakeRoomFor M s addlen = Some s' \<and> sds_hdr_ok s' \<and> sds_val s' = sds_val s \<and>
    sds_buf s' ! sdslen s = sds_buf s ! sdslen s \<and>
    sdslen s' = sdslen s \<and> sdslen s + addlen \<le> sdsalloc s'"
proof (cases "sdsavail s \<ge> addlen")
  case True
  then show ?thesis using sdsavail_eq [OF ok] sds_hdrD(2) [OF ok] ok by (simp add: sdsMakeRoomFor_def)
next
  case False
  define len where "len = sdslen s"
  define n where "n = (if len + addlen < SDS_MAX_PREALLOC then (len + addlen) * 2 else len + addlen + SDS_MAX_PREALLOC)"
  define t where "t = (if sdsReqType n = SDS_TYPE_5 then SDS_TYPE_8 else sdsReqType n)"
  define hl where "hl = sdsHdrSize t"
  have n: "len + addlen \<le> n" "n \<le> 2 ^ 62" using bound by (auto simp: n_def len_def SDS_MAX_PREALLOC_def)
  have t: "t \<le> SDS_TYPE_64" "t \<noteq> SDS_TYPE_5" "n \<le> sdsTypeMaxSize t"
    using ReqType_le [of n] ReqType_max [of n] MaxSize_8 n(2) by (auto simp: t_def sds_consts)
  have len: "length (sds_val s) = len" using sds_hdrD(5) [OF ok] by (simp add: len_def)
  obtain s1 sz where s1: "(if sdstype s = t then sds_realloc_block M s hl n else sds_move_block M s t len hl n) = Some (s1, sz)"
    "holds s1 t (sds_val s) (sds_buf s ! sdslen s)" "length (sds_buf s1) = sz - hl" "hl + n + 1 \<le> sz"
  proof (cases "sdstype s = t")
    case True
    then have "holds s t (sds_val s) (sds_buf s ! sdslen s)" using sds_hdr_holds [OF ok] by simp
    then obtain s' sz where "sds_realloc_block M s (sdsHdrSize t) n = Some (s', sz)" "holds s' t (sds_val s) (sds_buf s ! sdslen s)"
      "length (sds_buf s') = sz - sdsHdrSize t" "sdsHdrSize t + n + 1 \<le> sz"
      using realloc_block_correct [of s t "sds_val s" _ n] n len by auto
    then show ?thesis using that True unfolding hl_def by simp
  next
    case False
    obtain s' sz where "sds_move_block M s t (sdslen s) (sdsHdrSize t) n = Some (s', sz)" "holds s' t (sds_val s) (sds_buf s ! sdslen s)"
      "length (sds_buf s') = sz - sdsHdrSize t" "sdsHdrSize t + n + 1 \<le> sz"
      using move_block_correct [OF ok t(1), of n] n t(3) len_def by auto
    then show ?thesis using that False unfolding hl_def len_def by simp
  qed
  define u where "u = (if sz - hl - 1 > sdsTypeMaxSize t then sdsTypeMaxSize t else sz - hl - 1)"
  have u: "u \<le> sdsTypeMaxSize t" "n \<le> u" "u < length (sds_buf s1)"
    using s1(3,4) t(3) unfolding u_def by (auto split: if_splits)
  have le: "length (sds_val s) \<le> u" using u(2) n(1) len by simp
  note fin = holds_setalloc [OF s1(2) le u(3,1)]
  have "hl \<le> 17" by (simp add: hl_def hdr_size_bound)
  then have asserts: "(len + addlen) mod 2 ^ 64 = len + addlen" "len < len + addlen"
    "(hl + n + 1) mod 2 ^ 64 > len + addlen"
    using n bound False by (simp_all add: len_def)
  have newlen: "(if len + addlen < SDS_MAX_PREALLOC then (len + addlen) * 2 mod 2 ^ 64
      else (len + addlen + SDS_MAX_PREALLOC) mod 2 ^ 64) = n"
    using n(2) unfolding n_def by (auto split: if_splits)
  have "sdsMakeRoomFor M s addlen = Some (sdssetalloc s1 u)"
    unfolding sdsMakeRoomFor_def Let_def len_def [symmetric] asserts(1) newlen t_def [symmetric] hl_def [symmetric]
    using False asserts(2,3) s1(1) by (simp only: not_True_eq_False if_False bind.bind_lunit prod.case u_def [symmetric])
  then show ?thesis using fin t(2) u(2) n(1) len by (auto simp: len_def)
qed

lemma makeRoom_correct:
  assumes "sds_ok s" "sdslen s + addlen \<le> 2 ^ 60"
  shows "\<exists>s'. sdsMakeRoomFor M s addlen = Some s' \<and> sds_ok s' \<and> sds_val s' = sds_val s \<and>
    sdslen s' = sdslen s \<and> sdslen s + addlen \<le> sdsalloc s'"
  using makeRoom_hdr [of s addlen] assms by (auto simp: sds_ok_def)

lemma removeFreeSpace_correct:
  assumes ok: "sds_ok s" and bound: "sdslen s \<le> 2 ^ 62"
  shows "\<exists>s'. sdsRemoveFreeSpace M s = Some s' \<and> sds_ok s' \<and> sds_val s' = sds_val s \<and>
    sdslen s' = sdslen s \<and> sdsalloc s' = sdslen s'"
proof (cases "sdsavail s = 0")
  case True
  then show ?thesis using sdsavail_eq [OF sds_ok_hdr [OF ok]] sds_okD(2) [OF ok] ok by (simp add: sdsRemoveFreeSpace_def)
next
  case False
  define len where "len = sdslen s"
  define t where "t = sdsReqType len"
  have t: "t \<le> SDS_TYPE_64" "len \<le> sdsTypeMaxSize t"
    using ReqType_le ReqType_max [of len] bound by (simp_all add: t_def len_def)
  have len: "length (sds_val s) = len" using sds_okD(6) [OF ok] by (simp add: len_def)
  obtain t' s1 sz where s1: "(if sdstype s = t \<or> t > SDS_TYPE_8 then sds_realloc_block M s (sdsHdrSize (sdstype s)) len
      else sds_move_block M s t len (sdsHdrSize t) len) = Some (s1, sz)"
    "holds s1 t' (sds_val s) 0" "length (sds_buf s1) = sz - sdsHdrSize t'" "sdsHdrSize t' + len + 1 \<le> sz"
  proof (cases "sdstype s = t \<or> t > SDS_TYPE_8")
    case True
    obtain s' sz where "sds_realloc_block M s (sdsHdrSize (sdstype s)) len = Some (s', sz)" "holds s' (sdstype s) (sds_val s) 0"
      "length (sds_buf s') = sz - sdsHdrSize (sdstype s)" "sdsHdrSize (sdstype s) + len + 1 \<le> sz"
      using realloc_block_correct [OF sds_hdr_holds [OF sds_ok_hdr [OF ok]], of len] bound len sds_okD(5) [OF ok] by (auto simp: len_def)
    then show ?thesis using that True by simp
  next
    case False
    obtain s' sz where "sds_move_block M s t (sdslen s) (sdsHdrSize t) len = Some (s', sz)" "holds s' t (sds_val s) 0"
      "length (sds_buf s') = sz - sdsHdrSize t" "sdsHdrSize t + len + 1 \<le> sz"
      using move_block_correct [OF sds_ok_hdr [OF ok] t(1), of len] bound t(2) len_def sds_okD(5) [OF ok] by auto
    then show ?thesis using that False unfolding len_def by simp
  qed
  have "sdsRemoveFreeSpace M s = Some (sdssetalloc s1 len)"
    unfolding sdsRemoveFreeSpace_def Let_def len_def [symmetric] t_def [symmetric]
    using False s1(1) by (simp only: if_False bind.bind_lunit prod.case)
  moreover have "sds_ok (sdssetalloc s1 len)" "sds_val (sdssetalloc s1 len) = sds_val s"
    "sdslen (sdssetalloc s1 len) = len" "sdsalloc (sdssetalloc s1 len) = len"
    using holds_setalloc [OF s1(2), of len] s1 len by (simp_all add: holds_def sds_ok_def)
  ultimately show ?thesis by (simp add: len_def)
qed

lemma catlen_correct:
  assumes "sds_ok s" "sdslen s + length t \<le> 2 ^ 60"
  shows "\<exists>s'. sdscatlen M s t = Some s' \<and> sds_ok s' \<and> sds_val s' = sds_val s @ t"
proof -
  obtain s1 where s1: "sdsMakeRoomFor M s (length t) = Some s1" "sds_ok s1" "sds_val s1 = sds_val s"
    "sdslen s1 = sdslen s" "sdslen s + length t \<le> sdsalloc s1"
    using makeRoom_correct [OF assms] by blast
  define n where "n = sdslen s + length t"
  define b where "b = put_bytes (put_bytes (sds_buf s1) (sdslen s) t) n [0]"
  have fin: "sds_ok (sdssetlen (s1\<lparr>sds_buf := b\<rparr>) n)" "sds_val (sdssetlen (s1\<lparr>sds_buf := b\<rparr>) n) = sds_val s @ t"
    using append_correct [OF s1(2), of t] sds_alloc_less [OF s1(2)] s1(3-5) by (simp_all add: b_def n_def)
  have n: "n < length (sds_buf s1)" "n mod 2 ^ 64 = n"
    using s1(5) sds_okD(3) [OF s1(2)] assms(2) by (simp_all add: n_def)
  have "sdscatlen M s t = Some (sdssetlen (s1\<lparr>sds_buf := b\<rparr>) n)"
    unfolding sdscatlen_def Let_def n_def [symmetric] n(2)
    using n(1) by (simp add: s1(1) sds_put_def sdssetlen_buf b_def n_def)
  with fin show ?thesis by blast
qed

lemma growzero_correct:
  assumes "sds_ok s" "sdslen s \<le> 2 ^ 60" "n \<le> 2 ^ 60"
  shows "\<exists>s'. sdsgrowzero M s n = Some s' \<and> sds_ok s' \<and> sds_val s' = sds_val s @ replicate (n - sdslen s) 0"
proof (cases "n \<le> sdslen s")
  case True
  then show ?thesis using assms(1) by (simp add: sdsgrowzero_def)
next
  case False
  define z :: "byte list" where "z = replicate (n - sdslen s) 0"
  have z: "sdslen s + length z = n" "length z = n - sdslen s" using False by (simp_all add: z_def)
  obtain s1 where s1: "sdsMakeRoomFor M s (n - sdslen s) = Some s1" "sds_ok s1" "sds_val s1 = sds_val s"
    "sdslen s1 = sdslen s" "sdslen s + (n - sdslen s) \<le> sdsalloc s1"
    using makeRoom_correct [OF assms(1), of "n - sdslen s"] assms(3) False by auto
  have al: "n \<le> sdsalloc s1" "n < length (sds_buf s1)" using s1(5) False sds_okD(3) [OF s1(2)] by simp_all
  have b: "put_bytes (put_bytes (sds_buf s1) (sdslen s) z) n [0] = put_bytes (sds_buf s1) (sdslen s) (z @ [0])"
    using al(2) False by (simp add: put_bytes_def z_def)
  have "sds_ok (sdssetlen (s1\<lparr>sds_buf := put_bytes (sds_buf s1) (sdslen s) (z @ [0])\<rparr>) n)"
    "sds_val (sdssetlen (s1\<lparr>sds_buf := put_bytes (sds_buf s1) (sdslen s) (z @ [0])\<rparr>) n) = sds_val s @ z"
    using append_correct [OF s1(2), of z] sds_alloc_less [OF s1(2)] s1(3,4) z al by (simp_all add: b)
  moreover have "replicate (n - sdslen s + 1) 0 = z @ [0]" by (simp add: z_def replicate_append_same)
  then have "sdsgrowzero M s n = Some (sdssetlen (s1\<lparr>sds_buf := put_bytes (sds_buf s1) (sdslen s) (z @ [0])\<rparr>) n)"
    using False al z by (simp add: sdsgrowzero_def s1(1) sds_put_def)
  ultimately show ?thesis by (simp add: z_def)
qed

lemma cpylen_correct:
  assumes "sds_ok s" "sdslen s \<le> 2 ^ 60" "length t \<le> 2 ^ 60"
  shows "\<exists>s'. sdscpylen M s t = Some s' \<and> sds_ok s' \<and> sds_val s' = t"
proof -
  define n where "n = length t"
  obtain s1 where s1: "(if sdsalloc s < n then sdsMakeRoomFor M s (nat ((int n - int (sdslen s)) mod 2 ^ 64)) else Some s) = Some s1"
    "sds_ok s1" "n \<le> sdsalloc s1"
  proof (cases "sdsalloc s < n")
    case True
    have "(int n - int (sdslen s)) mod 2 ^ 64 = int n - int (sdslen s)"
      using sds_okD(2) [OF assms(1)] True assms(3) by (simp add: n_def)
    then have "nat ((int n - int (sdslen s)) mod 2 ^ 64) = n - sdslen s" by simp
    moreover have "sdslen s + (n - sdslen s) = n" using sds_okD(2) [OF assms(1)] True by simp
    ultimately show ?thesis
      using makeRoom_correct [OF assms(1), of "n - sdslen s"] assms(3) True that by (auto simp: n_def)
  next
    case False
    then show ?thesis using that assms(1) by simp
  qed
  define b where "b = put_bytes (put_bytes (sds_buf s1) 0 t) n [0]"
  have n: "n < length (sds_buf s1)" using s1(3) sds_okD(3) [OF s1(2)] by simp
  have "length b = length (sds_buf s1)" "b ! n = 0" "take n b = t"
    using n by (simp_all add: b_def n_def take_put_end take_put_start)
  then have "sds_ok (sdssetlen (s1\<lparr>sds_buf := b\<rparr>) n)" "sds_val (sdssetlen (s1\<lparr>sds_buf := b\<rparr>) n) = t"
    using sds_finish [OF sds_ok_hdr [OF s1(2)] _ s1(3)] by simp_all
  moreover have "sdscpylen M s t = Some (sdssetlen (s1\<lparr>sds_buf := b\<rparr>) n)"
    unfolding sdscpylen_def Let_def n_def [symmetric] s1(1) using n by (simp add: sds_put_def b_def n_def)
  ultimately show ?thesis by blast
qed

text \<open>
  The use of \<^verbatim>\<open>sdsMakeRoomFor\<close> and \<^verbatim>\<open>sdsIncrLen\<close> the comment of the latter shows: make room for
  \<open>n\<close> bytes, read some bytes behind the string, and add their number to the length.
\<close>

lemma readInto_correct:
  assumes "sds_ok s" "sdslen s + n \<le> 2 ^ 60" "0 < n" "length bs \<le> n"
  shows "\<exists>s'. sdsReadInto M s n bs = Some s' \<and> sds_ok s' \<and> sds_val s' = sds_val s @ bs"
proof -
  obtain s1 where s1: "sdsMakeRoomFor M s n = Some s1" "sds_ok s1" "sds_val s1 = sds_val s"
    "sdslen s1 = sdslen s" "sdslen s + n \<le> sdsalloc s1"
    using makeRoom_correct [OF assms(1,2)] by blast
  define s2 where "s2 = s1\<lparr>sds_buf := put_bytes (sds_buf s1) (sdslen s) bs\<rparr>"
  have l: "sdslen s + length bs \<le> sdsalloc s1" "sdslen s + length bs < length (sds_buf s1)"
    using s1(5) assms(4) sds_okD(3) [OF s1(2)] by simp_all
  have view: "sdslen s2 = sdslen s" "sdsalloc s2 = sdsalloc s1" "sdstype s2 = sdstype s1"
    by (simp_all add: s2_def sds_view s1(4))
  have "sds_hdr_ok s2" using sds_ok_hdr [OF s1(2)] l by (simp add: sds_hdr_ok_def view s1(4)) (simp add: s2_def)
  moreover have "sdstype s2 \<noteq> SDS_TYPE_5"
    using s1(4,5) assms(3) unfolding view by (auto simp: sdsalloc_def sdslen_def)
  ultimately obtain s' where s': "sdsIncrLen s2 (int (length bs)) = Some s'" "sds_ok s'"
    "sds_val s' = take (sdslen s + length bs) (sds_buf s2)"
    using incrLen_correct [of s2 "int (length bs)"] l(1) by (auto simp: view nat_add_distrib)
  have "sds_val s' = sds_val s @ bs"
    using s'(3) l(2) s1(3,4) by (simp add: s2_def put_bytes_def sds_val_def)
  moreover have "sdsReadInto M s n bs = Some s'"
    using s'(1) l(2) by (simp add: sdsReadInto_def s1(1) sds_put_def s2_def)
  ultimately show ?thesis using s'(2) by blast
qed

end

section \<open>Refinement of byte strings\<close>

datatype sds_oper =
  Sds_cat "byte list" | Sds_cpy "byte list" | Sds_growzero nat | Sds_trim "byte list" | Sds_substr nat nat
| Sds_range int int | Sds_tolower | Sds_toupper | Sds_mapchars "byte list" "byte list" nat | Sds_clear
| Sds_updatelen | Sds_makeroom nat | Sds_removefree | Sds_readinto nat "byte list"

fun sds_op :: "mem \<Rightarrow> sds_oper \<Rightarrow> sds \<Rightarrow> sds option" where
  "sds_op M (Sds_cat t) s = sdscatlen M s t"
| "sds_op M (Sds_cpy t) s = sdscpylen M s t"
| "sds_op M (Sds_growzero n) s = sdsgrowzero M s n"
| "sds_op M (Sds_trim cset) s = sdstrim s cset"
| "sds_op M (Sds_substr start len) s = sdssubstr s start len"
| "sds_op M (Sds_range start e) s = sdsrange s start e"
| "sds_op M Sds_tolower s = sdstolower s"
| "sds_op M Sds_toupper s = sdstoupper s"
| "sds_op M (Sds_mapchars from to n) s = sdsmapchars s from to n"
| "sds_op M Sds_clear s = sdsclear s"
| "sds_op M Sds_updatelen s = Some (sdsupdatelen s)"
| "sds_op M (Sds_makeroom n) s = sdsMakeRoomFor M s n"
| "sds_op M Sds_removefree s = sdsRemoveFreeSpace M s"
| "sds_op M (Sds_readinto n bs) s = sdsReadInto M s n bs"

fun str_op :: "sds_oper \<Rightarrow> byte list \<Rightarrow> byte list" where
  "str_op (Sds_cat t) v = v @ t"
| "str_op (Sds_cpy t) v = t"
| "str_op (Sds_growzero n) v = v @ replicate (n - length v) 0"
| "str_op (Sds_trim cset) v = trim_val cset v"
| "str_op (Sds_substr start len) v = substr_val start len v"
| "str_op (Sds_range start e) v = range_val start e v"
| "str_op Sds_tolower v = map tolower_byte v"
| "str_op Sds_toupper v = map toupper_byte v"
| "str_op (Sds_mapchars from to n) v = map (\<lambda>c. memmapInner c (take n from) (take n to)) v"
| "str_op Sds_clear v = []"
| "str_op Sds_updatelen v = takeWhile (\<lambda>c. c \<noteq> 0) v"
| "str_op (Sds_makeroom n) v = v"
| "str_op Sds_removefree v = v"
| "str_op (Sds_readinto n bs) v = v @ bs"

fun sds_valid :: "sds_oper \<Rightarrow> bool" where
  "sds_valid (Sds_range start e) \<longleftrightarrow> \<bar>start\<bar> \<le> 2 ^ 61 \<and> \<bar>e\<bar> \<le> 2 ^ 61"
| "sds_valid (Sds_readinto n bs) \<longleftrightarrow> 0 < n \<and> length bs \<le> n"
| "sds_valid (Sds_mapchars from to n) \<longleftrightarrow> n \<le> length from \<and> n \<le> length to"
| "sds_valid _ \<longleftrightarrow> True"

fun sds_cost :: "sds_oper \<Rightarrow> nat" where
  "sds_cost (Sds_cat t) = length t"
| "sds_cost (Sds_cpy t) = length t"
| "sds_cost (Sds_growzero n) = n"
| "sds_cost (Sds_makeroom n) = n"
| "sds_cost (Sds_readinto n bs) = n"
| "sds_cost _ = 0"

text \<open>An operation answers with the length of the new string.\<close>

definition sds_step :: "mem \<Rightarrow> sds_oper \<Rightarrow> sds \<Rightarrow> (sds \<times> nat) option" where
  "sds_step M op s = map_option (\<lambda>s'. (s', sdslen s')) (sds_op M op s)"

definition str_step :: "sds_oper \<Rightarrow> byte list \<Rightarrow> byte list \<times> nat" where
  "str_step op v = (str_op op v, length (str_op op v))"

lemma substr_val_length: "length (substr_val start len v) \<le> length v"
  by (simp add: substr_val_def min_le_iff_disj)

lemma range_val_length: "length (range_val start e v) \<le> length v"
  using substr_val_length by (simp add: range_val_def Let_def)

lemma trim_val_length: "length (trim_val cset v) \<le> length v"
  unfolding trim_val_def by (metis length_dropWhile_le length_rev order_trans)

lemma str_op_length: "sds_valid op \<Longrightarrow> length (str_op op v) \<le> length v + sds_cost op"
  using range_val_length trim_val_length by (cases op) (auto simp: substr_val_def length_takeWhile_le)

context lawful_mem
begin

lemma sds_op_correct:
  assumes "sds_ok s" "sds_valid op" "sdslen s + sds_cost op \<le> 2 ^ 60"
  shows "\<exists>s'. sds_op M op s = Some s' \<and> sds_ok s' \<and> sds_val s' = str_op op (sds_val s)"
proof (cases op)
  case (Sds_growzero n)
  then show ?thesis using growzero_correct [OF assms(1)] assms(3) sds_okD(6) [OF assms(1)] by auto
next
  case (Sds_range start e)
  then show ?thesis using range_correct [OF assms(1)] assms(2,3) by auto
next
  case (Sds_makeroom n)
  then show ?thesis using makeRoom_correct [OF assms(1)] assms(3) by auto
next
  case Sds_removefree
  then show ?thesis using removeFreeSpace_correct [OF assms(1)] assms(3) by auto
next
  case (Sds_readinto n bs)
  then show ?thesis using readInto_correct [OF assms(1)] assms(2,3) by auto
qed (use assms in \<open>auto simp: sdstolower_def sdstoupper_def sdsmapchars_def clear_correct trim_correct substr_correct
      map_correct updatelen_correct catlen_correct cpylen_correct\<close>)

end

sublocale lawful_mem \<subseteq> str: data_refinement sds_ok sds_val sds_valid sdslen sds_cost "2 ^ 60" "sds_step M" str_step
proof
  fix s op assume *: "sds_ok s" "sds_valid op" "sdslen s + sds_cost op \<le> 2 ^ 60"
  then obtain s' where s': "sds_op M op s = Some s'" "sds_ok s'" "sds_val s' = str_op op (sds_val s)"
    using sds_op_correct by blast
  then have "sdslen s' = length (str_op op (sds_val s))" using sds_okD(6) by metis
  moreover have "length (str_op op (sds_val s)) \<le> sdslen s + sds_cost op"
    using str_op_length [OF *(2)] sds_okD(6) [OF *(1)] by metis
  ultimately show "\<exists>s' r. sds_step M op s = Some (s', r) \<and> sds_ok s' \<and> sdslen s' \<le> sdslen s + sds_cost op \<and>
      str_step op (sds_val s) = (sds_val s', r)"
    using s' by (simp add: sds_step_def str_step_def)
qed

context lawful_mem
begin

lemma sds_run_refines:
  assumes "sds_ok s" "list_all sds_valid ops" "sdslen s + sum_list (map sds_cost ops) \<le> 2 ^ 60"
  shows "\<exists>s' rs. run_concrete (sds_step M) ops s = Some (s', rs) \<and> sds_ok s' \<and>
    run_abstract str_step ops (sds_val s) = (sds_val s', rs)"
  using assms by (rule str.run_refines)

end

text \<open>An allocator that rounds requests up to multiples of 16, as the common ones do.\<close>

definition round16_mem :: mem where
  "round16_mem = \<lparr>usable_size = (\<lambda>n. Some ((n + 15) div 16 * 16)), fresh = (\<lambda>i. of_nat i)\<rparr>"

interpretation round16: lawful_mem round16_mem
proof
  fix n sz :: nat
  have "n \<le> (n + 15) div 16 * 16" using div_mult_mod_eq [of "n + 15" 16] mod_less_divisor [of 16 "n + 15"] by linarith
  then show "usable_size round16_mem n = Some sz \<Longrightarrow> n \<le> sz" by (auto simp: round16_mem_def)
  show "usable_size round16_mem n \<noteq> None" by (simp add: round16_mem_def)
qed

section \<open>Properties\<close>

definition ex_sds :: sds where
  "ex_sds = \<lparr>sds_flags = 1, sds_hlen = 3, sds_halloc = 5, sds_buf = [72, 105, 33, 0, 7, 7, 7, 7]\<rparr>"

lemma ex_sds_ok: "sds_ok ex_sds" "sdslen ex_sds = 3"
  by (simp_all add: sds_ok_defs ex_sds_def sdstype_def sdslen_def sdsalloc_def sdsTypeMaxSize_def sds_consts)

text \<open>
  C5: any sequence of appends, copies, trims, ranges, case changes, zero growth, clears, length
  updates, reservations, releases of free space, reads into the free space and mappings of
  characters (with tables of at least the stated length), on a string whose length stays below \<open>2 ^ 60\<close>, never leaves the allocation, keeps the header
  consistent and the terminator in place through every change of header type and every
  reallocation, and does to the bytes what the operations say.
\<close>

theorem sds_runs_as_bytes:
  assumes "lawful_mem M" "sds_ok s" "list_all sds_valid ops" "sdslen s + sum_list (map sds_cost ops) \<le> 2 ^ 60"
  shows "\<exists>s' rs. run_concrete (sds_step M) ops s = Some (s', rs) \<and> sds_ok s' \<and>
    run_abstract str_step ops (sds_val s) = (sds_val s', rs)"
  using assms by (rule lawful_mem.sds_run_refines)

theorem sds_runs_as_bytes_witness:
  "\<exists>s' rs. run_concrete (sds_step round16_mem) [Sds_cat (replicate 300 65), Sds_trim [33], Sds_range 1 (-2), Sds_removefree] ex_sds =
      Some (s', rs) \<and> sds_ok s' \<and>
    run_abstract str_step [Sds_cat (replicate 300 65), Sds_trim [33], Sds_range 1 (-2), Sds_removefree] (sds_val ex_sds) =
      (sds_val s', rs)"
  by (rule sds_runs_as_bytes [OF round16.lawful_mem_axioms ex_sds_ok(1)]) (simp_all add: ex_sds_ok(2))

text \<open>
  C29: a created string is well formed for every length up to \<open>2 ^ 62\<close>: it has the requested
  length, the header type is wide enough for its length and its free space, and it holds
  the given bytes, zero bytes for a null pointer, and unspecified bytes for \<^verbatim>\<open>SDS_NOINIT\<close>.
\<close>

theorem sdsnewlen_wf:
  assumes "lawful_mem M" "initlen \<le> 2 ^ 62" "\<And>bs. init = Init_bytes bs \<Longrightarrow> initlen \<le> length bs"
  shows "\<exists>s. sdsnewlen M init initlen = Some s \<and> sds_ok s \<and> sdslen s = initlen \<and>
    (init = Init_null \<longrightarrow> sds_val s = replicate initlen 0) \<and>
    (\<forall>bs. init = Init_bytes bs \<longrightarrow> sds_val s = take initlen bs)"
  unfolding sdsnewlen_def by (rule lawful_mem.newlen_correct [OF assms])

theorem sdsnewlen_wf_witness:
  "\<exists>s. sdsnewlen round16_mem (Init_bytes [72, 105, 0, 33]) 4 = Some s \<and> sds_ok s \<and> sdslen s = 4 \<and>
    sds_val s = [72, 105, 0, 33]"
  using sdsnewlen_wf [OF round16.lawful_mem_axioms, of 4 "Init_bytes [72, 105, 0, 33]"] by auto

text \<open>
  C30: \<^verbatim>\<open>sdscmp\<close> is the comparison of the lexicographic order on bytes: zero exactly for equal
  strings, and negative exactly when the first is smaller, a proper prefix included.
\<close>

theorem sdscmp_lexicographic:
  assumes "sds_ok s1" "sds_ok s2"
  shows "\<exists>r. sdscmp s1 s2 = Some r \<and> (r = 0 \<longleftrightarrow> sds_val s1 = sds_val s2) \<and>
    (r < 0 \<longleftrightarrow> (sds_val s1, sds_val s2) \<in> lexord {(x, y). x < y})"
proof -
  have "(v, v) \<notin> lexord {(x, y). x < y}" for v :: "byte list"
    by (rule lexord_irreflexive) auto
  then show ?thesis using sdscmp_correct [OF assms] by auto
qed

theorem sdscmp_lexicographic_witness:
  "\<exists>r. sdscmp ex_sds ex_sds = Some r \<and> (r = 0 \<longleftrightarrow> sds_val ex_sds = sds_val ex_sds) \<and>
    (r < 0 \<longleftrightarrow> (sds_val ex_sds, sds_val ex_sds) \<in> lexord {(x, y). x < y})"
  by (rule sdscmp_lexicographic [OF ex_sds_ok(1) ex_sds_ok(1)])

text \<open>
  C31: adding zero to the length with \<^verbatim>\<open>sdsIncrLen\<close> is accepted for a well-formed string with a wide
  header, but fails the assertion for every string with the five bit header.
\<close>

theorem sdsIncrLen_zero:
  assumes "sds_ok s"
  shows "sdsIncrLen s 0 = None \<longleftrightarrow> sdstype s = SDS_TYPE_5"
proof (cases "sdstype s = SDS_TYPE_5")
  case True
  then show ?thesis by (simp add: sdsIncrLen_def)
next
  case False
  then show ?thesis
    using incrLen_correct [OF sds_ok_hdr [OF assms], of 0] sds_okD(2) [OF assms] by auto
qed

theorem sdsIncrLen_zero_witness:
  "sdsIncrLen ex_sds 0 = None \<longleftrightarrow> sdstype ex_sds = SDS_TYPE_5"
  by (rule sdsIncrLen_zero [OF ex_sds_ok(1)])

end
