(* ===== verification/Sds_Strings.thy ===== *)
theory Sds_Strings
  imports Sds "HOL-Library.Sublist"
begin

unbundle bit_operations_syntax

text \<open>
  The routines of \<^verbatim>\<open>src/redis/redis-6.2.6-annotation/src/sds.c\<close> that print, split, join, quote and
  expand strings, on top of the string operations of the theory \<open>Sds\<close>.  A pointer into a C string
  is the rest of the string; the end of the list is the terminator.
\<close>

section \<open>Numbers\<close>

definition SDS_LLSTR_SIZE :: nat where "SDS_LLSTR_SIZE = 21"

text \<open>The digits are produced in reverse by a \<^verbatim>\<open>do ... while\<close> loop.\<close>

fun revDigits :: "nat \<Rightarrow> byte list" where
  "revDigits v = (48 + of_nat (v mod 10)) # (if v div 10 \<noteq> 0 then revDigits (v div 10) else [])"

declare revDigits.simps [simp del]

text \<open>The loop that swaps the ends; \<open>p\<close> is the offset of the pointer that moves down.\<close>

function swapLoop :: "byte list \<Rightarrow> nat \<Rightarrow> int \<Rightarrow> byte list" where
  "swapLoop xs i p =
     (if int i < p then swapLoop (xs[i := xs ! nat p, nat p := xs ! i]) (i + 1) (p - 1) else xs)"
  by pat_completeness auto

termination by (relation "measure (\<lambda>(xs, i, p). nat (p - int i))") auto

declare swapLoop.simps [simp del]

text \<open>
  The bytes left in the buffer before the terminator; \<open>None\<close> when they do not fit in it.  The absolute value
  is computed as \<^verbatim>\<open>-value\<close> and stored in an unsigned integer.  For the smallest integer the negation
  leaves the range of \<^verbatim>\<open>long long\<close>; it is taken in two's complement, which gives the absolute value, as the
  self test of the file expects.
\<close>

definition sdsull2str :: "uint64 \<Rightarrow> byte list option" where
  "sdsull2str v =
     (let s = revDigits (unat v); l = length s in
      if l + 1 \<le> SDS_LLSTR_SIZE then Some (swapLoop s 0 (int l - 1)) else None)"

definition sdsll2str :: "int \<Rightarrow> byte list option" where
  "sdsll2str value =
     (let v = (if value < 0 then word_of_int (- value) else word_of_int value) :: uint64;
          s = revDigits (unat v) @ (if value < 0 then [45] else []); l = length s in
      if l + 1 \<le> SDS_LLSTR_SIZE then Some (swapLoop s 0 (int l - 1)) else None)"

definition sdsfromlonglong :: "mem \<Rightarrow> int \<Rightarrow> sds option" where
  "sdsfromlonglong M v = do { buf \<leftarrow> sdsll2str v; sdsnewlen M (Init_bytes buf) (length buf) }"

section \<open>Formatted output\<close>

text \<open>
  \<^verbatim>\<open>vsnprintf\<close> is the C library's: \<open>out\<close> is the text it would print, \<open>None\<close> an error.  The loop
  retries once with a buffer of the right size; \<^verbatim>\<open>staticbuf\<close> has 1024 bytes.
\<close>

definition sdscatvprintf :: "mem \<Rightarrow> sds \<Rightarrow> byte list \<Rightarrow> byte list option \<Rightarrow> sds option" where
  "sdscatvprintf M s fmt out =
     (let buflen0 = strlen fmt * 2 in
      do {
        buflen \<leftarrow> (if buflen0 > 1024 then do { _ \<leftarrow> usable_size M buflen0; Some buflen0 } else Some 1024);
        text \<leftarrow> out;
        _ \<leftarrow> (if length text \<ge> buflen then usable_size M (length text + 1) else Some 0);
        sdscatlen M s text
      })"

text \<open>The variadic arguments of \<^verbatim>\<open>sdscatfmt\<close>, each with the type \<^verbatim>\<open>va_arg\<close> reads.\<close>

datatype fmt_arg = A_str "byte list" | A_sds sds | A_int "32 word" | A_llong "64 word" | A_uint uint32 | A_ullong uint64

definition fmt_text :: "byte \<Rightarrow> fmt_arg \<Rightarrow> byte list option" where
  "fmt_text nxt arg =
     (case arg of
        A_str str \<Rightarrow> if nxt = 115 then Some (take (strlen str) str) else None
      | A_sds str \<Rightarrow> if nxt = 83 then sds_get str 0 (sdslen str) else None
      | A_int num \<Rightarrow> if nxt = 105 then sdsll2str (sint num) else None
      | A_llong num \<Rightarrow> if nxt = 73 then sdsll2str (sint num) else None
      | A_uint unum \<Rightarrow> if nxt = 117 then sdsull2str (ucast unum) else None
      | A_ullong unum \<Rightarrow> if nxt = 85 then sdsull2str unum else None)"

definition is_conv :: "byte \<Rightarrow> bool" where
  "is_conv c \<longleftrightarrow> c \<in> {115, 83, 105, 73, 117, 85}"

text \<open>The copy that the cases share: make room if needed, write at \<^verbatim>\<open>s+i\<close>, add to the length.\<close>

definition fmtCopy :: "mem \<Rightarrow> sds \<Rightarrow> nat \<Rightarrow> byte list \<Rightarrow> sds option" where
  "fmtCopy M s i str =
     (let l = length str in
      do {
        s \<leftarrow> (if sdsavail s < l then sdsMakeRoomFor M s l else Some s);
        s \<leftarrow> sds_put s i str;
        Some (sdsinclen s l)
      })"

text \<open>
  The loop over the format, which is given with its terminator and whatever lies behind it in memory; a read
  behind that is \<open>None\<close>.  After a percent sign the pointer is moved past the next character without
  a test for the terminator.
\<close>

fun catfmtLoop :: "mem \<Rightarrow> sds \<Rightarrow> byte list \<Rightarrow> fmt_arg list \<Rightarrow> nat \<Rightarrow> (sds \<times> nat) option" where
  "catfmtLoop M s [] args i = None"
| "catfmtLoop M s (f # fs) args i =
     (if f = 0 then Some (s, i)
      else do {
        s \<leftarrow> (if sdsavail s = 0 then sdsMakeRoomFor M s 1 else Some s);
        if f = 37 then
          (case fs of [] \<Rightarrow> None
           | nxt # fs' \<Rightarrow>
               if is_conv nxt then
                 (case args of [] \<Rightarrow> None
                  | arg # args' \<Rightarrow>
                      do {
                        str \<leftarrow> fmt_text nxt arg;
                        s \<leftarrow> fmtCopy M s i str;
                        catfmtLoop M s fs' args' (i + length str)
                      })
               else do {
                 s \<leftarrow> sds_put s i [nxt];
                 catfmtLoop M (sdsinclen s 1) fs' args (i + 1)
               })
        else do {
          s \<leftarrow> sds_put s i [f];
          catfmtLoop M (sdsinclen s 1) fs args (i + 1)
        }
      })"

definition sdscatfmt :: "mem \<Rightarrow> sds \<Rightarrow> byte list \<Rightarrow> fmt_arg list \<Rightarrow> sds option" where
  "sdscatfmt M s fmt args =
     (let initlen = sdslen s in
      if 0 \<notin> set fmt then None
      else do {
        s \<leftarrow> sdsMakeRoomFor M s (strlen fmt * 2);
        (s, i) \<leftarrow> catfmtLoop M s fmt args initlen;
        sds_put s i [0]
      })"

section \<open>Splitting and joining\<close>

text \<open>
  The loop of \<^verbatim>\<open>sdssplitlen\<close>.  \<open>tokens\<close> are the \<^verbatim>\<open>elements\<close> tokens stored so far, \<open>slots\<close> the size of
  the array; a store needs a free slot.  Both counters are of type \<^verbatim>\<open>int\<close>, and \<open>None\<close> is also the overflow of
  \<^verbatim>\<open>elements+2\<close> and of \<^verbatim>\<open>slots *= 2\<close>.  The caller has tested that the separator is not empty.
\<close>

definition split_match :: "byte list \<Rightarrow> byte list \<Rightarrow> nat \<Rightarrow> bool" where
  "split_match s sep j \<longleftrightarrow>
     (length sep = 1 \<and> s ! j = sep ! 0) \<or> memcmp (get_bytes s j (length sep)) sep = 0"

function splitLoop :: "mem \<Rightarrow> byte list \<Rightarrow> byte list \<Rightarrow> nat \<Rightarrow> nat \<Rightarrow> nat \<Rightarrow> sds list \<Rightarrow> (nat \<times> nat \<times> sds list) option" where
  "splitLoop M s sep j start slots tokens =
     (if 1 \<le> length sep \<and> int j < int (length s) - (int (length sep) - 1) then
        do {
          slots \<leftarrow> (if int (length tokens) + 2 > INT32_MAX then None
                   else if slots < length tokens + 2 then
                     if int slots * 2 > INT32_MAX then None
                     else do { _ \<leftarrow> usable_size M (8 * (slots * 2)); Some (slots * 2) }
                   else Some slots);
          if split_match s sep j then
            do {
              t \<leftarrow> sdsnewlen M (Init_bytes (drop start s)) (j - start);
              if length tokens < slots then
                splitLoop M s sep (j + length sep - 1 + 1) (j + length sep) slots (tokens @ [t])
              else None
            }
          else splitLoop M s sep (j + 1) start slots tokens
        }
      else Some (start, slots, tokens))"
  by pat_completeness auto

termination
  by (relation "measure (\<lambda>(M, s, sep, j, start, slots, tokens). length s + 1 - j)")
    (auto simp: split_match_def)

declare splitLoop.simps [simp del]

text \<open>The length of the separator is an \<^verbatim>\<open>int\<close> as well.\<close>

definition sdssplitlen :: "mem \<Rightarrow> byte list \<Rightarrow> int \<Rightarrow> byte list \<Rightarrow> sds list option" where
  "sdssplitlen M s len sep =
     (if int (length sep) > INT32_MAX then None
      else if length sep < 1 \<or> len < 0 then None
      else do {
        _ \<leftarrow> usable_size M (8 * 5);
        if len = 0 then Some []
        else if nat len > length s then None
        else do {
          (start, slots, tokens) \<leftarrow> splitLoop M (take (nat len) s) sep 0 0 5 [];
          t \<leftarrow> sdsnewlen M (Init_bytes (drop start (take (nat len) s))) (nat len - start);
          if length tokens < slots \<and> int (length tokens) + 1 \<le> INT32_MAX then Some (tokens @ [t]) else None
        }
      })"

fun joinLoop :: "mem \<Rightarrow> (sds \<Rightarrow> 'a \<Rightarrow> sds option) \<Rightarrow> byte list \<Rightarrow> sds \<Rightarrow> 'a list \<Rightarrow> sds option" where
  "joinLoop M cat sep join [] = Some join"
| "joinLoop M cat sep join (a # argv) =
     do {
       join \<leftarrow> cat join a;
       join \<leftarrow> (if argv \<noteq> [] then sdscatlen M join sep else Some join);
       joinLoop M cat sep join argv
     }"

definition sdsjoin :: "mem \<Rightarrow> byte list list \<Rightarrow> byte list \<Rightarrow> sds option" where
  "sdsjoin M argv sep =
     do { join \<leftarrow> sdsempty M; joinLoop M (\<lambda>s a. sdscat M s a) (take (strlen sep) sep) join argv }"

definition sdsjoinsds :: "mem \<Rightarrow> sds list \<Rightarrow> byte list \<Rightarrow> sds option" where
  "sdsjoinsds M argv sep =
     do { join \<leftarrow> sdsempty M; joinLoop M (\<lambda>s a. sdscatsds M s a) sep join argv }"

section \<open>Quoting\<close>

definition isprint :: "byte \<Rightarrow> bool" where
  "isprint c \<longleftrightarrow> 32 \<le> c \<and> c \<le> 126"

definition isspace :: "byte \<Rightarrow> bool" where
  "isspace c \<longleftrightarrow> c = 32 \<or> 9 \<le> c \<and> c \<le> 13"

text \<open>What \<^verbatim>\<open>printf\<close> prints for \<^verbatim>\<open>%02x\<close> and a byte.\<close>

definition hex_char :: "nat \<Rightarrow> byte" where
  "hex_char d = (if d < 10 then 48 + of_nat d else 87 + of_nat d)"

definition hex2 :: "byte \<Rightarrow> byte list" where
  "hex2 c = [hex_char (unat c div 16), hex_char (unat c mod 16)]"

fun reprLoop :: "mem \<Rightarrow> sds \<Rightarrow> byte list \<Rightarrow> sds option" where
  "reprLoop M s [] = Some s"
| "reprLoop M s (c # p) =
     do {
       s \<leftarrow> (if c = 92 \<or> c = 34 then sdscatvprintf M s [92, 37, 99] (Some [92, c])
            else if c = 10 then sdscatlen M s [92, 110]
            else if c = 13 then sdscatlen M s [92, 114]
            else if c = 9 then sdscatlen M s [92, 116]
            else if c = 7 then sdscatlen M s [92, 97]
            else if c = 8 then sdscatlen M s [92, 98]
            else if isprint c then sdscatvprintf M s [37, 99] (Some [c])
            else sdscatvprintf M s [92, 120, 37, 48, 50, 120] (Some ([92, 120] @ hex2 c)));
       reprLoop M s p
     }"

definition sdscatrepr :: "mem \<Rightarrow> sds \<Rightarrow> byte list \<Rightarrow> sds option" where
  "sdscatrepr M s p =
     do { s \<leftarrow> sdscatlen M s [34]; s \<leftarrow> reprLoop M s p; sdscatlen M s [34] }"

definition is_hex_digit :: "byte \<Rightarrow> bool" where
  "is_hex_digit c \<longleftrightarrow> (48 \<le> c \<and> c \<le> 57) \<or> (97 \<le> c \<and> c \<le> 102) \<or> (65 \<le> c \<and> c \<le> 70)"

definition hex_digit_to_int :: "byte \<Rightarrow> nat" where
  "hex_digit_to_int c =
     (if 48 \<le> c \<and> c \<le> 57 then unat c - 48
      else if 97 \<le> c \<and> c \<le> 102 then unat c - 87
      else if 65 \<le> c \<and> c \<le> 70 then unat c - 55
      else 0)"

text \<open>
  \<^verbatim>\<open>sdssplitargs\<close>: \<open>peek\<close> reads through the pointer, the state of the inner loop is whether it is
  in double quotes (\<^verbatim>\<open>inq\<close>), in single quotes (\<^verbatim>\<open>insq\<close>) or in neither.
\<close>

definition peek :: "byte list \<Rightarrow> nat \<Rightarrow> byte" where
  "peek p i = (if i < length p then p ! i else 0)"

datatype quoting = Unquoted | Inq | Insq

definition unescape :: "byte \<Rightarrow> byte" where
  "unescape c =
     (if c = 110 then 10 else if c = 114 then 13 else if c = 116 then 9
      else if c = 98 then 8 else if c = 97 then 7 else c)"

text \<open>
  One round of the inner loop: the bytes appended to the token, the new quoting, whether the
  token is done, and how far the pointer moved before the final \<^verbatim>\<open>if (*p) p++\<close>.  \<open>None\<close> is \<^verbatim>\<open>goto err\<close>.
\<close>

definition argRound :: "quoting \<Rightarrow> byte list \<Rightarrow> (byte list \<times> quoting \<times> bool \<times> nat) option" where
  "argRound q p =
     (case q of
        Inq \<Rightarrow>
          if peek p 0 = 92 \<and> peek p 1 = 120 \<and> is_hex_digit (peek p 2) \<and> is_hex_digit (peek p 3) then
            Some ([of_nat (hex_digit_to_int (peek p 2) * 16 + hex_digit_to_int (peek p 3))], Inq, False, 3)
          else if peek p 0 = 92 \<and> peek p 1 \<noteq> 0 then Some ([unescape (peek p 1)], Inq, False, 1)
          else if peek p 0 = 34 then
            (if peek p 1 \<noteq> 0 \<and> \<not> isspace (peek p 1) then None else Some ([], Inq, True, 0))
          else if peek p 0 = 0 then None
          else Some ([peek p 0], Inq, False, 0)
      | Insq \<Rightarrow>
          if peek p 0 = 92 \<and> peek p 1 = 39 then Some ([39], Insq, False, 1)
          else if peek p 0 = 39 then
            (if peek p 1 \<noteq> 0 \<and> \<not> isspace (peek p 1) then None else Some ([], Insq, True, 0))
          else if peek p 0 = 0 then None
          else Some ([peek p 0], Insq, False, 0)
      | Unquoted \<Rightarrow>
          if peek p 0 \<in> {32, 10, 13, 9, 0} then Some ([], Unquoted, True, 0)
          else if peek p 0 = 34 then Some ([], Inq, False, 0)
          else if peek p 0 = 39 then Some ([], Insq, False, 0)
          else Some ([peek p 0], Unquoted, False, 0))"

text \<open>The pointer after a round.\<close>

definition advance :: "nat \<Rightarrow> byte list \<Rightarrow> byte list" where
  "advance n p = (let p' = drop n p in if peek p' 0 \<noteq> 0 then drop 1 p' else p')"

lemma argRound_progress:
  assumes "argRound q p = Some (bs, q', fin, n)" "\<not> fin"
  shows "length (advance n p) < length p"
proof -
  have "n < length p \<and> p ! n \<noteq> 0"
    using assms by (auto simp: argRound_def peek_def is_hex_digit_def split: quoting.splits if_splits)
  then show ?thesis by (auto simp: advance_def peek_def Let_def)
qed

function argLoop :: "mem \<Rightarrow> quoting \<Rightarrow> sds \<Rightarrow> byte list \<Rightarrow> (sds \<times> byte list) option" where
  "argLoop M q current p =
     (case argRound q p of None \<Rightarrow> None
      | Some (bs, q', fin, n) \<Rightarrow>
          (case (if bs = [] then Some current else sdscatlen M current bs) of None \<Rightarrow> None
           | Some current \<Rightarrow>
               if fin then Some (current, advance n p) else argLoop M q' current (advance n p)))"
  by pat_completeness auto

termination by (relation "measure (\<lambda>(M, q, current, p). length p)") (auto intro: argRound_progress)

declare argLoop.simps [simp del]

definition skipBlanks :: "byte list \<Rightarrow> byte list" where
  "skipBlanks p = dropWhile (\<lambda>c. c \<noteq> 0 \<and> isspace c) p"

lemma advance_le: "length (advance n p) \<le> length p"
  by (simp add: advance_def Let_def)

lemma argLoop_step:
  assumes "argRound q p = Some (bs, q', fin, n)"
  shows "argLoop M q current p =
    (case (if bs = [] then Some current else sdscatlen M current bs) of None \<Rightarrow> None
     | Some current \<Rightarrow> if fin then Some (current, advance n p) else argLoop M q' current (advance n p))"
  by (subst argLoop.simps) (simp add: assms)

lemma argLoop_length: "argLoop M q current p = Some (current', p') \<Longrightarrow> length p' \<le> length p"
proof (induction "length p" arbitrary: q current p rule: less_induct)
  case less
  then obtain bs q' fin n where r: "argRound q p = Some (bs, q', fin, n)"
    by (subst (asm) argLoop.simps) (auto split: option.splits)
  from less.prems obtain cur where *: "if fin then p' = advance n p else argLoop M q' cur (advance n p) = Some (current', p')"
    unfolding argLoop_step [OF r] by (auto split: option.splits if_splits)
  show ?case
  proof (cases fin)
    case True
    then show ?thesis using * advance_le by simp
  next
    case False
    then have "length (advance n p) < length p" using argRound_progress [OF r] by simp
    then show ?thesis using less.hyps [of "advance n p"] * False by fastforce
  qed
qed

lemma argLoop_shorter:
  assumes "argLoop M Unquoted current p = Some (current', p')" "peek p 0 \<noteq> 0" "\<not> isspace (peek p 0)"
  shows "length p' < length p"
proof -
  from assms(1) obtain bs q' fin n where r: "argRound Unquoted p = Some (bs, q', fin, n)"
    by (subst (asm) argLoop.simps) (auto split: option.splits)
  have "\<not> fin" using r assms(2,3) by (auto simp: argRound_def isspace_def split: if_splits)
  then have "length (advance n p) < length p" using argRound_progress [OF r] by simp
  moreover obtain cur where "argLoop M q' cur (advance n p) = Some (current', p')"
    using assms(1) \<open>\<not> fin\<close> unfolding argLoop_step [OF r] by (auto split: option.splits)
  ultimately show ?thesis using argLoop_length by fastforce
qed

lemma skipBlanks_peek: "peek (skipBlanks p) 0 \<noteq> 0 \<Longrightarrow> \<not> isspace (peek (skipBlanks p) 0)"
  unfolding skipBlanks_def peek_def using hd_dropWhile [of "\<lambda>c. c \<noteq> 0 \<and> isspace c" p]
  by (cases "dropWhile (\<lambda>c. c \<noteq> 0 \<and> isspace c) p") auto

lemma skipBlanks_le: "length (skipBlanks p) \<le> length p"
  by (simp add: skipBlanks_def length_dropWhile_le)

lemma splitargs_shorter:
  assumes "peek (skipBlanks p) 0 \<noteq> 0" "argLoop M Unquoted current (skipBlanks p) = Some (current', p')"
  shows "length p' < length p"
  using argLoop_shorter [OF assms(2,1) skipBlanks_peek [OF assms(1)]] skipBlanks_le [of p] by simp

function splitargsLoop :: "mem \<Rightarrow> byte list \<Rightarrow> sds list \<Rightarrow> sds list option" where
  "splitargsLoop M p vector =
     (let p = skipBlanks p in
      if peek p 0 \<noteq> 0 then
        (case sdsempty M of None \<Rightarrow> None
         | Some current \<Rightarrow>
             (case argLoop M Unquoted current p of None \<Rightarrow> None
              | Some (current, p) \<Rightarrow>
                  (case usable_size M ((length vector + 1) * 8) of None \<Rightarrow> None
                   | Some _ \<Rightarrow> splitargsLoop M p (vector @ [current]))))
      else if vector = [] then (case usable_size M 8 of None \<Rightarrow> None | Some _ \<Rightarrow> Some vector) else Some vector)"
  by pat_completeness auto

termination by (relation "measure (\<lambda>(M, p, vector). length p)") (auto intro: splitargs_shorter)

declare splitargsLoop.simps [simp del]

definition sdssplitargs :: "mem \<Rightarrow> byte list \<Rightarrow> sds list option" where
  "sdssplitargs M line = splitargsLoop M (take (strlen line) line) []"

section \<open>Templates\<close>

lemma template_shorter:
  "p \<noteq> [] \<Longrightarrow> length (dropWhile P p) - Suc (Suc 0) < length p"
  "p \<noteq> [] \<Longrightarrow> length (dropWhile Q (tl (dropWhile P p))) - Suc 0 < length p"
  using length_dropWhile_le [of P p] length_dropWhile_le [of Q "tl (dropWhile P p)"]
  by (cases p; simp; linarith)+

text \<open>The callback is the client's: it gets the name of the variable and returns a value or \<^verbatim>\<open>NULL\<close>.\<close>

function templateLoop :: "mem \<Rightarrow> (sds \<Rightarrow> sds option) \<Rightarrow> sds \<Rightarrow> byte list \<Rightarrow> sds option" where
  "templateLoop M cb res p =
     (if p = [] then Some res
      else let pre = takeWhile (\<lambda>c. c \<noteq> 123) p; sv = dropWhile (\<lambda>c. c \<noteq> 123) p in
        if sv = [] then sdscat M res p
        else do {
          res \<leftarrow> (if pre \<noteq> [] then sdscatlen M res pre else Some res);
          let sv = tl sv;
          if sv = [] then None
          else if hd sv = 123 then
            do { res \<leftarrow> sdscat M res [123]; templateLoop M cb res (tl sv) }
          else
            (let name = takeWhile (\<lambda>c. c \<noteq> 125) sv; ev = dropWhile (\<lambda>c. c \<noteq> 125) sv in
             if ev = [] then None
             else do {
               varname \<leftarrow> sdsnewlen M (Init_bytes sv) (length name);
               v \<leftarrow> cb varname;
               res \<leftarrow> sdscat M res (sds_buf v);
               templateLoop M cb res (tl ev)
             })
        })"
  by pat_completeness auto

termination by (relation "measure (\<lambda>(M, cb, res, p). length p)") (auto intro: template_shorter)

declare templateLoop.simps [simp del]

definition sdstemplate :: "mem \<Rightarrow> byte list \<Rightarrow> (sds \<Rightarrow> sds option) \<Rightarrow> sds option" where
  "sdstemplate M template cb =
     do { res \<leftarrow> sdsempty M; templateLoop M cb res (take (strlen template) template) }"

section \<open>Numbers are printed as numerals\<close>

lemma revDigits_dec: "revDigits v = rev (dec_nat v)"
proof (induction v rule: revDigits.induct)
  case (1 v)
  show ?case
  proof (cases "v < 10")
    case True
    then show ?thesis by (subst revDigits.simps) (simp add: dec_nat_small)
  next
    case False
    then have "v div 10 \<noteq> 0" by simp
    then show ?thesis using 1 False by (subst revDigits.simps) (simp add: dec_nat_step)
  qed
qed

lemma swapLoop_nth:
  assumes "p < int (length xs)"
  shows "length (swapLoop xs i p) = length xs \<and>
    (\<forall>k < length xs. swapLoop xs i p ! k = (if i \<le> k \<and> int k \<le> p then xs ! nat (int i + p - int k) else xs ! k))"
  using assms
proof (induction xs i p rule: swapLoop.induct)
  case (1 xs i p)
  show ?case
  proof (cases "int i < p")
    case True
    define ys where "ys = xs[i := xs ! nat p, nat p := xs ! i]"
    have step: "swapLoop xs i p = swapLoop ys (i + 1) (p - 1)" using True by (subst swapLoop.simps) (simp add: ys_def)
    have IH: "length (swapLoop ys (i + 1) (p - 1)) = length ys \<and>
      (\<forall>k < length ys. swapLoop ys (i + 1) (p - 1) ! k =
        (if i + 1 \<le> k \<and> int k \<le> p - 1 then ys ! nat (int (i + 1) + (p - 1) - int k) else ys ! k))"
      using "1.IH" [OF True] "1.prems" by (simp add: ys_def)
    have len: "length ys = length xs" by (simp add: ys_def)
    have "swapLoop ys (i + 1) (p - 1) ! k = (if i \<le> k \<and> int k \<le> p then xs ! nat (int i + p - int k) else xs ! k)"
      if "k < length xs" for k
    proof -
      consider "k = i" | "int k = p" | "i + 1 \<le> k \<and> int k \<le> p - 1" | "\<not> (i \<le> k \<and> int k \<le> p)" by linarith
      then show ?thesis
      proof cases
        case 1
        then show ?thesis using IH len that True "1.prems" by (simp add: ys_def nth_list_update)
      next
        case 2
        then have k: "k = nat p" "i \<le> k \<and> int k \<le> p" "nat (int i + p - int k) = i" "\<not> int k \<le> p - 1"
          using True by auto
        have "ys ! k = xs ! i" using that k(1) by (simp add: ys_def)
        then show ?thesis using IH len that k(2-4) by simp
      next
        case 3
        have e: "int (i + 1) + (p - 1) - int k = int i + p - int k" by simp
        have "nat (int i + p - int k) \<noteq> i" "nat (int i + p - int k) \<noteq> nat p" using 3 True by auto
        then have "ys ! nat (int i + p - int k) = xs ! nat (int i + p - int k)" by (simp add: ys_def)
        then show ?thesis using IH len that 3 unfolding e by simp
      next
        case 4
        then have "k \<noteq> i" "k \<noteq> nat p" using True by auto
        then have "ys ! k = xs ! k" by (simp add: ys_def)
        then show ?thesis using IH len that 4 by auto
      qed
    qed
    then show ?thesis using IH len unfolding step by simp
  next
    case False
    then have "swapLoop xs i p = xs" by (subst swapLoop.simps) simp
    then show ?thesis using False by (auto simp: le_less)
  qed
qed

lemma swapLoop_rev: "swapLoop xs 0 (int (length xs) - 1) = rev xs"
  using swapLoop_nth [of "int (length xs) - 1" xs 0]
  by (intro nth_equalityI) (auto simp: rev_nth nat_diff_distrib intro!: arg_cong [where f = "(!) xs"])

lemma sdsull2str_correct: "sdsull2str v = Some (dec_nat (unat v))"
  using length_dec_nat_64 [of "unat v"] unat_less_64 [of v] swapLoop_rev [of "rev (dec_nat (unat v))"]
  by (simp add: sdsull2str_def revDigits_dec SDS_LLSTR_SIZE_def)

lemma dec_int_short:
  assumes "is_int64 v"
  shows "length (dec_int v) \<le> 20"
proof -
  have "nat (if v < 0 then - v else v) < 10 ^ Suc 18" using assms by (auto simp: is_int64_def c_limits)
  then have "length (dec_nat (nat (if v < 0 then - v else v))) \<le> Suc 18" by (rule length_dec_nat_max)
  then show ?thesis by (auto simp: dec_int_def)
qed

lemma sdsll2str_correct:
  assumes "is_int64 value"
  shows "sdsll2str value = Some (dec_int value)"
proof -
  define v :: uint64 where "v = (if value < 0 then word_of_int (- value) else word_of_int value)"
  define s where "s = revDigits (unat v) @ (if value < 0 then [45] else [])"
  have w: "unat (word_of_int w :: uint64) = nat w" if "0 \<le> w" "w < 2 ^ 64" for w
    using that by (simp add: unsigned_of_int take_bit_int_eq_self)
  have "unat v = nat (if value < 0 then - value else value)"
    unfolding v_def using assms w [of "- value"] w [of "value"] by (auto simp: is_int64_def c_limits)
  then have s: "s = rev (dec_int value)" by (simp add: s_def revDigits_dec dec_int_def)
  have "length s + 1 \<le> SDS_LLSTR_SIZE" using dec_int_short [OF assms] by (simp add: s SDS_LLSTR_SIZE_def)
  then show ?thesis
    unfolding sdsll2str_def Let_def v_def [symmetric] s_def [symmetric] using swapLoop_rev [of s] by (simp add: s)
qed

section \<open>Splitting and joining are inverse\<close>

lemma prefix_shorter: "sep \<noteq> [] \<Longrightarrow> prefix sep xs \<Longrightarrow> length xs - length sep < length xs"
  by (cases sep; cases xs) auto

text \<open>The tokens between the leftmost separators; \<open>acc\<close> is the token read so far.\<close>

function split_ref :: "byte list \<Rightarrow> byte list \<Rightarrow> byte list \<Rightarrow> byte list list" where
  "split_ref sep acc xs =
     (if sep \<noteq> [] \<and> prefix sep xs then acc # split_ref sep [] (drop (length sep) xs)
      else case xs of [] \<Rightarrow> [acc] | x # xs' \<Rightarrow> split_ref sep (acc @ [x]) xs')"
  by pat_completeness auto

termination
  by (relation "measure (\<lambda>(sep, acc, xs). length xs)") (auto intro: prefix_shorter)

declare split_ref.simps [simp del]

fun join_val :: "byte list \<Rightarrow> byte list list \<Rightarrow> byte list" where
  "join_val sep [] = []"
| "join_val sep [t] = t"
| "join_val sep (t # t' # ts) = t @ sep @ join_val sep (t' # ts)"

lemma split_ref_not_Nil: "split_ref sep acc xs \<noteq> []"
  by (induction sep acc xs rule: split_ref.induct) (subst split_ref.simps, auto split: list.splits)

lemma join_val_Cons: "ts \<noteq> [] \<Longrightarrow> join_val sep (t # ts) = t @ sep @ join_val sep ts"
  by (cases ts) auto

lemma join_split: "join_val sep (split_ref sep acc xs) = acc @ xs"
proof (induction sep acc xs rule: split_ref.induct)
  case (1 sep acc xs)
  show ?case
  proof (cases "sep \<noteq> [] \<and> prefix sep xs")
    case True
    then have "xs = sep @ drop (length sep) xs" by (metis append_eq_conv_conj prefixE)
    then show ?thesis
      using 1(1) [OF True] True by (subst split_ref.simps) (simp add: join_val_Cons split_ref_not_Nil)
  next
    case False
    then show ?thesis using 1(2) [OF False] by (subst split_ref.simps) (auto split: list.splits)
  qed
qed

lemma sublist_drop:
  assumes "sublist sep acc" "sep \<noteq> []"
  shows "\<exists>i < length acc. prefix sep (drop i (acc @ xs))"
proof -
  obtain u v where "acc = u @ sep @ v" using assms(1) by (auto simp: sublist_def)
  then have "length u < length acc" "prefix sep (drop (length u) (acc @ xs))" using assms(2) by auto
  then show ?thesis by blast
qed

lemma split_ref_clean:
  assumes "sep \<noteq> []" "\<forall>i < length acc. \<not> prefix sep (drop i (acc @ xs))" "t \<in> set (split_ref sep acc xs)"
  shows "\<not> sublist sep t"
  using assms
proof (induction sep acc xs rule: split_ref.induct)
  case (1 sep acc xs)
  have acc: "\<not> sublist sep acc" using sublist_drop "1.prems"(1,2) by blast
  show ?case
  proof (cases "prefix sep xs")
    case True
    then have "t = acc \<or> t \<in> set (split_ref sep [] (drop (length sep) xs))"
      using "1.prems"(1,3) by (subst (asm) split_ref.simps) simp
    then show ?thesis using acc 1(1) True "1.prems"(1) by auto
  next
    case False
    show ?thesis
    proof (cases xs)
      case Nil
      then show ?thesis using "1.prems"(3) acc False by (subst (asm) split_ref.simps) simp
    next
      case (Cons x xs')
      have "\<forall>i < length (acc @ [x]). \<not> prefix sep (drop i ((acc @ [x]) @ xs'))"
        using "1.prems"(2) False Cons by (auto simp: less_Suc_eq)
      moreover have "t \<in> set (split_ref sep (acc @ [x]) xs')"
        using "1.prems"(3) False Cons by (subst (asm) split_ref.simps) simp
      ultimately show ?thesis using 1(2) [of x xs'] False Cons "1.prems"(1) by simp
    qed
  qed
qed

lemma split_ref_short:
  assumes "length xs < length sep"
  shows "split_ref sep acc xs = [acc @ xs]"
  using assms
proof (induction xs arbitrary: acc)
  case Nil
  then show ?case by (subst split_ref.simps) auto
next
  case (Cons x xs)
  then have "\<not> prefix sep (x # xs)" using prefix_length_le by fastforce
  then show ?case using Cons by (subst split_ref.simps) simp
qed

lemma memcmp_eq_0: "length xs = length ys \<Longrightarrow> memcmp xs ys = 0 \<longleftrightarrow> xs = ys"
  by (induction xs ys rule: list_induct2) auto

lemma split_match_prefix:
  assumes "j + length sep \<le> length s" "sep \<noteq> []"
  shows "split_match s sep j \<longleftrightarrow> prefix sep (drop j s)"
proof -
  have "memcmp (get_bytes s j (length sep)) sep = 0 \<longleftrightarrow> prefix sep (drop j s)"
    using assms(1) by (subst memcmp_eq_0) (auto simp: get_bytes_def prefix_def, metis append_take_drop_id)
  moreover have "prefix sep (drop j s)" if "length sep = 1" "s ! j = sep ! 0"
  proof -
    have "sep = [s ! j]" using that by (cases sep) auto
    moreover have "drop j s = s ! j # drop (Suc j) s" using assms(1) that(1) by (intro Cons_nth_drop_Suc [symmetric]) simp
    ultimately show ?thesis by simp
  qed
  ultimately show ?thesis by (auto simp: split_match_def)
qed

context lawful_mem
begin

lemma empty_correct: "\<exists>s. sdsempty M = Some s \<and> sds_ok s \<and> sds_val s = [] \<and> sdslen s = 0"
  using newlen_correct [of 0 "Init_bytes []"] by (auto simp: sdsempty_def sdsnewlen_def)

lemma new_correct:
  "n \<le> length bs \<Longrightarrow> n \<le> 2 ^ 60 \<Longrightarrow>
    \<exists>s. sdsnewlen M (Init_bytes bs) n = Some s \<and> sds_ok s \<and> sds_val s = take n bs"
  using newlen_correct [of n "Init_bytes bs"] by (auto simp: sdsnewlen_def)

lemma splitLoop_correct:
  assumes "sep \<noteq> []" "length s < 2 ^ 30"
    and "start \<le> j" "j \<le> length s" "length tokens \<le> j" "length tokens < slots" "slots \<le> 5 + 2 * length tokens"
  shows "\<exists>start' slots' toks. splitLoop M s sep j start slots tokens = Some (start', slots', tokens @ toks) \<and>
    start' \<le> length s \<and> length (tokens @ toks) < slots' \<and> length (tokens @ toks) \<le> length s \<and> list_all sds_ok toks \<and>
    map sds_val toks @ [drop start' s] = split_ref sep (take (j - start) (drop start s)) (drop j s)"
  using assms(3-)
proof (induction "length s - j" arbitrary: j start slots tokens rule: less_induct)
  case less
  show ?case
  proof (cases "int j < int (length s) - (int (length sep) - 1)")
    case False
    then have "length (drop j s) < length sep" using assms(1) less.prems(2) by auto
    then have "split_ref sep (take (j - start) (drop start s)) (drop j s) = [take (j - start) (drop start s) @ drop j s]"
      by (rule split_ref_short)
    also have "take (j - start) (drop start s) @ drop j s = drop start s"
      using append_take_drop_id [of "j - start" "drop start s"] less.prems(1) by simp
    finally show ?thesis
      using False less.prems by (subst splitLoop.simps) (auto intro!: exI [of _ "[]"])
  next
    case True
    then have jl: "j + length sep \<le> length s" "j < length s" using assms(1) by (auto simp: neq_Nil_conv)
    define slots1 where "slots1 = (if slots < length tokens + 2 then slots * 2 else slots)"
    have s1: "length tokens + 2 \<le> slots1" "slots1 \<le> 5 + 2 * (length tokens + 1)" "slots1 \<le> 5 + 2 * length tokens"
      using less.prems by (auto simp: slots1_def)
    have "8 * (slots * 2) \<le> 2 ^ 63" using less.prems assms(2) by simp
    then obtain x where x: "usable_size M (8 * (slots * 2)) = Some x" using available by blast
    have "int (length tokens) + 2 \<le> INT32_MAX" "slots < length tokens + 2 \<Longrightarrow> int slots * 2 \<le> INT32_MAX"
      using less.prems jl assms(2) by (simp_all add: INT32_MAX_def)
    then have grow: "(if int (length tokens) + 2 > INT32_MAX then None
        else if slots < length tokens + 2 then
          if int slots * 2 > INT32_MAX then None else do { _ \<leftarrow> usable_size M (8 * (slots * 2)); Some (slots * 2) }
        else Some slots) = Some slots1"
      unfolding x slots1_def by auto
    have seplen: "1 \<le> length sep" using assms(1) by (simp add: Suc_le_eq)
    show ?thesis
    proof (cases "split_match s sep j")
      case m: True
      then have pre: "prefix sep (drop j s)" using split_match_prefix [OF jl(1) assms(1)] by simp
      have "j - start \<le> length (drop start s)" "j - start \<le> 2 ^ 60" using less.prems(2) assms(2) by auto
      then obtain t where t: "sdsnewlen M (Init_bytes (drop start s)) (j - start) = Some t" "sds_ok t"
        "sds_val t = take (j - start) (drop start s)"
        using new_correct by blast
      have e: "j + length sep - 1 + 1 = j + length sep" using seplen by simp
      have step: "splitLoop M s sep j start slots tokens =
          splitLoop M s sep (j + length sep) (j + length sep) slots1 (tokens @ [t])"
        using seplen s1(1) True by (subst splitLoop.simps, subst grow, subst e) (simp add: m t(1))
      have "length s - (j + length sep) < length s - j" "length (tokens @ [t]) \<le> j + length sep"
        "length (tokens @ [t]) < slots1" "slots1 \<le> 5 + 2 * length (tokens @ [t])"
        using jl seplen less.prems s1 by simp_all
      from less.hyps [OF this(1) order_refl jl(1) this(2-)]
      obtain start' slots' toks where IH: "splitLoop M s sep (j + length sep) (j + length sep) slots1 (tokens @ [t]) =
          Some (start', slots', (tokens @ [t]) @ toks)" "start' \<le> length s" "length ((tokens @ [t]) @ toks) < slots'"
        "length ((tokens @ [t]) @ toks) \<le> length s"
        "list_all sds_ok toks" "map sds_val toks @ [drop start' s] = split_ref sep [] (drop (j + length sep) s)"
        by auto
      have "split_ref sep (take (j - start) (drop start s)) (drop j s) = sds_val t # split_ref sep [] (drop (j + length sep) s)"
        using pre assms(1) by (subst split_ref.simps) (simp add: t(3) add.commute)
      then show ?thesis unfolding step
        using IH t(2) by (intro exI [of _ start'] exI [of _ slots'] exI [of _ "t # toks"]) auto
    next
      case m: False
      then have pre: "\<not> prefix sep (drop j s)" using split_match_prefix [OF jl(1) assms(1)] by simp
      have step: "splitLoop M s sep j start slots tokens = splitLoop M s sep (j + 1) start slots1 tokens"
        using seplen True by (subst splitLoop.simps, subst grow) (simp add: m)
      have "length s - (j + 1) < length s - j" "start \<le> j + 1" "j + 1 \<le> length s" "length tokens \<le> j + 1"
        "length tokens < slots1" using jl less.prems s1 by simp_all
      from less.hyps [OF this s1(3)]
      obtain start' slots' toks where IH: "splitLoop M s sep (j + 1) start slots1 tokens = Some (start', slots', tokens @ toks)"
        "start' \<le> length s" "length (tokens @ toks) < slots'" "length (tokens @ toks) \<le> length s" "list_all sds_ok toks"
        "map sds_val toks @ [drop start' s] = split_ref sep (take (j + 1 - start) (drop start s)) (drop (j + 1) s)"
        by blast
      have "drop j s = s ! j # drop (j + 1) s" "take (j + 1 - start) (drop start s) = take (j - start) (drop start s) @ [s ! j]"
        using jl less.prems(1) by (simp_all add: Cons_nth_drop_Suc Suc_diff_le take_Suc_conv_app_nth)
      then have "split_ref sep (take (j - start) (drop start s)) (drop j s) =
          split_ref sep (take (j + 1 - start) (drop start s)) (drop (j + 1) s)"
        using pre by (subst split_ref.simps) simp
      then show ?thesis unfolding step using IH by auto
    qed
  qed
qed

lemma splitlen_correct:
  assumes "sep \<noteq> []" "s \<noteq> []" "length s < 2 ^ 30" "int (length sep) \<le> INT32_MAX"
  shows "\<exists>toks. sdssplitlen M s (int (length s)) sep = Some toks \<and> list_all sds_ok toks \<and>
    map sds_val toks = split_ref sep [] s"
proof -
  obtain x where x: "usable_size M (8 * 5) = Some x" using available [of "8 * 5"] by auto
  obtain start slots toks where loop: "splitLoop M s sep 0 0 5 [] = Some (start, slots, toks)" "start \<le> length s"
    "length toks < slots" "length toks \<le> length s" "list_all sds_ok toks" "map sds_val toks @ [drop start s] = split_ref sep [] s"
    using splitLoop_correct [OF assms(1,3), of 0 0 "[]" 5] by auto
  have "length s - start \<le> length (drop start s)" "length s - start \<le> 2 ^ 60" using assms(3) by auto
  then obtain t where t: "sdsnewlen M (Init_bytes (drop start s)) (length s - start) = Some t" "sds_ok t"
    "sds_val t = drop start s"
    using new_correct [of "length s - start" "drop start s"] by auto
  have "sdssplitlen M s (int (length s)) sep = Some (toks @ [t])"
    using assms loop(1,3,4) t(1) by (simp add: sdssplitlen_def Suc_le_eq x [simplified] INT32_MAX_def)
  moreover have "map sds_val (toks @ [t]) = split_ref sep [] s" using loop(6) t(3) by simp
  ultimately show ?thesis using loop(5) t(2) by (intro exI [of _ "toks @ [t]"]) simp
qed

lemma joinLoop_correct:
  assumes "\<And>s a. sds_ok s \<Longrightarrow> a \<in> set argv \<Longrightarrow> sdslen s + length (val a) \<le> 2 ^ 60 \<Longrightarrow>
      \<exists>s'. cat s a = Some s' \<and> sds_ok s' \<and> sds_val s' = sds_val s @ val a"
    and "sds_ok s" "sdslen s + length (join_val sep (map val argv)) \<le> 2 ^ 60"
  shows "\<exists>s'. joinLoop M cat sep s argv = Some s' \<and> sds_ok s' \<and> sds_val s' = sds_val s @ join_val sep (map val argv)"
  using assms
proof (induction argv arbitrary: s)
  case Nil
  then show ?case by simp
next
  case (Cons a argv)
  have la: "length (val a) \<le> length (join_val sep (map val (a # argv)))" by (cases argv) auto
  then obtain s1 where s1: "cat s a = Some s1" "sds_ok s1" "sds_val s1 = sds_val s @ val a"
    using Cons.prems(1) [of s a] Cons.prems(2,3) by auto
  have l1: "sdslen s1 = sdslen s + length (val a)" using s1(2,3) sds_okD(6) Cons.prems(2) by (metis length_append)
  show ?case
  proof (cases "argv = []")
    case True
    then show ?thesis using s1 by simp
  next
    case False
    then have j: "join_val sep (map val (a # argv)) = val a @ sep @ join_val sep (map val argv)"
      by (simp add: join_val_Cons)
    obtain s2 where s2: "sdscatlen M s1 sep = Some s2" "sds_ok s2" "sds_val s2 = sds_val s1 @ sep"
      using catlen_correct [OF s1(2), of sep] Cons.prems(3) l1 j by auto
    have l2: "sdslen s2 = sdslen s1 + length sep" using s1(2) s2(2,3) sds_okD(6) by (metis length_append)
    obtain s' where "joinLoop M cat sep s2 argv = Some s'" "sds_ok s'"
      "sds_val s' = sds_val s2 @ join_val sep (map val argv)"
      using Cons.IH [OF Cons.prems(1) s2(2)] Cons.prems(3) l1 l2 j by auto
    then show ?thesis using s1 s2 False j by simp
  qed
qed

lemma catsds_correct:
  assumes "sds_ok s" "sds_ok a" "sdslen s + length (sds_val a) \<le> 2 ^ 60"
  shows "\<exists>s'. sdscatsds M s a = Some s' \<and> sds_ok s' \<and> sds_val s' = sds_val s @ sds_val a"
proof -
  have "sds_get a 0 (sdslen a) = Some (sds_val a)"
    using sds_okD(4) [OF assms(2)] by (simp add: sds_get_def get_bytes_def sds_val_def)
  then show ?thesis using catlen_correct [OF assms(1,3)] by (simp add: sdscatsds_def)
qed

lemma joinsds_correct:
  assumes "list_all sds_ok argv" "length (join_val sep (map sds_val argv)) \<le> 2 ^ 60"
  shows "\<exists>s. sdsjoinsds M argv sep = Some s \<and> sds_ok s \<and> sds_val s = join_val sep (map sds_val argv)"
proof -
  obtain e where e: "sdsempty M = Some e" "sds_ok e" "sds_val e = []" "sdslen e = 0" using empty_correct by blast
  have "\<And>s a. sds_ok s \<Longrightarrow> a \<in> set argv \<Longrightarrow> sdslen s + length (sds_val a) \<le> 2 ^ 60 \<Longrightarrow>
      \<exists>s'. sdscatsds M s a = Some s' \<and> sds_ok s' \<and> sds_val s' = sds_val s @ sds_val a"
    using catsds_correct assms(1) by (auto simp: list_all_iff)
  from joinLoop_correct [of argv sds_val "sdscatsds M" e sep, OF this e(2)] assms(2) e show ?thesis
    by (auto simp: sdsjoinsds_def)
qed

end

text \<open>
  C13: splitting a non-empty string of less than $2^{30}$ bytes by a non-empty separator whose length
  is an \<^verbatim>\<open>int\<close> returns well-formed strings, at least one, none of which contains the separator, and joining them again with
  the separator gives the string back; the stores stay in the token array, and its counters of
  type \<^verbatim>\<open>int\<close> do not overflow.
\<close>

theorem sdssplitlen_join:
  assumes "lawful_mem M" "sep \<noteq> []" "s \<noteq> []" "length s < 2 ^ 30" "int (length sep) \<le> INT32_MAX"
  shows "\<exists>toks. sdssplitlen M s (int (length s)) sep = Some toks \<and> toks \<noteq> [] \<and>
    (\<forall>t \<in> set toks. sds_ok t \<and> \<not> sublist sep (sds_val t)) \<and>
    (\<exists>j. sdsjoinsds M toks sep = Some j \<and> sds_val j = s)"
proof -
  obtain toks where t: "sdssplitlen M s (int (length s)) sep = Some toks" "list_all sds_ok toks"
    "map sds_val toks = split_ref sep [] s"
    using lawful_mem.splitlen_correct [OF assms] by blast
  have "toks \<noteq> []" using t(3) split_ref_not_Nil [of sep "[]" s] by auto
  moreover have "\<not> sublist sep (sds_val x)" if "x \<in> set toks" for x
  proof -
    have "sds_val x \<in> set (split_ref sep [] s)" using that t(3) by (metis image_eqI set_map)
    then show ?thesis using split_ref_clean [OF assms(2), of "[]" s] by simp
  qed
  moreover have "\<exists>j. sdsjoinsds M toks sep = Some j \<and> sds_val j = s"
    using lawful_mem.joinsds_correct [OF assms(1) t(2), of sep] t(3) join_split [of sep "[]" s] assms(4) by auto
  ultimately show ?thesis using t(1,2) by (auto simp: list_all_iff)
qed

theorem sdssplitlen_join_witness:
  "\<exists>toks. sdssplitlen round16_mem [97, 44, 44, 98] 4 [44] = Some toks \<and> toks \<noteq> [] \<and>
    (\<forall>t \<in> set toks. sds_ok t \<and> \<not> sublist [44] (sds_val t)) \<and>
    (\<exists>j. sdsjoinsds round16_mem toks [44] = Some j \<and> sds_val j = [97, 44, 44, 98])"
  using sdssplitlen_join [OF round16.lawful_mem_axioms, of "[44]" "[97, 44, 44, 98]"] by (simp add: INT32_MAX_def)

section \<open>Quoted strings are read back\<close>

definition repr_char :: "byte \<Rightarrow> byte list" where
  "repr_char c =
     (if c = 92 \<or> c = 34 then [92, c]
      else if c = 10 then [92, 110] else if c = 13 then [92, 114] else if c = 9 then [92, 116]
      else if c = 7 then [92, 97] else if c = 8 then [92, 98]
      else if isprint c then [c] else [92, 120] @ hex2 c)"

definition repr_val :: "byte list \<Rightarrow> byte list" where
  "repr_val bs = [34] @ concat (map repr_char bs) @ [34]"

lemma hex_char_facts:
  assumes "d < 16"
  shows "is_hex_digit (hex_char d)" "hex_digit_to_int (hex_char d) = d" "hex_char d \<noteq> 0"
proof -
  have "list_all (\<lambda>d. is_hex_digit (hex_char d) \<and> hex_digit_to_int (hex_char d) = d \<and> hex_char d \<noteq> 0) [0..<16]"
    by (simp add: upt_rec hex_char_def is_hex_digit_def hex_digit_to_int_def)
  then show "is_hex_digit (hex_char d)" "hex_digit_to_int (hex_char d) = d" "hex_char d \<noteq> 0"
    using assms by (auto simp: list_all_iff)
qed

lemma hex2_value: "of_nat (unat c div 16 * 16 + unat c mod 16) = c" for c :: byte
  by (simp only: div_mult_mod_eq) simp

lemma unat_byte_div16: "unat c div 16 < 16" for c :: byte
  using unat_less_byte [of c] by (simp add: less_mult_imp_div_less)

lemma argRound_repr:
  "argRound Inq (repr_char c @ p) = Some ([c], Inq, False, length (repr_char c) - 1)"
proof -
  have hex: "argRound Inq ([92, 120] @ hex2 c @ p) = Some ([c], Inq, False, 3)"
    using hex_char_facts [OF unat_byte_div16 [of c]] hex_char_facts [of "unat c mod 16"] hex2_value [of c]
    by (simp add: argRound_def peek_def hex2_def nth_Cons' del: of_nat_add of_nat_mult)
  have plain: "argRound Inq (c # p) = Some ([c], Inq, False, 0)" if "isprint c" "c \<noteq> 92" "c \<noteq> 34"
    using that by (auto simp: argRound_def peek_def isprint_def)
  have esc: "argRound Inq (92 # x # p) = Some ([unescape x], Inq, False, 1)" if "x \<noteq> 120" "x \<noteq> 0" for x
    using that by (simp add: argRound_def peek_def)
  have "length (hex2 c) = 2" by (simp add: hex2_def)
  then show ?thesis using hex plain by (auto simp: repr_char_def esc unescape_def)
qed

lemma repr_char_nonzero: "0 \<notin> set (repr_char c)" "repr_char c \<noteq> []"
  using hex_char_facts(3) [OF unat_byte_div16 [of c]] hex_char_facts(3) [of "unat c mod 16"]
  by (auto simp: repr_char_def hex2_def isprint_def)

lemma repr_chars_length: "length (concat (map repr_char p)) \<le> 4 * length p"
proof (induction p)
  case (Cons c p)
  have "length (repr_char c) \<le> 4" by (simp add: repr_char_def hex2_def)
  with Cons show ?case by simp
qed simp

lemma advance_append:
  assumes "xs \<noteq> []" "0 \<notin> set xs"
  shows "advance (length xs - 1) (xs @ p) = p"
proof -
  obtain ys y where xs: "xs = ys @ [y]" using assms(1) by (metis append_butlast_last_id)
  then have "y \<noteq> 0" using assms(2) by auto
  then show ?thesis by (simp add: xs advance_def peek_def)
qed

definition ends_arg :: "byte list \<Rightarrow> bool" where
  "ends_arg p \<longleftrightarrow> p = [] \<or> isspace (hd p)"

lemma argRound_close: "ends_arg p \<Longrightarrow> argRound Inq (34 # p) = Some ([], Inq, True, 0)"
  by (cases p) (auto simp: argRound_def peek_def ends_arg_def is_hex_digit_def)

context lawful_mem
begin

lemma catvprintf_correct:
  assumes "sds_ok s" "sdslen s + length text \<le> 2 ^ 60" "strlen fmt \<le> 2 ^ 60"
  shows "\<exists>s'. sdscatvprintf M s fmt (Some text) = Some s' \<and> sds_ok s' \<and> sds_val s' = sds_val s @ text"
proof -
  have "usable_size M (strlen fmt * 2) \<noteq> None" "usable_size M (length text + 1) \<noteq> None"
    using available assms(2,3) by auto
  then show ?thesis using catlen_correct [OF assms(1,2)] by (auto simp: sdscatvprintf_def Let_def)
qed

lemma repr_char_cat:
  assumes "sds_ok s" "sdslen s + 4 \<le> 2 ^ 60"
  shows "\<exists>s'. reprLoop M s (c # p) = reprLoop M s' p \<and> sds_ok s' \<and> sds_val s' = sds_val s @ repr_char c"
proof -
  have cat: "\<exists>s'. sdscatlen M s t = Some s' \<and> sds_ok s' \<and> sds_val s' = sds_val s @ t" if "length t \<le> 4" for t
    using catlen_correct [OF assms(1), of t] assms(2) that by simp
  have pr: "\<exists>s'. sdscatvprintf M s fmt (Some t) = Some s' \<and> sds_ok s' \<and> sds_val s' = sds_val s @ t"
    if "length t \<le> 4" "length fmt \<le> 6" for t fmt
    using catvprintf_correct [OF assms(1), of t fmt] assms(2) that
      length_takeWhile_le [of "\<lambda>c. c \<noteq> 0" fmt] by (simp add: strlen_def)
  show ?thesis
    using pr [of "[92, c]" "[92, 37, 99]"] pr [of "[c]" "[37, 99]"] pr [of "[92, 120] @ hex2 c" "[92, 120, 37, 48, 50, 120]"]
      cat [of "[92, 110]"] cat [of "[92, 114]"] cat [of "[92, 116]"] cat [of "[92, 97]"] cat [of "[92, 98]"]
    by (auto simp: repr_char_def hex2_def)
qed

lemma reprLoop_correct:
  assumes "sds_ok s" "sdslen s + 4 * length p \<le> 2 ^ 60"
  shows "\<exists>s'. reprLoop M s p = Some s' \<and> sds_ok s' \<and> sds_val s' = sds_val s @ concat (map repr_char p)"
  using assms
proof (induction p arbitrary: s)
  case Nil
  then show ?case by simp
next
  case (Cons c p)
  obtain s1 where s1: "reprLoop M s (c # p) = reprLoop M s1 p" "sds_ok s1" "sds_val s1 = sds_val s @ repr_char c"
    using repr_char_cat [OF Cons.prems(1), of c p] Cons.prems(2) by auto
  have "length (repr_char c) \<le> 4" by (simp add: repr_char_def hex2_def)
  then have "sdslen s1 \<le> sdslen s + 4" using s1(2,3) Cons.prems(1) sds_okD(6) by (metis add_left_mono length_append)
  then show ?case using Cons.IH [OF s1(2)] Cons.prems(2) s1(1,3) by auto
qed

lemma catrepr_correct:
  assumes "sds_ok s" "sdslen s + 4 * length p + 2 \<le> 2 ^ 60"
  shows "\<exists>s'. sdscatrepr M s p = Some s' \<and> sds_ok s' \<and> sds_val s' = sds_val s @ repr_val p"
proof -
  obtain s1 where s1: "sdscatlen M s [34] = Some s1" "sds_ok s1" "sds_val s1 = sds_val s @ [34]"
    using catlen_correct [OF assms(1), of "[34]"] assms(2) by auto
  have l1: "sdslen s1 = sdslen s + 1"
    using sds_okD(6) [OF s1(2)] sds_okD(6) [OF assms(1)] s1(3) by simp
  obtain s2 where s2: "reprLoop M s1 p = Some s2" "sds_ok s2" "sds_val s2 = sds_val s1 @ concat (map repr_char p)"
    using reprLoop_correct [OF s1(2), of p] assms(2) l1 by auto
  have l2: "sdslen s2 \<le> sdslen s1 + 4 * length p"
    using sds_okD(6) [OF s1(2)] sds_okD(6) [OF s2(2)] s2(3) repr_chars_length [of p] by simp
  obtain s3 where "sdscatlen M s2 [34] = Some s3" "sds_ok s3" "sds_val s3 = sds_val s2 @ [34]"
    using catlen_correct [OF s2(2), of "[34]"] assms(2) l1 l2 by auto
  then show ?thesis using s1 s2 by (auto simp: sdscatrepr_def repr_val_def)
qed

lemma argLoop_quoted:
  assumes "sds_ok cur" "sdslen cur + length bs \<le> 2 ^ 60" "ends_arg rest"
  shows "\<exists>cur'. argLoop M Inq cur (concat (map repr_char bs) @ 34 # rest) = Some (cur', rest) \<and>
    sds_ok cur' \<and> sds_val cur' = sds_val cur @ bs"
  using assms(1,2)
proof (induction bs arbitrary: cur)
  case Nil
  then show ?case
    using argLoop_step [OF argRound_close [OF assms(3)], of M cur] by (simp add: advance_def peek_def)
next
  case (Cons c bs)
  obtain cur1 where c1: "sdscatlen M cur [c] = Some cur1" "sds_ok cur1" "sds_val cur1 = sds_val cur @ [c]"
    using catlen_correct [OF Cons.prems(1), of "[c]"] Cons.prems(2) by auto
  have l1: "sdslen cur1 = sdslen cur + 1"
    using sds_okD(6) [OF c1(2)] sds_okD(6) [OF Cons.prems(1)] c1(3) by simp
  let ?p = "concat (map repr_char bs) @ 34 # rest"
  have "argLoop M Inq cur (repr_char c @ ?p) = argLoop M Inq cur1 ?p"
    using argLoop_step [OF argRound_repr, of M cur c ?p] advance_append [OF repr_char_nonzero(2,1), of c ?p]
    by (simp add: c1(1))
  then show ?case using Cons.IH [OF c1(2)] l1 Cons.prems(2) c1(3) by auto
qed

lemma argLoop_repr:
  assumes "sds_ok cur" "sdslen cur + length bs \<le> 2 ^ 60" "ends_arg rest"
  shows "\<exists>cur'. argLoop M Unquoted cur (repr_val bs @ rest) = Some (cur', rest) \<and> sds_ok cur' \<and>
    sds_val cur' = sds_val cur @ bs"
proof -
  let ?p = "concat (map repr_char bs) @ 34 # rest"
  have "argRound Unquoted (34 # ?p) = Some ([], Inq, False, 0)" by (simp add: argRound_def peek_def)
  from argLoop_step [OF this, of M cur]
  have "argLoop M Unquoted cur (repr_val bs @ rest) = argLoop M Inq cur ?p"
    by (simp add: advance_def peek_def repr_val_def)
  then show ?thesis using argLoop_quoted [OF assms] by simp
qed

text \<open>The arguments, each after a blank.\<close>

lemma splitargsLoop_skip: "splitargsLoop M (skipBlanks p) v = splitargsLoop M p v"
proof -
  have "skipBlanks (skipBlanks p) = skipBlanks p" by (simp add: skipBlanks_def dropWhile_idem)
  then show ?thesis by (subst (1 2) splitargsLoop.simps) simp
qed

lemma splitargsLoop_repr:
  assumes "\<forall>a \<in> set args. length a \<le> 2 ^ 56" "length v + length args \<le> 2 ^ 56"
  shows "\<exists>toks. splitargsLoop M (concat (map (\<lambda>a. 32 # repr_val a) args)) v = Some (v @ toks) \<and>
    list_all sds_ok toks \<and> map sds_val toks = args"
  using assms
proof (induction args arbitrary: v)
  case Nil
  have "usable_size M 8 \<noteq> None" using available [of 8] by simp
  then show ?case by (subst splitargsLoop.simps) (auto simp: skipBlanks_def peek_def)
next
  case (Cons a args)
  let ?rest = "concat (map (\<lambda>a. 32 # repr_val a) args)"
  have skip: "skipBlanks (concat (map (\<lambda>a. 32 # repr_val a) (a # args))) = repr_val a @ ?rest"
    by (simp add: skipBlanks_def repr_val_def isspace_def)
  have first: "peek (repr_val a @ ?rest) 0 = 34" by (simp add: peek_def repr_val_def)
  have ends: "ends_arg ?rest" by (cases args) (auto simp: ends_arg_def isspace_def)
  obtain e where e: "sdsempty M = Some e" "sds_ok e" "sds_val e = []" "sdslen e = 0" using empty_correct by blast
  obtain cur where cur: "argLoop M Unquoted e (repr_val a @ ?rest) = Some (cur, ?rest)" "sds_ok cur" "sds_val cur = a"
    using argLoop_repr [OF e(2) _ ends, of a] e(3,4) Cons.prems(1) by auto
  obtain x where x: "usable_size M ((length v + 1) * 8) = Some x"
    using available [of "(length v + 1) * 8"] Cons.prems(2) by auto
  have "splitargsLoop M (concat (map (\<lambda>a. 32 # repr_val a) (a # args))) v = splitargsLoop M ?rest (v @ [cur])"
    by (subst splitargsLoop.simps) (simp only: Let_def skip first e(1) cur(1) x option.case prod.case, simp)
  then show ?case using Cons.IH [of "v @ [cur]"] Cons.prems cur(2,3) by auto
qed

end

lemma join_blank: "args \<noteq> [] \<Longrightarrow> 32 # join_val [32] (map repr_val args) = concat (map (\<lambda>a. 32 # repr_val a) args)"
proof (induction args)
  case (Cons a args)
  then show ?case by (cases args) simp_all
qed simp

lemma join_repr_nonzero: "0 \<notin> set (join_val [32] (map repr_val args))"
proof (cases "args = []")
  case False
  have "0 \<notin> set (concat (map (\<lambda>a. 32 # repr_val a) args))" using repr_char_nonzero(1) by (auto simp: repr_val_def)
  then show ?thesis unfolding join_blank [OF False, symmetric] by simp
qed simp

lemma join_repr_length:
  assumes "\<forall>a \<in> set args. length a \<le> n"
  shows "length (join_val [32] (map repr_val args)) \<le> length args * (4 * n + 3)"
  using assms
proof (induction args)
  case (Cons a args)
  have "length (repr_val a) \<le> 4 * n + 2" using repr_chars_length [of a] Cons.prems by (simp add: repr_val_def)
  then show ?case using Cons by (cases args) auto
qed simp

text \<open>
  C12: quoting any byte strings with \<^verbatim>\<open>sdscatrepr\<close>, joining the results with blanks and reading the
  line with \<^verbatim>\<open>sdssplitargs\<close> gives the strings back, binary contents, quotes, backslashes and
  zero bytes included.
\<close>

theorem sdssplitargs_repr:
  assumes M: "lawful_mem M" and len: "\<forall>a \<in> set args. length a \<le> 2 ^ 40" "length args \<le> 2 ^ 16"
  shows "\<exists>rs line toks. list_all2 (\<lambda>a r. do { e \<leftarrow> sdsempty M; sdscatrepr M e a } = Some r) args rs \<and>
    sdsjoinsds M rs [32] = Some line \<and> sdssplitargs M (sds_buf line) = Some toks \<and> map sds_val toks = args"
proof -
  obtain e where e: "sdsempty M = Some e" "sds_ok e" "sds_val e = []" "sdslen e = 0"
    using lawful_mem.empty_correct [OF M] by blast
  have "\<exists>r. sdscatrepr M e a = Some r \<and> sds_ok r \<and> sds_val r = repr_val a" if "a \<in> set args" for a
    using lawful_mem.catrepr_correct [OF M e(2), of a] e(3,4) len(1) that by auto
  then obtain f where f: "\<forall>a \<in> set args. sdscatrepr M e a = Some (f a) \<and> sds_ok (f a) \<and> sds_val (f a) = repr_val a"
    by metis
  define rs where "rs = map f args"
  have rs: "list_all2 (\<lambda>a r. do { e \<leftarrow> sdsempty M; sdscatrepr M e a } = Some r) args rs" "list_all sds_ok rs"
    "map sds_val rs = map repr_val args"
    using f by (auto simp: rs_def list_all2_conv_all_nth list_all_iff e(1))
  define tx where "tx = join_val [32] (map repr_val args)"
  have "length tx \<le> length args * (4 * 2 ^ 40 + 3)" unfolding tx_def by (rule join_repr_length [OF len(1)])
  also have "\<dots> \<le> 2 ^ 16 * (4 * 2 ^ 40 + 3)" using len(2) by (rule mult_le_mono1)
  finally have "length tx \<le> 2 ^ 60" by simp
  then obtain line where line: "sdsjoinsds M rs [32] = Some line" "sds_ok line" "sds_val line = tx"
    using lawful_mem.joinsds_correct [OF M rs(2), of "[32]"] rs(3) by (auto simp: tx_def)
  have "sds_buf line = tx @ 0 # drop (Suc (sdslen line)) (sds_buf line)"
    using sds_okD(4,5) [OF line(2)] line(3) by (metis id_take_nth_drop sds_val_def)
  moreover have "0 \<notin> set tx" unfolding tx_def by (rule join_repr_nonzero)
  ultimately have "take (strlen (sds_buf line)) (sds_buf line) = tx"
    unfolding strlen_def takeWhile_eq_take [symmetric] by (metis (mono_tags, lifting) takeWhile_append2 takeWhile.simps(2) append_Nil2)
  then have split: "sdssplitargs M (sds_buf line) = splitargsLoop M tx []" by (simp add: sdssplitargs_def)
  have "skipBlanks tx = skipBlanks (concat (map (\<lambda>a. 32 # repr_val a) args))"
  proof (cases "args = []")
    case False
    have "skipBlanks (32 # tx) = skipBlanks tx" by (simp add: skipBlanks_def isspace_def)
    then show ?thesis using join_blank [OF False] by (simp add: tx_def)
  qed (simp add: tx_def)
  then have "splitargsLoop M tx [] = splitargsLoop M (concat (map (\<lambda>a. 32 # repr_val a) args)) []"
    by (metis lawful_mem.splitargsLoop_skip M)
  moreover have "\<forall>a \<in> set args. length a \<le> 2 ^ 56" "length args \<le> 2 ^ 56" using len by auto
  ultimately show ?thesis
    using lawful_mem.splitargsLoop_repr [OF M, of args "[]"] split rs(1) line(1) by auto
qed

theorem sdssplitargs_repr_witness:
  "\<exists>rs line toks. list_all2 (\<lambda>a r. do { e \<leftarrow> sdsempty round16_mem; sdscatrepr round16_mem e a } = Some r)
      [[102, 111, 111], [0, 34, 92, 255]] rs \<and>
    sdsjoinsds round16_mem rs [32] = Some line \<and> sdssplitargs round16_mem (sds_buf line) = Some toks \<and>
    map sds_val toks = [[102, 111, 111], [0, 34, 92, 255]]"
  by (rule sdssplitargs_repr [OF round16.lawful_mem_axioms]) simp_all

section \<open>Formatted output prints the arguments\<close>

text \<open>
  A format as the sequence of what it asks for: a plain character, a character behind a percent sign that is
  no directive, or a directive with the argument it takes.  Each one contributes characters to the
  format, at most one argument, and a text to the output.
\<close>

datatype fmt_item = F_char byte | F_escaped byte | F_str "byte list" | F_sds sds
  | F_int "32 word" | F_llong "64 word" | F_uint uint32 | F_ullong uint64

fun item_ok :: "fmt_item \<Rightarrow> bool" where
  "item_ok (F_char c) \<longleftrightarrow> c \<noteq> 0 \<and> c \<noteq> of_char CHR ''%''"
| "item_ok (F_escaped c) \<longleftrightarrow> c \<noteq> 0 \<and> c \<notin> set (map of_char ''sSiIuU'')"
| "item_ok (F_str t) \<longleftrightarrow> 0 \<notin> set t"
| "item_ok (F_sds t) \<longleftrightarrow> sds_ok t"
| "item_ok _ \<longleftrightarrow> True"

fun item_fmt :: "fmt_item \<Rightarrow> byte list" where
  "item_fmt (F_char c) = [c]"
| "item_fmt (F_escaped c) = [of_char CHR ''%'', c]"
| "item_fmt (F_str _) = map of_char ''%s''"
| "item_fmt (F_sds _) = map of_char ''%S''"
| "item_fmt (F_int _) = map of_char ''%i''"
| "item_fmt (F_llong _) = map of_char ''%I''"
| "item_fmt (F_uint _) = map of_char ''%u''"
| "item_fmt (F_ullong _) = map of_char ''%U''"

fun item_args :: "fmt_item \<Rightarrow> fmt_arg list" where
  "item_args (F_char _) = []"
| "item_args (F_escaped _) = []"
| "item_args (F_str t) = [A_str t]"
| "item_args (F_sds t) = [A_sds t]"
| "item_args (F_int n) = [A_int n]"
| "item_args (F_llong n) = [A_llong n]"
| "item_args (F_uint n) = [A_uint n]"
| "item_args (F_ullong n) = [A_ullong n]"

fun item_text :: "fmt_item \<Rightarrow> byte list" where
  "item_text (F_char c) = [c]"
| "item_text (F_escaped c) = [c]"
| "item_text (F_str t) = t"
| "item_text (F_sds t) = sds_val t"
| "item_text (F_int n) = dec_int (sint n)"
| "item_text (F_llong n) = dec_int (sint n)"
| "item_text (F_uint n) = dec_nat (unat n)"
| "item_text (F_ullong n) = dec_nat (unat n)"

definition items_fmt :: "fmt_item list \<Rightarrow> byte list" where "items_fmt its = concat (map item_fmt its)"
definition items_args :: "fmt_item list \<Rightarrow> fmt_arg list" where "items_args its = concat (map item_args its)"
definition items_text :: "fmt_item list \<Rightarrow> byte list" where "items_text its = concat (map item_text its)"

lemma items_simps [simp]:
  "items_fmt [] = []" "items_fmt (it # its) = item_fmt it @ items_fmt its" "items_fmt (its @ its') = items_fmt its @ items_fmt its'"
  "items_args [] = []" "items_args (it # its) = item_args it @ items_args its" "items_args (its @ its') = items_args its @ items_args its'"
  "items_text [] = []" "items_text (it # its) = item_text it @ items_text its" "items_text (its @ its') = items_text its @ items_text its'"
  by (simp_all add: items_fmt_def items_args_def items_text_def)

lemma fmt_chars: "map of_char ''sSiIuU'' = [115, 83, 105, 73, 117, 85 :: byte]" "of_char CHR ''%'' = (37 :: byte)"
  by (simp_all add: of_char_def)

lemma item_fmt_nonzero: "item_ok it \<Longrightarrow> 0 \<notin> set (item_fmt it)"
  by (cases it) (auto simp: of_char_def)

lemma items_fmt_nonzero: "list_all item_ok its \<Longrightarrow> 0 \<notin> set (items_fmt its)"
  using item_fmt_nonzero by (induction its) auto

text \<open>What a directive prints.\<close>

lemma sint_int64_32: "is_int64 (sint n)" for n :: "32 word"
  using sint_ge [of n] sint_lt [of n] by (simp add: is_int64_def c_limits)

lemma sint_int64_64: "is_int64 (sint n)" for n :: "64 word"
  using sint_ge [of n] sint_lt [of n] by (simp add: is_int64_def c_limits)

lemmas sint_int64 = sint_int64_32 sint_int64_64

lemma fmt_text_item:
  assumes "item_ok it" "item_fmt it = [37, c]" "item_args it = [arg]"
  shows "is_conv c \<and> fmt_text c arg = Some (item_text it)"
proof (cases it)
  case (F_str t)
  then have "takeWhile (\<lambda>c. c \<noteq> 0) t = t" using assms(1) by (auto simp: takeWhile_eq_all_conv)
  then have "strlen t = length t" by (simp only: strlen_def)
  then show ?thesis using assms F_str by (auto simp: fmt_text_def is_conv_def of_char_def)
next
  case (F_sds t)
  then show ?thesis using assms sds_okD(4) [of t]
    by (auto simp: fmt_text_def is_conv_def of_char_def sds_get_def get_bytes_def sds_val_def)
qed (use assms in \<open>auto simp: fmt_text_def is_conv_def of_char_def sdsll2str_correct sint_int64 sdsull2str_correct unsigned_ucast_eq take_bit_nat_eq_self\<close>)

lemma sdsinclen_wide:
  assumes "sds_hdr_ok s" "sdstype s \<noteq> SDS_TYPE_5"
  shows "sdsinclen s n = sdssetlen s (sdslen s + n)"
  using sds_types [OF sds_hdrD(1) [OF assms(1)]] assms(2) wide_fields [OF sds_hdrD(1) [OF assms(1)] assms(2)]
  by (auto simp: sdsinclen_def sdssetlen_def)

lemma put_inclen:
  assumes ok: "sds_hdr_ok s" "sdstype s \<noteq> SDS_TYPE_5" and room: "sdslen s + length t \<le> sdsalloc s"
  shows "\<exists>s'. do { s1 \<leftarrow> sds_put s (sdslen s) t; Some (sdsinclen s1 (length t)) } = Some s' \<and>
    sds_hdr_ok s' \<and> sdstype s' \<noteq> SDS_TYPE_5 \<and> sds_val s' = sds_val s @ t \<and> sdslen s' = sdslen s + length t"
proof -
  define b n where "b = put_bytes (sds_buf s) (sdslen s) t" and "n = sdslen s + length t"
  have l: "n \<le> sdsalloc s" "n < length (sds_buf s)" using room sds_hdrD(3) [OF ok(1)] by (simp_all add: n_def)
  have b: "length b = length (sds_buf s)" "take n b = sds_val s @ t"
    using l(2) by (simp_all add: b_def n_def put_bytes_def sds_val_def)
  define s1 where "s1 = s\<lparr>sds_buf := b\<rparr>"
  have v1: "sdstype s1 = sdstype s" "sdslen s1 = sdslen s" "sdsalloc s1 = sdsalloc s" "sds_buf s1 = b"
    by (simp_all add: s1_def sds_view)
  have ok1: "sds_hdr_ok s1" using ok(1) b(1) by (simp add: sds_hdr_ok_def v1)
  have "n \<le> sdsTypeMaxSize (sdstype s1)" "sdstype s1 \<le> SDS_TYPE_64" using l(1) ok1 by (auto simp: sds_hdr_ok_def v1)
  note view = sdssetlen_view [OF this(2,1)]
  have "sds_hdr_ok (sdssetlen s1 n)"
    using ok1 ok(2) l by (simp add: sds_hdr_ok_def view v1)
  moreover have "sds_val (sdssetlen s1 n) = sds_val s @ t" using b(2) by (simp add: sds_val_def view v1)
  moreover have "do { s1 \<leftarrow> sds_put s (sdslen s) t; Some (sdsinclen s1 (length t)) } = Some (sdssetlen s1 n)"
    using l(2) sdsinclen_wide [OF ok1, of "length t"] ok(2) v1 by (simp add: sds_put_def b_def s1_def n_def)
  ultimately show ?thesis using ok(2) view v1 by (auto simp: n_def)
qed

context lawful_mem
begin

lemma avail_step:
  assumes "sds_hdr_ok s" "sdslen s + 1 \<le> 2 ^ 60"
  shows "\<exists>s'. (if sdsavail s = 0 then sdsMakeRoomFor M s 1 else Some s) = Some s' \<and> sds_hdr_ok s' \<and>
    sds_val s' = sds_val s \<and> sdslen s' = sdslen s \<and> sdslen s + 1 \<le> sdsalloc s' \<and> sdstype s' \<noteq> SDS_TYPE_5"
proof -
  have five: "sdstype s' \<noteq> SDS_TYPE_5" if "sdslen s' + 1 \<le> sdsalloc s'" for s'
    using that by (auto simp: sdsalloc_def sdslen_def)
  show ?thesis
  proof (cases "sdsavail s = 0")
    case True
    then show ?thesis using makeRoom_hdr [OF assms] five by auto
  next
    case False
    then have "sdslen s + 1 \<le> sdsalloc s" using sdsavail_eq [OF assms(1)] by simp
    then show ?thesis using False assms(1) five by simp
  qed
qed

lemma fmtCopy_correct:
  assumes "sds_hdr_ok s" "sdstype s \<noteq> SDS_TYPE_5" "sdslen s + length t \<le> 2 ^ 60"
  shows "\<exists>s'. fmtCopy M s (sdslen s) t = Some s' \<and> sds_hdr_ok s' \<and> sds_val s' = sds_val s @ t \<and>
    sdslen s' = sdslen s + length t"
proof -
  obtain s1 where s1: "(if sdsavail s < length t then sdsMakeRoomFor M s (length t) else Some s) = Some s1"
    "sds_hdr_ok s1" "sds_val s1 = sds_val s" "sdslen s1 = sdslen s" "sdslen s + length t \<le> sdsalloc s1" "sdstype s1 \<noteq> SDS_TYPE_5"
  proof (cases "sdsavail s < length t")
    case True
    obtain s1 where "sdsMakeRoomFor M s (length t) = Some s1" "sds_hdr_ok s1" "sds_val s1 = sds_val s"
      "sdslen s1 = sdslen s" "sdslen s + length t \<le> sdsalloc s1"
      using makeRoom_hdr [OF assms(1,3)] by blast
    moreover from this have "sdstype s1 \<noteq> SDS_TYPE_5" using True by (auto simp: sdsalloc_def sdslen_def)
    ultimately show ?thesis using that True by simp
  next
    case False
    then have "sdslen s + length t \<le> sdsalloc s"
      using sdsavail_eq [OF assms(1)] sds_hdrD(2) [OF assms(1)] by simp
    then show ?thesis using that False assms(1,2) by simp
  qed
  have "fmtCopy M s (sdslen s) t = do { s' \<leftarrow> sds_put s1 (sdslen s1) t; Some (sdsinclen s' (length t)) }"
    unfolding fmtCopy_def Let_def s1(1) by (simp add: s1(4))
  then show ?thesis using put_inclen [OF s1(2,6), of t] s1(3-5) by auto
qed

text \<open>One round of the loop for each item; a character behind a percent sign may even be the terminator.\<close>

lemma item_round:
  assumes "item_ok it \<or> it = F_escaped 0" "sds_hdr_ok s" "sdslen s + length (item_text it) + 1 \<le> 2 ^ 60"
  shows "\<exists>s'. catfmtLoop M s (item_fmt it @ f) (item_args it @ args) (sdslen s) = catfmtLoop M s' f args (sdslen s') \<and>
    sds_hdr_ok s' \<and> sds_val s' = sds_val s @ item_text it \<and> sdslen s' = sdslen s + length (item_text it)"
proof -
  obtain s1 where s1: "(if sdsavail s = 0 then sdsMakeRoomFor M s 1 else Some s) = Some s1" "sds_hdr_ok s1"
    "sds_val s1 = sds_val s" "sdslen s1 = sdslen s" "sdslen s + 1 \<le> sdsalloc s1" "sdstype s1 \<noteq> SDS_TYPE_5"
    using avail_step [OF assms(2)] assms(3) by auto
  have one: "\<exists>p. sds_put s1 (sdslen s) [c] = Some p \<and> sds_hdr_ok (sdsinclen p 1) \<and>
      sds_val (sdsinclen p 1) = sds_val s @ [c] \<and> sdslen (sdsinclen p 1) = sdslen s + 1" for c
    using put_inclen [OF s1(2,6), of "[c]"] s1(3-5) by (cases "sds_put s1 (sdslen s) [c]") auto
  show ?thesis
  proof (cases "item_args it = []")
    case True
    then obtain c where it: "it = F_char c \<and> c \<noteq> 0 \<and> c \<noteq> 37 \<or> it = F_escaped c \<and> \<not> is_conv c"
      using assms(1) by (cases it) (auto simp: fmt_chars is_conv_def)
    obtain p where p: "sds_put s1 (sdslen s) [c] = Some p" "sds_hdr_ok (sdsinclen p 1)"
      "sds_val (sdsinclen p 1) = sds_val s @ [c]" "sdslen (sdsinclen p 1) = sdslen s + 1" using one by blast
    have "catfmtLoop M s (item_fmt it @ f) (item_args it @ args) (sdslen s) =
        catfmtLoop M (sdsinclen p 1) f args (sdslen (sdsinclen p 1))"
      using it s1(1) p(1,4) by (auto simp: fmt_chars)
    then show ?thesis using it p(2-4) by (intro exI [of _ "sdsinclen p 1"]) auto
  next
    case False
    then obtain c arg where c: "item_fmt it = [37, c]" "item_args it = [arg]" by (cases it) (auto simp: of_char_def)
    have ok: "item_ok it" using assms(1) False by auto
    note t = fmt_text_item [OF ok c]
    obtain s2 where s2: "fmtCopy M s1 (sdslen s) (item_text it) = Some s2" "sds_hdr_ok s2" "sds_val s2 = sds_val s @ item_text it"
      "sdslen s2 = sdslen s + length (item_text it)"
      using fmtCopy_correct [OF s1(2,6), of "item_text it"] s1(3,4) assms(3) by auto
    have "catfmtLoop M s (item_fmt it @ f) (item_args it @ args) (sdslen s) = catfmtLoop M s2 f args (sdslen s2)"
      using c t s1(1) s2(1,4) by simp
    then show ?thesis using s2(2-4) by blast
  qed
qed

lemma items_rounds:
  assumes "\<forall>it \<in> set its. item_ok it \<or> it = F_escaped 0" "sds_hdr_ok s" "sdslen s + length (items_text its) + 1 \<le> 2 ^ 60"
  shows "\<exists>s'. catfmtLoop M s (items_fmt its @ f) (items_args its @ args) (sdslen s) = catfmtLoop M s' f args (sdslen s') \<and>
    sds_hdr_ok s' \<and> sds_val s' = sds_val s @ items_text its"
  using assms
proof (induction its arbitrary: s)
  case (Cons it its)
  obtain s1 where s1: "catfmtLoop M s (item_fmt it @ items_fmt its @ f) (item_args it @ items_args its @ args) (sdslen s) =
      catfmtLoop M s1 (items_fmt its @ f) (items_args its @ args) (sdslen s1)" "sds_hdr_ok s1"
    "sds_val s1 = sds_val s @ item_text it" "sdslen s1 = sdslen s + length (item_text it)"
    using item_round [of it s "items_fmt its @ f" "items_args its @ args"] Cons.prems by auto
  then show ?case using Cons.IH [of s1] Cons.prems by auto
qed auto

lemma catfmt_items:
  assumes "sds_ok s" "\<forall>it \<in> set its. item_ok it \<or> it = F_escaped 0"
    "sdslen s + 2 * length (items_fmt its) \<le> 2 ^ 60" "sdslen s + length (items_text its) + 1 \<le> 2 ^ 60"
  shows "\<exists>s'. sdscatfmt M s (items_fmt its @ 0 # rest) (items_args its) = Some s' \<and> sds_ok s' \<and> sds_val s' = sds_val s @ items_text its"
proof -
  let ?fmt = "items_fmt its @ 0 # rest"
  have "strlen ?fmt \<le> length (items_fmt its)" by (simp add: strlen_def takeWhile_append length_takeWhile_le)
  then obtain s1 where s1: "sdsMakeRoomFor M s (strlen ?fmt * 2) = Some s1" "sds_ok s1" "sds_val s1 = sds_val s"
    "sdslen s1 = sdslen s"
    using makeRoom_correct [OF assms(1), of "strlen ?fmt * 2"] assms(3) by auto
  obtain s2 where s2: "catfmtLoop M s1 ?fmt (items_args its) (sdslen s) = Some (s2, sdslen s2)" "sds_hdr_ok s2"
    "sds_val s2 = sds_val s @ items_text its"
    using items_rounds [OF assms(2) sds_ok_hdr [OF s1(2)], of "0 # rest" "[]"] s1(3,4) assms(4) by auto
  have n: "sdslen s2 < length (sds_buf s2)" by (rule sds_hdrD(4) [OF s2(2)])
  define s3 where "s3 = s2\<lparr>sds_buf := put_bytes (sds_buf s2) (sdslen s2) [0]\<rparr>"
  have "sdscatfmt M s ?fmt (items_args its) = Some s3"
    using n by (simp add: sdscatfmt_def Let_def s1(1) s2(1) sds_put_def s3_def)
  moreover have "sds_ok s3" "sds_val s3 = sds_val s2"
    using s2(2) n by (simp_all add: sds_ok_defs sds_val_def s3_def sds_view take_put_end)
  ultimately show ?thesis using s2(3) by simp
qed

end

text \<open>The loop leaves the memory of a format that ends in a lone percent sign.\<close>

lemma catfmtLoop_percent: "list_all item_ok its \<Longrightarrow> catfmtLoop M s (items_fmt its @ [37, 0]) args i = None"
proof (induction its arbitrary: s args i)
  case Nil
  then show ?case by (simp add: is_conv_def bind_eq_None_conv)
next
  case (Cons it its)
  then have IH: "catfmtLoop M s (items_fmt its @ [37, 0]) args i = None" for s args i by simp
  obtain c where "item_fmt it = [c] \<and> c \<noteq> 37 \<or> item_fmt it = [37, c]" using Cons.prems by (cases it) (auto simp: fmt_chars of_char_def)
  moreover have "c \<noteq> 0" using item_fmt_nonzero [of it] Cons.prems calculation by auto
  ultimately show ?case by (auto simp: IH bind_eq_None_conv split: list.split)
qed

text \<open>
  C14: \<^verbatim>\<open>sdscatfmt\<close> appends what its format asks for, through any number of reallocations: plain
  characters as they are, a character behind a percent sign that is no directive without the sign, C strings
  and dynamic strings with their bytes, and integers of each of the four types as their decimal numerals.  The
  format and the result are at most $2^{60}$ bytes together with the string.
\<close>

theorem sdscatfmt_prints:
  assumes "lawful_mem M" "sds_ok s" "list_all item_ok its"
    "sdslen s + 2 * length (items_fmt its) \<le> 2 ^ 60" "sdslen s + length (items_text its) + 1 \<le> 2 ^ 60"
  shows "\<exists>s'. sdscatfmt M s (items_fmt its @ 0 # rest) (items_args its) = Some s' \<and> sds_ok s' \<and>
    sds_val s' = sds_val s @ items_text its"
  using assms by (intro lawful_mem.catfmt_items) (auto simp: list_all_iff)

theorem sdscatfmt_prints_witness:
  "\<exists>s'. sdscatfmt round16_mem ex_sds [37, 105, 33, 0] [A_int (-42)] = Some s' \<and> sds_ok s' \<and>
    sds_val s' = sds_val ex_sds @ [45, 52, 50, 33]"
proof -
  have "items_fmt [F_int (-42), F_char 33] = [37, 105, 33]" "items_args [F_int (-42), F_char 33] = [A_int (-42)]"
    by (simp_all add: of_char_def)
  moreover have "items_text [F_int (-42), F_char 33] = [45, 52, 50, 33]"
    by (simp add: dec_int_def dec_nat.simps)
  ultimately show ?thesis
    using sdscatfmt_prints [OF round16.lawful_mem_axioms ex_sds_ok(1), of "[F_int (-42), F_char 33]" "[]"]
    by (simp add: ex_sds_ok(2) fmt_chars)
qed

text \<open>
  C33: a format that ends in a lone percent sign sends \<^verbatim>\<open>sdscatfmt\<close> past its terminator.  If memory ends there,
  it reads outside; if a string follows, the zero byte is copied to the output and the following bytes are
  taken as the rest of the format.  Sizes are bounded by $2^{60}$ as above.
\<close>

theorem sdscatfmt_percent:
  assumes "lawful_mem M" "sds_ok s" "list_all item_ok its" "list_all item_ok behind"
    "sdslen s + 2 * (length (items_fmt its) + length (items_fmt behind) + 2) \<le> 2 ^ 60"
    "sdslen s + length (items_text its) + length (items_text behind) + 2 \<le> 2 ^ 60"
  shows "sdscatfmt M s (items_fmt its @ [37, 0]) args = None \<and>
    (\<exists>s'. sdscatfmt M s (items_fmt its @ [37, 0] @ items_fmt behind @ 0 # rest) (items_args its @ items_args behind) = Some s' \<and>
      sds_ok s' \<and> sds_val s' = sds_val s @ items_text its @ [0] @ items_text behind)"
proof
  show "sdscatfmt M s (items_fmt its @ [37, 0]) args = None"
    using catfmtLoop_percent [OF assms(3)] by (simp add: sdscatfmt_def Let_def bind_eq_None_conv)
  let ?its = "its @ [F_escaped 0] @ behind"
  have "\<forall>it \<in> set ?its. item_ok it \<or> it = F_escaped 0" using assms(3,4) by (auto simp: list_all_iff)
  from lawful_mem.catfmt_items [OF assms(1,2) this, of rest]
  show "\<exists>s'. sdscatfmt M s (items_fmt its @ [37, 0] @ items_fmt behind @ 0 # rest) (items_args its @ items_args behind) = Some s' \<and>
      sds_ok s' \<and> sds_val s' = sds_val s @ items_text its @ [0] @ items_text behind"
    using assms(5,6) by (simp add: fmt_chars)
qed

theorem sdscatfmt_percent_witness:
  "sdscatfmt round16_mem ex_sds [53, 37, 0] [] = None \<and>
    (\<exists>s'. sdscatfmt round16_mem ex_sds [53, 37, 0, 33, 0] [] = Some s' \<and> sds_ok s' \<and> sds_val s' = sds_val ex_sds @ [53, 0, 33])"
  using sdscatfmt_percent [OF round16.lawful_mem_axioms ex_sds_ok(1), of "[F_char 53]" "[F_char 33]" "[]" "[]"]
  by (simp add: ex_sds_ok(2) fmt_chars)

text \<open>
  C34: \<^verbatim>\<open>sdsfromlonglong\<close> gives the decimal numeral of every 64 bit integer, the smallest included, and
  \<^verbatim>\<open>string2ll\<close> reads it back.  The absolute value of the smallest one is taken in two's complement.
\<close>

theorem sdsfromlonglong_numeral:
  assumes "lawful_mem M" "is_int64 v"
  shows "\<exists>s. sdsfromlonglong M v = Some s \<and> sds_ok s \<and> sds_val s = dec_int v \<and> string2ll (sds_val s) = Some v"
proof -
  have "sdsll2str v = Some (dec_int v)" using sdsll2str_correct assms(2) by blast
  moreover have "length (dec_int v) \<le> 2 ^ 60" using dec_int_short [OF assms(2)] by simp
  ultimately show ?thesis
    using lawful_mem.new_correct [OF assms(1), of "length (dec_int v)" "dec_int v"] assms(2)
    by (auto simp: sdsfromlonglong_def string2ll_iff)
qed

theorem sdsfromlonglong_numeral_witness:
  "\<exists>s. sdsfromlonglong round16_mem LLONG_MIN = Some s \<and> sds_ok s \<and> sds_val s = dec_int LLONG_MIN \<and>
    string2ll (sds_val s) = Some LLONG_MIN"
  using sdsfromlonglong_numeral [OF round16.lawful_mem_axioms, of LLONG_MIN] by (simp add: is_int64_def c_limits)

section \<open>Templates\<close>

lemma tl_dropWhile_shorter: "length (dropWhile P p) - Suc 0 < Suc (length p)"
  using length_dropWhile_le [of P p] by linarith

text \<open>The meaning of a template, character by character, for a callback on names.\<close>

function template_val :: "(byte list \<Rightarrow> byte list option) \<Rightarrow> byte list \<Rightarrow> byte list option" where
  "template_val cbv p =
     (case p of [] \<Rightarrow> Some []
      | c # p' \<Rightarrow>
          if c \<noteq> 123 then map_option (\<lambda>r. c # r) (template_val cbv p')
          else if p' = [] then None
          else if hd p' = 123 then map_option (\<lambda>r. 123 # r) (template_val cbv (tl p'))
          else let ev = dropWhile (\<lambda>c. c \<noteq> 125) p' in
            if ev = [] then None
            else (case cbv (takeWhile (\<lambda>c. c \<noteq> 125) p') of None \<Rightarrow> None
                  | Some t \<Rightarrow> map_option (\<lambda>r. t @ r) (template_val cbv (tl ev))))"
  by pat_completeness auto

termination by (relation "measure (\<lambda>(cbv, p). length p)") (auto intro: tl_dropWhile_shorter)

declare template_val.simps [simp del]

text \<open>The callback acts on the name and returns a string that is read up to its first zero byte.\<close>

definition cb_acts :: "(sds \<Rightarrow> sds option) \<Rightarrow> (byte list \<Rightarrow> byte list option) \<Rightarrow> bool" where
  "cb_acts cb cbv \<longleftrightarrow>
     (\<forall>s. sds_ok s \<longrightarrow>
       (case cbv (sds_val s) of None \<Rightarrow> cb s = None
        | Some t \<Rightarrow> (\<exists>v. cb s = Some v \<and> take (strlen (sds_buf v)) (sds_buf v) = t)))"

lemma template_prefix:
  "123 \<notin> set pre \<Longrightarrow> template_val cbv (pre @ q) = map_option (\<lambda>r. pre @ r) (template_val cbv q)"
proof (induction pre)
  case (Cons c pre)
  then show ?case 
    by (subst template_val.simps) (cases "template_val cbv q", auto)
next
  case Nil
  then show ?case by (cases "template_val cbv q") auto
qed

lemma take_strlen: "0 \<notin> set p \<Longrightarrow> take (strlen p) p = p"
proof -
  assume "0 \<notin> set p"
  then have "takeWhile (\<lambda>c. c \<noteq> 0) p = p" unfolding takeWhile_eq_all_conv by blast
  then show ?thesis unfolding strlen_def by (metis order_refl take_all)
qed

context lawful_mem
begin

lemma templateLoop_split:
  assumes "p = pre @ 123 # sv" "123 \<notin> set pre"
  shows "templateLoop M cb res p =
    do {
      res \<leftarrow> (if pre \<noteq> [] then sdscatlen M res pre else Some res);
      if sv = [] then None
      else if hd sv = 123 then do { res \<leftarrow> sdscat M res [123]; templateLoop M cb res (tl sv) }
      else if dropWhile (\<lambda>c. c \<noteq> 125) sv = [] then None
      else do {
        varname \<leftarrow> sdsnewlen M (Init_bytes sv) (length (takeWhile (\<lambda>c. c \<noteq> 125) sv));
        v \<leftarrow> cb varname;
        res \<leftarrow> sdscat M res (sds_buf v);
        templateLoop M cb res (tl (dropWhile (\<lambda>c. c \<noteq> 125) sv))
      }
    }"
proof -
  have "takeWhile (\<lambda>c. c \<noteq> 123) p = pre" "dropWhile (\<lambda>c. c \<noteq> 123) p = 123 # sv" "p \<noteq> []"
    using assms by (auto simp: takeWhile_tail dropWhile_append3 takeWhile_eq_all_conv)
  then show ?thesis by (subst templateLoop.simps) (simp only: Let_def list.distinct if_False list.sel)
qed

lemma templateLoop_Some:
  assumes "cb_acts cb cbv" "template_val cbv p = Some out" "0 \<notin> set p" "length p \<le> 2 ^ 60"
    "sds_ok res" "sdslen res + length out \<le> 2 ^ 60"
  shows "\<exists>s. templateLoop M cb res p = Some s \<and> sds_ok s \<and> sds_val s = sds_val res @ out"
  using assms(2-)
proof (induction "length p" arbitrary: p out res rule: less_induct)
  case less
  show ?case
  proof (cases "123 \<in> set p")
    case False
    then have "out = p" using less.prems(1) template_prefix [of p cbv "[]"] by (simp add: template_val.simps)
    moreover have "dropWhile (\<lambda>c. c \<noteq> 123) p = []" using False by auto
    ultimately show ?thesis
      using catlen_correct [OF less.prems(4), of p] less.prems(2,4,5) take_strlen [of p]
      by (subst templateLoop.simps) (auto simp: sdscat_def)
  next
    case True
    then obtain pre sv where p: "p = pre @ 123 # sv" "123 \<notin> set pre" by (metis split_list_first)
    obtain r where r: "template_val cbv (123 # sv) = Some r" "out = pre @ r"
      using less.prems(1) template_prefix [OF p(2), of cbv "123 # sv"] p(1) by auto
    obtain res1 where res1: "(if pre \<noteq> [] then sdscatlen M res pre else Some res) = Some res1" "sds_ok res1"
      "sds_val res1 = sds_val res @ pre"
      using catlen_correct [OF less.prems(4), of pre] less.prems(4,5) r(2) by (cases "pre = []") auto
    have l1: "sdslen res1 = sdslen res + length pre"
      using sds_okD(6) [OF res1(2)] sds_okD(6) [OF less.prems(4)] res1(3) by simp
    have sv: "sv \<noteq> []" using r(1) by (auto simp: template_val.simps [of cbv "[123]"])
    note tv = template_val.simps [of cbv "123 # sv"]
    show ?thesis
    proof (cases "hd sv = 123")
      case brace: True
      obtain r' where r': "template_val cbv (tl sv) = Some r'" "r = 123 # r'" using r(1) sv brace tv by auto
      obtain res2 where res2: "sdscat M res1 [123] = Some res2" "sds_ok res2" "sds_val res2 = sds_val res1 @ [123]"
        using catlen_correct [OF res1(2), of "[123]"] l1 less.prems(5) r(2) r'(2) by (auto simp: sdscat_def strlen_def)
      have l2: "sdslen res2 = sdslen res1 + 1"
        using sds_okD(6) [OF res1(2)] sds_okD(6) [OF res2(2)] res2(3) by simp
      have "templateLoop M cb res p = templateLoop M cb res2 (tl sv)"
        unfolding templateLoop_split [OF p] res1(1) using sv brace res2(1) by simp
      moreover have "length (tl sv) < length p" "0 \<notin> set (tl sv)" "length (tl sv) \<le> 2 ^ 60"
        using p(1) less.prems(2,3) list.set_sel(2) [OF sv] by auto
      ultimately show ?thesis
        using less.hyps [of "tl sv" r' res2] r'(1) res2(2,3) res1(3) l1 l2 less.prems(5) r(2) r'(2) by auto
    next
      case var: False
      define ev where "ev = dropWhile (\<lambda>c. c \<noteq> 125) sv"
      define name where "name = takeWhile (\<lambda>c. c \<noteq> 125) sv"
      have ev: "ev \<noteq> []" using r(1) sv var tv by (auto simp: ev_def Let_def split: if_splits)
      obtain t r' where t: "cbv name = Some t" "template_val cbv (tl ev) = Some r'" "r = t @ r'"
        using r(1) sv var tv ev unfolding ev_def name_def by (auto simp: Let_def split: option.splits if_splits)
      have ln: "length name \<le> length sv" "take (length name) sv = name" "length sv \<le> 2 ^ 60"
        using p(1) less.prems(3) length_takeWhile_le [of "\<lambda>c. c \<noteq> 125" sv]
        by (simp_all add: name_def flip: takeWhile_eq_take)
      obtain vn where vn: "sdsnewlen M (Init_bytes sv) (length name) = Some vn" "sds_ok vn" "sds_val vn = name"
        using new_correct [OF ln(1)] ln by auto
      obtain v where v: "cb vn = Some v" "take (strlen (sds_buf v)) (sds_buf v) = t"
        using assms(1) vn(2,3) t(1) unfolding cb_acts_def by fastforce
      obtain res2 where res2: "sdscat M res1 (sds_buf v) = Some res2" "sds_ok res2" "sds_val res2 = sds_val res1 @ t"
        using catlen_correct [OF res1(2), of t] l1 less.prems(5) r(2) t(3) by (auto simp: sdscat_def v(2))
      have l2: "sdslen res2 = sdslen res1 + length t"
        using sds_okD(6) [OF res1(2)] sds_okD(6) [OF res2(2)] res2(3) by simp
      have "templateLoop M cb res p = templateLoop M cb res2 (tl ev)"
        unfolding templateLoop_split [OF p] res1(1) using sv var ev vn(1) v(1) res2(1)
        by (simp add: name_def [symmetric] ev_def [symmetric])
      moreover have "length (tl ev) \<le> length sv" "set (tl ev) \<subseteq> set sv"
        unfolding ev_def using length_dropWhile_le [of "\<lambda>c. c \<noteq> 125" sv] set_dropWhileD list.set_sel(2)
        by (simp, metis (no_types, lifting) ev ev_def list.set_sel(2) set_dropWhileD subsetI)
      ultimately show ?thesis
        using less.hyps [of "tl ev" r' res2] t(2,3) res2(2,3) res1(3) l1 l2 less.prems(2,3,5) r(2) p(1) by auto
    qed
  qed
qed

end

text \<open>
  C32: \<^verbatim>\<open>sdstemplate\<close> expands a template as its meaning says: text outside braces verbatim, two opening
  braces as one, a name in braces replaced by the string the callback gives for it.
\<close>

theorem sdstemplate_expands:
  assumes "lawful_mem M" "cb_acts cb cbv" "template_val cbv (take (strlen template) template) = Some out"
    "strlen template \<le> 2 ^ 60" "length out \<le> 2 ^ 60"
  shows "\<exists>s. sdstemplate M template cb = Some s \<and> sds_ok s \<and> sds_val s = out"
proof -
  obtain e where e: "sdsempty M = Some e" "sds_ok e" "sds_val e = []"
    using lawful_mem.new_correct [OF assms(1), of 0 "[]"] by (auto simp: sdsempty_def)
  have "0 \<notin> set (take (strlen template) template)"
    by (auto simp: strlen_def simp flip: takeWhile_eq_take dest: set_takeWhileD)
  moreover have "sdslen e = 0" using sds_okD(6) [OF e(2)] e(3) by simp
  ultimately show ?thesis
    using lawful_mem.templateLoop_Some [OF assms(1-3) _ _ e(2)] assms(4,5) e by (simp add: sdstemplate_def)
qed

definition ex_cb :: "sds \<Rightarrow> sds option" where
  "ex_cb s = (if sds_val s = [120] then Some ex_sds else None)"

theorem sdstemplate_expands_witness:
  "\<exists>s. sdstemplate round16_mem [97, 123, 120, 125, 123, 123] ex_cb = Some s \<and> sds_ok s \<and>
     sds_val s = 97 # take (strlen (sds_buf ex_sds)) (sds_buf ex_sds) @ [123]"
proof (rule sdstemplate_expands [OF round16.lawful_mem_axioms])
  show "cb_acts ex_cb (\<lambda>n. if n = [120] then Some (take (strlen (sds_buf ex_sds)) (sds_buf ex_sds)) else None)"
    by (simp add: cb_acts_def ex_cb_def)
qed (simp_all add: strlen_def template_val.simps ex_sds_def)

end
