(* ===== verification/Zmalloc.thy ===== *)
theory Zmalloc
  imports Redis_Prelude "HOL-Library.Monad_Syntax"
begin

text \<open>
  The allocation layer of \<^verbatim>\<open>src/zmalloc.c\<close>, in both of its configurations: on top of an allocator
  that reports the size of a block (\<^verbatim>\<open>HAVE_MALLOC_SIZE\<close>), and with the size of a block kept in
  a prefix of the block itself.  The allocator of the C library is a parameter; the locale
  \<open>lawful_libc\<close> lists what its documentation promises.  The theorems show that the counter
  \<^verbatim>\<open>used_memory\<close> is at all times the total size of the blocks that are in use, and that
  \<^verbatim>\<open>zrealloc\<close> keeps the contents of the block it resizes and every other block.
\<close>

section \<open>The allocator below\<close>

text \<open>The memory handed out by the C library: the bytes of every block by its address.\<close>

type_synonym heap = "nat \<rightharpoonup> byte list"

text \<open>
  The platform: which configuration is compiled, and \<^verbatim>\<open>malloc\<close>, \<^verbatim>\<open>calloc\<close> and \<^verbatim>\<open>realloc\<close>, which
  give the address and the initial bytes of the block, or fail.
\<close>

record platform =
  have_malloc_size :: bool
  lc_malloc :: "heap \<Rightarrow> uint64 \<Rightarrow> (nat \<times> byte list) option"
  lc_calloc :: "heap \<Rightarrow> uint64 \<Rightarrow> (nat \<times> byte list) option"
  lc_realloc :: "heap \<Rightarrow> nat \<Rightarrow> uint64 \<Rightarrow> (nat \<times> byte list) option"

record zstate =
  zheap :: heap
  used_memory :: uint64

definition PREFIX_SIZE :: "platform \<Rightarrow> uint64" where
  "PREFIX_SIZE P = (if have_malloc_size P then 0 else 8)"

definition ASSERT_NO_SIZE_OVERFLOW :: "platform \<Rightarrow> uint64 \<Rightarrow> bool" where
  "ASSERT_NO_SIZE_OVERFLOW P sz \<longleftrightarrow> have_malloc_size P \<or> sz + PREFIX_SIZE P > sz"

definition MALLOC_MIN_SIZE :: "uint64 \<Rightarrow> uint64" where
  "MALLOC_MIN_SIZE x = (if x > 0 then x else 8)"

definition update_zmalloc_stat_alloc :: "uint64 \<Rightarrow> zstate \<Rightarrow> zstate" where
  "update_zmalloc_stat_alloc n s = s\<lparr>used_memory := used_memory s + n\<rparr>"

definition update_zmalloc_stat_free :: "uint64 \<Rightarrow> zstate \<Rightarrow> zstate" where
  "update_zmalloc_stat_free n s = s\<lparr>used_memory := used_memory s - n\<rparr>"

text \<open>Reading and writing the size that is kept in front of a block.\<close>

definition load_size :: "zstate \<Rightarrow> nat \<Rightarrow> uint64 option" where
  "load_size s realptr =
     do { bs \<leftarrow> zheap s realptr;
          if 8 \<le> length bs then Some (word_of_int (le_uint (get_bytes bs 0 8))) else None }"

definition store_size :: "zstate \<Rightarrow> nat \<Rightarrow> uint64 \<Rightarrow> zstate option" where
  "store_size s realptr sz =
     do { bs \<leftarrow> zheap s realptr;
          if 8 \<le> length bs
          then Some (s\<lparr>zheap := (zheap s)(realptr \<mapsto> put_bytes bs 0 (le_bytes 8 (uint sz)))\<rparr>) else None }"

section \<open>The operations\<close>

text \<open>
  Every operation returns the new state, the pointer, and what it stores through
  \<^verbatim>\<open>usable\<close>, if anything; no result at all is a failed assertion, an abort or an access
  outside a block.
\<close>

definition zmalloc_size :: "platform \<Rightarrow> zstate \<Rightarrow> nat \<Rightarrow> uint64 option" where
  "zmalloc_size P s ptr =
     (if have_malloc_size P then map_option (\<lambda>bs. of_nat (length bs)) (zheap s ptr)
      else if ptr < 8 then None
      else do { sz \<leftarrow> load_size s (ptr - 8); Some (sz + PREFIX_SIZE P) })"

definition zmalloc_usable_size :: "platform \<Rightarrow> zstate \<Rightarrow> nat \<Rightarrow> uint64 option" where
  "zmalloc_usable_size P s ptr = map_option (\<lambda>sz. sz - PREFIX_SIZE P) (zmalloc_size P s ptr)"

text \<open>What \<^verbatim>\<open>ztrymalloc_usable\<close> and \<^verbatim>\<open>ztrycalloc_usable\<close> do with the block they got.\<close>

definition account_block :: "platform \<Rightarrow> zstate \<Rightarrow> nat \<Rightarrow> uint64 \<Rightarrow> (zstate \<times> nat option \<times> uint64 option) option" where
  "account_block P s ptr sz =
     (if have_malloc_size P then
        do {
          sz \<leftarrow> zmalloc_size P s ptr;
          Some (update_zmalloc_stat_alloc sz s, Some ptr, Some sz)
        }
      else
        do {
          s \<leftarrow> store_size s ptr sz;
          Some (update_zmalloc_stat_alloc (sz + PREFIX_SIZE P) s, Some (ptr + 8), Some sz)
        })"

definition ztrymalloc_usable :: "platform \<Rightarrow> zstate \<Rightarrow> uint64 \<Rightarrow> (zstate \<times> nat option \<times> uint64 option) option" where
  "ztrymalloc_usable P s sz =
     (if \<not> ASSERT_NO_SIZE_OVERFLOW P sz then None
      else case lc_malloc P (zheap s) (MALLOC_MIN_SIZE sz + PREFIX_SIZE P) of
        None \<Rightarrow> Some (s, None, None)
      | Some (ptr, bs) \<Rightarrow> account_block P (s\<lparr>zheap := (zheap s)(ptr \<mapsto> bs)\<rparr>) ptr sz)"

definition ztrycalloc_usable :: "platform \<Rightarrow> zstate \<Rightarrow> uint64 \<Rightarrow> (zstate \<times> nat option \<times> uint64 option) option" where
  "ztrycalloc_usable P s sz =
     (if \<not> ASSERT_NO_SIZE_OVERFLOW P sz then None
      else case lc_calloc P (zheap s) (MALLOC_MIN_SIZE sz + PREFIX_SIZE P) of
        None \<Rightarrow> Some (s, None, None)
      | Some (ptr, bs) \<Rightarrow> account_block P (s\<lparr>zheap := (zheap s)(ptr \<mapsto> bs)\<rparr>) ptr sz)"

text \<open>\<^verbatim>\<open>zfree_usable\<close>, and \<^verbatim>\<open>zfree\<close>, which differs from it in not reporting the size.\<close>

definition zfree_usable :: "platform \<Rightarrow> zstate \<Rightarrow> nat option \<Rightarrow> (zstate \<times> uint64 option) option" where
  "zfree_usable P s ptr =
     (case ptr of None \<Rightarrow> Some (s, None)
      | Some p \<Rightarrow>
          if have_malloc_size P then
            do {
              sz \<leftarrow> zmalloc_size P s p;
              let s = update_zmalloc_stat_free sz s;
              Some (s\<lparr>zheap := (zheap s)(p := None)\<rparr>, Some sz)
            }
          else if p < 8 then None
          else
            do {
              let realptr = p - 8;
              oldsize \<leftarrow> load_size s realptr;
              let s = update_zmalloc_stat_free (oldsize + PREFIX_SIZE P) s;
              Some (s\<lparr>zheap := (zheap s)(realptr := None)\<rparr>, Some oldsize)
            })"

definition zfree :: "platform \<Rightarrow> zstate \<Rightarrow> nat option \<Rightarrow> zstate option" where
  "zfree P s ptr =
     (case ptr of None \<Rightarrow> Some s
      | Some p \<Rightarrow>
          if have_malloc_size P then
            do {
              sz \<leftarrow> zmalloc_size P s p;
              let s = update_zmalloc_stat_free sz s;
              Some (s\<lparr>zheap := (zheap s)(p := None)\<rparr>)
            }
          else if p < 8 then None
          else
            do {
              let realptr = p - 8;
              oldsize \<leftarrow> load_size s realptr;
              let s = update_zmalloc_stat_free (oldsize + PREFIX_SIZE P) s;
              Some (s\<lparr>zheap := (zheap s)(realptr := None)\<rparr>)
            })"

text \<open>The block moves from \<open>old\<close> to \<open>new\<close>, which may be the same address.\<close>

definition move_block :: "zstate \<Rightarrow> nat \<Rightarrow> nat \<Rightarrow> byte list \<Rightarrow> zstate" where
  "move_block s old new bs = s\<lparr>zheap := (zheap s)(old := None, new \<mapsto> bs)\<rparr>"

definition ztryrealloc_usable ::
  "platform \<Rightarrow> zstate \<Rightarrow> nat option \<Rightarrow> uint64 \<Rightarrow> (zstate \<times> nat option \<times> uint64 option) option" where
  "ztryrealloc_usable P s ptr sz =
     (if \<not> ASSERT_NO_SIZE_OVERFLOW P sz then None
      else case ptr of
        None \<Rightarrow> ztrymalloc_usable P s sz
      | Some p \<Rightarrow>
          if sz = 0 then do { s \<leftarrow> zfree P s (Some p); Some (s, None, Some 0) }
          else if have_malloc_size P then
            do {
              oldsize \<leftarrow> zmalloc_size P s p;
              case lc_realloc P (zheap s) p sz of
                None \<Rightarrow> Some (s, None, Some 0)
              | Some (newptr, bs) \<Rightarrow>
                  do {
                    let s = update_zmalloc_stat_free oldsize (move_block s p newptr bs);
                    sz \<leftarrow> zmalloc_size P s newptr;
                    Some (update_zmalloc_stat_alloc sz s, Some newptr, Some sz)
                  }
            }
          else if p < 8 then None
          else
            do {
              let realptr = p - 8;
              oldsize \<leftarrow> load_size s realptr;
              case lc_realloc P (zheap s) realptr (sz + PREFIX_SIZE P) of
                None \<Rightarrow> Some (s, None, Some 0)
              | Some (newptr, bs) \<Rightarrow>
                  do {
                    s \<leftarrow> store_size (move_block s realptr newptr bs) newptr sz;
                    Some (update_zmalloc_stat_alloc sz (update_zmalloc_stat_free oldsize s), Some (newptr + 8), Some sz)
                  }
            })"

text \<open>
  The callers that cannot fail call the handler \<open>oom\<close>, which the default one
  ends by aborting.
\<close>

type_synonym oom_handler = "zstate \<Rightarrow> uint64 \<Rightarrow> zstate option"

definition zmalloc_default_oom :: oom_handler where
  "zmalloc_default_oom s sz = None"

definition zmalloc_usable :: "platform \<Rightarrow> oom_handler \<Rightarrow> zstate \<Rightarrow> uint64 \<Rightarrow> (zstate \<times> nat option \<times> uint64 option) option" where
  "zmalloc_usable P oom s sz =
     do {
       (s, ptr, usable) \<leftarrow> ztrymalloc_usable P s sz;
       s \<leftarrow> (if ptr = None then oom s sz else Some s);
       Some (s, ptr, usable)
     }"

definition zcalloc_usable :: "platform \<Rightarrow> oom_handler \<Rightarrow> zstate \<Rightarrow> uint64 \<Rightarrow> (zstate \<times> nat option \<times> uint64 option) option" where
  "zcalloc_usable P oom s sz =
     do {
       (s, ptr, usable) \<leftarrow> ztrycalloc_usable P s sz;
       s \<leftarrow> (if ptr = None then oom s sz else Some s);
       Some (s, ptr, usable)
     }"

definition zrealloc_usable ::
  "platform \<Rightarrow> oom_handler \<Rightarrow> zstate \<Rightarrow> nat option \<Rightarrow> uint64 \<Rightarrow> (zstate \<times> nat option \<times> uint64 option) option" where
  "zrealloc_usable P oom s ptr sz =
     do {
       (s, ptr, usable) \<leftarrow> ztryrealloc_usable P s ptr sz;
       s \<leftarrow> (if ptr = None \<and> sz \<noteq> 0 then oom s sz else Some s);
       Some (s, ptr, usable)
     }"

definition zmalloc :: "platform \<Rightarrow> oom_handler \<Rightarrow> zstate \<Rightarrow> uint64 \<Rightarrow> (zstate \<times> nat option) option" where
  "zmalloc P oom s sz =
     do {
       (s, ptr, _) \<leftarrow> ztrymalloc_usable P s sz;
       s \<leftarrow> (if ptr = None then oom s sz else Some s);
       Some (s, ptr)
     }"

definition zcalloc :: "platform \<Rightarrow> oom_handler \<Rightarrow> zstate \<Rightarrow> uint64 \<Rightarrow> (zstate \<times> nat option) option" where
  "zcalloc P oom s sz =
     do {
       (s, ptr, _) \<leftarrow> ztrycalloc_usable P s sz;
       s \<leftarrow> (if ptr = None then oom s sz else Some s);
       Some (s, ptr)
     }"

definition zrealloc :: "platform \<Rightarrow> oom_handler \<Rightarrow> zstate \<Rightarrow> nat option \<Rightarrow> uint64 \<Rightarrow> (zstate \<times> nat option) option" where
  "zrealloc P oom s ptr sz =
     do {
       (s, ptr, _) \<leftarrow> ztryrealloc_usable P s ptr sz;
       s \<leftarrow> (if ptr = None \<and> sz \<noteq> 0 then oom s sz else Some s);
       Some (s, ptr)
     }"

definition ztrymalloc :: "platform \<Rightarrow> zstate \<Rightarrow> uint64 \<Rightarrow> (zstate \<times> nat option) option" where
  "ztrymalloc P s sz = do { (s, ptr, _) \<leftarrow> ztrymalloc_usable P s sz; Some (s, ptr) }"

definition ztrycalloc :: "platform \<Rightarrow> zstate \<Rightarrow> uint64 \<Rightarrow> (zstate \<times> nat option) option" where
  "ztrycalloc P s sz = do { (s, ptr, _) \<leftarrow> ztrycalloc_usable P s sz; Some (s, ptr) }"

definition ztryrealloc :: "platform \<Rightarrow> zstate \<Rightarrow> nat option \<Rightarrow> uint64 \<Rightarrow> (zstate \<times> nat option) option" where
  "ztryrealloc P s ptr sz = do { (s, ptr, _) \<leftarrow> ztryrealloc_usable P s ptr sz; Some (s, ptr) }"

definition zmalloc_used_memory :: "zstate \<Rightarrow> uint64" where
  "zmalloc_used_memory s = used_memory s"

text \<open>A client writes bytes into its block, behind the prefix.\<close>

definition write_block :: "platform \<Rightarrow> zstate \<Rightarrow> nat \<Rightarrow> nat \<Rightarrow> byte list \<Rightarrow> zstate option" where
  "write_block P s p off new =
     (let pre = unat (PREFIX_SIZE P) in
      if p < pre then None
      else do {
        bs \<leftarrow> zheap s (p - pre);
        if pre + off + length new \<le> length bs
        then Some (s\<lparr>zheap := (zheap s)(p - pre \<mapsto> put_bytes bs (pre + off) new)\<rparr>) else None
      })"

text \<open>\<open>str\<close> is the string up to its terminator, which is copied as well.\<close>

definition zstrdup :: "platform \<Rightarrow> oom_handler \<Rightarrow> zstate \<Rightarrow> byte list \<Rightarrow> (zstate \<times> nat option) option" where
  "zstrdup P oom s str =
     do {
       let l = of_nat (length str) + 1;
       (s, p) \<leftarrow> zmalloc P oom s l;
       p \<leftarrow> p;
       s \<leftarrow> write_block P s p 0 (str @ [0]);
       Some (s, Some p)
     }"

section \<open>What the C library promises\<close>

text \<open>
  A block is new, lies inside the address space, has at least the size asked for, and
  resizing keeps the common part of the old contents.
\<close>

locale lawful_libc =
  fixes P :: platform
  assumes malloc_law: "lc_malloc P h n = Some (p, bs) \<Longrightarrow> p \<noteq> 0 \<and> p \<notin> dom h \<and> unat n \<le> length bs \<and> p + length bs < 2 ^ 64"
    and calloc_law: "lc_calloc P h n = Some (p, bs) \<Longrightarrow>
      p \<noteq> 0 \<and> p \<notin> dom h \<and> unat n \<le> length bs \<and> p + length bs < 2 ^ 64 \<and> take (unat n) bs = replicate (unat n) 0"
    and realloc_law: "h p = Some old \<Longrightarrow> lc_realloc P h p n = Some (q, bs) \<Longrightarrow>
      q \<noteq> 0 \<and> (q = p \<or> q \<notin> dom h) \<and> unat n \<le> length bs \<and> q + length bs < 2 ^ 64 \<and>
      take (min (unat n) (length old)) bs = take (min (unat n) (length old)) old"

section \<open>The blocks in use\<close>

definition real_ptr :: "platform \<Rightarrow> nat \<Rightarrow> nat" where
  "real_ptr P p = (if have_malloc_size P then p else p - 8)"

text \<open>The size that the bytes of a block stand for in the counter, and the bytes of the client.\<close>

definition block_size :: "platform \<Rightarrow> byte list \<Rightarrow> uint64" where
  "block_size P bs = (if have_malloc_size P then of_nat (length bs) else word_of_int (le_uint (get_bytes bs 0 8)) + 8)"

definition block_ok :: "platform \<Rightarrow> byte list \<Rightarrow> bool" where
  "block_ok P bs \<longleftrightarrow> length bs < 2 ^ 64 \<and>
     (have_malloc_size P \<or> 8 \<le> length bs \<and> le_uint (get_bytes bs 0 8) + 8 \<le> int (length bs))"

definition user_bytes :: "platform \<Rightarrow> zstate \<Rightarrow> nat \<Rightarrow> byte list" where
  "user_bytes P s p =
     (case zheap s (real_ptr P p) of None \<Rightarrow> [] | Some bs \<Rightarrow> if have_malloc_size P then bs else drop 8 bs)"

definition owned_block :: "platform \<Rightarrow> zstate \<Rightarrow> nat \<Rightarrow> bool" where
  "owned_block P s p \<longleftrightarrow> p \<noteq> 0 \<and> (have_malloc_size P \<or> 8 \<le> p) \<and>
     (\<exists>bs. zheap s (real_ptr P p) = Some bs \<and> block_ok P bs)"

definition z_ok :: "platform \<Rightarrow> zstate \<Rightarrow> nat set \<Rightarrow> bool" where
  "z_ok P s Z \<longleftrightarrow> finite Z \<and> (\<forall>p \<in> Z. owned_block P s p) \<and>
     used_memory s = (\<Sum>p \<in> Z. block_size P (the (zheap s (real_ptr P p))))"

lemma owned_size:
  "owned_block P s p \<Longrightarrow> zmalloc_size P s p = Some (block_size P (the (zheap s (real_ptr P p))))"
  by (auto simp: owned_block_def zmalloc_size_def load_size_def real_ptr_def block_size_def block_ok_def PREFIX_SIZE_def)

lemma stored_size:
  "8 \<le> length bs \<Longrightarrow> le_uint (get_bytes (put_bytes bs 0 (le_bytes 8 (uint (sz :: uint64)))) 0 8) = uint sz"
  using uint_lt2p [of sz] by (simp add: le_uint_le_bytes)

lemma sum_insert_word:
  "finite Z \<Longrightarrow> p \<notin> Z \<Longrightarrow> (\<And>x. x \<in> Z \<Longrightarrow> f x = g x) \<Longrightarrow> (\<Sum>x \<in> insert p Z. f x) = (\<Sum>x \<in> Z. g x) + (f p :: uint64)"
  by (simp add: add.commute)

lemma real_ptr_inj: "owned_block P s p \<Longrightarrow> owned_block P s' q \<Longrightarrow> real_ptr P p = real_ptr P q \<longleftrightarrow> p = q"
  by (auto simp: owned_block_def real_ptr_def split: if_splits)

text \<open>A state that differs from \<open>s\<close> at one new block only.\<close>

lemma z_ok_insert:
  assumes "z_ok P s Z" "p \<notin> Z" "owned_block P s' p"
    "\<And>x. x \<in> Z \<Longrightarrow> zheap s' (real_ptr P x) = zheap s (real_ptr P x)"
    "used_memory s' = used_memory s + block_size P (the (zheap s' (real_ptr P p)))"
  shows "z_ok P s' (insert p Z)"
  unfolding z_ok_def
proof (intro conjI ballI)
  show "owned_block P s' x" if "x \<in> insert p Z" for x
    using that assms(1,3,4) by (auto simp: z_ok_def owned_block_def)
  show "used_memory s' = (\<Sum>x \<in> insert p Z. block_size P (the (zheap s' (real_ptr P x))))"
    using sum_insert_word [of Z p "\<lambda>x. block_size P (the (zheap s' (real_ptr P x)))"
        "\<lambda>x. block_size P (the (zheap s (real_ptr P x)))"] assms by (simp add: z_ok_def)
qed (use assms(1) in \<open>simp add: z_ok_def\<close>)

lemma z_ok_remove:
  assumes "z_ok P s Z" "p \<in> Z"
    "\<And>x. x \<in> Z - {p} \<Longrightarrow> zheap s' (real_ptr P x) = zheap s (real_ptr P x)"
    "used_memory s' = used_memory s - block_size P (the (zheap s (real_ptr P p)))"
  shows "z_ok P s' (Z - {p})"
  unfolding z_ok_def
proof (intro conjI ballI)
  show "owned_block P s' x" if "x \<in> Z - {p}" for x
    using that assms(1,3) by (auto simp: z_ok_def owned_block_def)
  have "used_memory s = (\<Sum>x \<in> insert p (Z - {p}). block_size P (the (zheap s (real_ptr P x))))"
    using assms(1,2) by (simp add: z_ok_def insert_absorb)
  also have "\<dots> = (\<Sum>x \<in> Z - {p}. block_size P (the (zheap s' (real_ptr P x)))) +
      block_size P (the (zheap s (real_ptr P p)))"
    by (rule sum_insert_word) (use assms(1,3) in \<open>auto simp: z_ok_def\<close>)
  finally show "used_memory s' = (\<Sum>x \<in> Z - {p}. block_size P (the (zheap s' (real_ptr P x))))"
    using assms(4) by simp
qed (use assms(1) in \<open>simp add: z_ok_def\<close>)

section \<open>Allocation\<close>

lemmas stat_defs = update_zmalloc_stat_alloc_def update_zmalloc_stat_free_def

lemma no_overflow_add: "sz < sz + 8 \<Longrightarrow> unat (sz + 8 :: uint64) = unat sz + 8"
  using unat_less_64 [of sz] by (simp add: word_less_nat_alt unat_word_ariths(1) mod_if split: if_splits)

lemma min_size_ge: "ASSERT_NO_SIZE_OVERFLOW P sz \<Longrightarrow>
  unat sz + unat (PREFIX_SIZE P) \<le> unat (MALLOC_MIN_SIZE sz + PREFIX_SIZE P)"
  using no_overflow_add [of sz]
  by (auto simp: ASSERT_NO_SIZE_OVERFLOW_def MALLOC_MIN_SIZE_def PREFIX_SIZE_def word_gt_0)

lemma put_block_ok:
  assumes "unat sz + 8 \<le> length bs" "length bs < 2 ^ 64" "\<not> have_malloc_size P"
  shows "block_ok P (put_bytes bs 0 (le_bytes 8 (uint sz)))"
    and "block_size P (put_bytes bs 0 (le_bytes 8 (uint sz))) = sz + 8"
proof -
  have "int (unat sz + 8) \<le> int (length bs)" using assms(1) by (simp only: of_nat_le_iff)
  then have "uint sz + 8 \<le> int (length bs)" by simp
  then show "block_ok P (put_bytes bs 0 (le_bytes 8 (uint sz)))"
    and "block_size P (put_bytes bs 0 (le_bytes 8 (uint sz))) = sz + 8"
    using assms stored_size [of bs sz] by (simp_all add: block_ok_def block_size_def)
qed

text \<open>A fresh block of sufficient size is accounted for and handed out.\<close>

lemma account_correct:
  assumes s: "z_ok P s Z" "p \<noteq> 0" "p \<notin> dom (zheap s)" "p + length bs < 2 ^ 64"
    "unat sz + unat (PREFIX_SIZE P) \<le> length bs"
  shows "\<exists>s' q u. account_block P (s\<lparr>zheap := (zheap s)(p \<mapsto> bs)\<rparr>) p sz = Some (s', Some q, Some u) \<and> q \<notin> Z \<and>
    z_ok P s' (insert q Z) \<and> sz \<le> u \<and> unat u \<le> length (user_bytes P s' q) \<and>
    (\<forall>x \<in> Z. user_bytes P s' x = user_bytes P s x) \<and>
    user_bytes P s' q = drop (unat (PREFIX_SIZE P)) bs"
proof (cases "have_malloc_size P")
  case True
  define s' where "s' = s\<lparr>zheap := (zheap s)(p \<mapsto> bs), used_memory := used_memory s + of_nat (length bs)\<rparr>"
  have u: "unat (of_nat (length bs) :: uint64) = length bs" using s(4) by (simp add: unat_of_nat_64)
  have fr: "x \<noteq> p" if "x \<in> Z" for x
    using that s(1,3) True by (auto simp: z_ok_def owned_block_def real_ptr_def)
  have "z_ok P s' (insert p Z)"
    by (rule z_ok_insert [OF s(1)]) (use s True fr in \<open>auto simp: s'_def owned_block_def block_ok_def real_ptr_def block_size_def\<close>)
  moreover have "account_block P (s\<lparr>zheap := (zheap s)(p \<mapsto> bs)\<rparr>) p sz = Some (s', Some p, Some (of_nat (length bs)))"
    using True by (simp add: account_block_def zmalloc_size_def s'_def stat_defs)
  moreover have "sz \<le> of_nat (length bs)" using s(5) u by (simp add: word_le_nat_alt)
  ultimately show ?thesis
    using True u fr by (auto simp: user_bytes_def real_ptr_def s'_def PREFIX_SIZE_def)
next
  case False
  define b where "b = put_bytes bs 0 (le_bytes 8 (uint sz))"
  define s' where "s' = s\<lparr>zheap := (zheap s)(p \<mapsto> b), used_memory := used_memory s + (sz + 8)\<rparr>"
  have len: "unat sz + 8 \<le> length bs" using s(5) False by (simp add: PREFIX_SIZE_def)
  have b: "block_ok P b" "block_size P b = sz + 8" "drop 8 b = drop 8 bs" "length b = length bs"
    using put_block_ok [of sz bs P] len s(4) False by (simp_all add: b_def put_bytes_def)
  have fr: "x - 8 \<noteq> p" "x \<noteq> p + 8" if "x \<in> Z" for x
    using that s(1,3) False by (auto simp: z_ok_def owned_block_def real_ptr_def)
  have "z_ok P s' (insert (p + 8) Z)"
    by (rule z_ok_insert [OF s(1)]) (use s False fr b in \<open>auto simp: s'_def owned_block_def real_ptr_def\<close>)
  moreover have "account_block P (s\<lparr>zheap := (zheap s)(p \<mapsto> bs)\<rparr>) p sz = Some (s', Some (p + 8), Some sz)"
    using False len by (simp add: account_block_def store_size_def s'_def b_def stat_defs PREFIX_SIZE_def)
  ultimately show ?thesis
    using False fr b len by (auto simp: user_bytes_def real_ptr_def s'_def PREFIX_SIZE_def)
qed

text \<open>What a successful allocation of \<open>sz\<close> bytes means for the blocks \<open>Z\<close> in use.\<close>

definition allocates :: "platform \<Rightarrow> zstate \<Rightarrow> nat set \<Rightarrow> uint64 \<Rightarrow> zstate \<Rightarrow> nat \<Rightarrow> uint64 \<Rightarrow> bool" where
  "allocates P s Z sz s' q u \<longleftrightarrow>
     q \<notin> Z \<and> z_ok P s' (insert q Z) \<and> sz \<le> u \<and> unat u \<le> length (user_bytes P s' q) \<and>
     (\<forall>x \<in> Z. user_bytes P s' x = user_bytes P s x)"

context lawful_libc
begin

lemma malloc_correct:
  assumes "z_ok P s Z" "ASSERT_NO_SIZE_OVERFLOW P sz"
  shows "ztrymalloc_usable P s sz = Some (s, None, None) \<or>
    (\<exists>s' q u. ztrymalloc_usable P s sz = Some (s', Some q, Some u) \<and> allocates P s Z sz s' q u)"
proof (cases "lc_malloc P (zheap s) (MALLOC_MIN_SIZE sz + PREFIX_SIZE P)")
  case (Some r)
  obtain p bs where r: "r = (p, bs)" by (cases r)
  have "p \<noteq> 0" "p \<notin> dom (zheap s)" "p + length bs < 2 ^ 64" "unat sz + unat (PREFIX_SIZE P) \<le> length bs"
    using malloc_law [of "zheap s" "MALLOC_MIN_SIZE sz + PREFIX_SIZE P" p bs] Some r min_size_ge [OF assms(2)] by auto
  then show ?thesis
    using account_correct [OF assms(1), of p bs sz] assms(2) Some r
    by (auto simp: ztrymalloc_usable_def allocates_def)
qed (simp add: ztrymalloc_usable_def assms(2))

lemma calloc_correct:
  assumes "z_ok P s Z" "ASSERT_NO_SIZE_OVERFLOW P sz"
  shows "ztrycalloc_usable P s sz = Some (s, None, None) \<or>
    (\<exists>s' q u. ztrycalloc_usable P s sz = Some (s', Some q, Some u) \<and> allocates P s Z sz s' q u \<and>
      take (unat sz) (user_bytes P s' q) = replicate (unat sz) 0)"
proof (cases "lc_calloc P (zheap s) (MALLOC_MIN_SIZE sz + PREFIX_SIZE P)")
  case (Some r)
  obtain p bs where r: "r = (p, bs)" by (cases r)
  let ?n = "unat (MALLOC_MIN_SIZE sz + PREFIX_SIZE P)" and ?k = "unat (PREFIX_SIZE P)"
  have law: "p \<noteq> 0" "p \<notin> dom (zheap s)" "p + length bs < 2 ^ 64" "unat sz + ?k \<le> length bs"
      "take ?n bs = replicate ?n 0"
    using calloc_law [of "zheap s" "MALLOC_MIN_SIZE sz + PREFIX_SIZE P" p bs] Some r min_size_ge [OF assms(2)] by auto
  have "take (unat sz) (drop ?k bs) = take (unat sz) (drop ?k (take ?n bs))"
    using min_size_ge [OF assms(2)] by (simp add: drop_take)
  also have "\<dots> = replicate (unat sz) 0"
    unfolding law(5) using min_size_ge [OF assms(2)] by simp
  finally show ?thesis
    using account_correct [OF assms(1) law(1-4)] assms(2) Some r
    by (auto simp: ztrycalloc_usable_def allocates_def)
qed (simp add: ztrycalloc_usable_def assms(2))

end

section \<open>Release and resizing\<close>

lemma zfree_correct:
  assumes "z_ok P s Z" "p \<in> Z"
  shows "\<exists>s'. zfree P s (Some p) = Some s' \<and> z_ok P s' (Z - {p}) \<and>
    (\<forall>x \<in> Z - {p}. user_bytes P s' x = user_bytes P s x)"
proof -
  let ?sz = "block_size P (the (zheap s (real_ptr P p)))"
  define s' where "s' = s\<lparr>used_memory := used_memory s - ?sz, zheap := (zheap s)(real_ptr P p := None)\<rparr>"
  have own: "owned_block P s x" if "x \<in> Z" for x using that assms(1) by (simp add: z_ok_def)
  have fr: "real_ptr P x \<noteq> real_ptr P p" if "x \<in> Z - {p}" for x
    using that own assms(2) real_ptr_inj [of P s x s p] by auto
  have "z_ok P s' (Z - {p})"
    by (rule z_ok_remove [OF assms]) (use fr in \<open>auto simp: s'_def\<close>)
  moreover have "zfree P s (Some p) = Some s'"
    using own [OF assms(2)] owned_size [OF own [OF assms(2)]]
    by (auto simp: zfree_def s'_def stat_defs real_ptr_def owned_block_def block_size_def block_ok_def load_size_def
      PREFIX_SIZE_def)
  moreover have "user_bytes P s' x = user_bytes P s x" if "x \<in> Z - {p}" for x
    using fr [OF that] by (simp add: user_bytes_def s'_def)
  ultimately show ?thesis by blast
qed

lemma zfree_usable_same: "map_option fst (zfree_usable P s ptr) = zfree P s ptr"
  by (simp add: zfree_usable_def zfree_def Let_def map_option_bind comp_def split: option.splits)

text \<open>What resizing the block \<open>p\<close> to \<open>sz\<close> bytes means.\<close>

definition resizes :: "platform \<Rightarrow> zstate \<Rightarrow> nat set \<Rightarrow> nat \<Rightarrow> uint64 \<Rightarrow> zstate \<Rightarrow> nat \<Rightarrow> uint64 \<Rightarrow> bool" where
  "resizes P s Z p sz s' q u \<longleftrightarrow>
     allocates P s (Z - {p}) sz s' q u \<and>
     (let k = min (unat sz) (length (user_bytes P s p)) in take k (user_bytes P s' q) = take k (user_bytes P s p))"

text \<open>The old block is gone and the new one has taken its place.\<close>

lemma z_ok_move:
  assumes Z: "z_ok P s Z" "p \<in> Z"
    and q: "q = real_ptr P p \<or> q \<notin> dom (zheap s)" "owned_block P s' r" "real_ptr P r = q"
    and s': "\<And>x. x \<noteq> q \<Longrightarrow> x \<noteq> real_ptr P p \<Longrightarrow> zheap s' x = zheap s x"
      "used_memory s' = used_memory s - block_size P (the (zheap s (real_ptr P p))) + block_size P (the (zheap s' q))"
  shows "z_ok P s' (insert r (Z - {p}))" "r \<notin> Z - {p}" "\<And>x. x \<in> Z - {p} \<Longrightarrow> zheap s' (real_ptr P x) = zheap s (real_ptr P x)"
proof -
  have own: "owned_block P s x" if "x \<in> Z" for x using that Z(1) by (simp add: z_ok_def)
  have fr: "real_ptr P x \<noteq> real_ptr P p" "real_ptr P x \<noteq> q" if "x \<in> Z - {p}" for x
    using that own Z(2) real_ptr_inj [of P s x s p] own [of x] q(1) by (auto simp: owned_block_def)
  show keep: "zheap s' (real_ptr P x) = zheap s (real_ptr P x)" if "x \<in> Z - {p}" for x
    using s'(1) fr [OF that] by blast
  show "r \<notin> Z - {p}" using fr(2) q(3) by blast
  let ?s1 = "s\<lparr>used_memory := used_memory s - block_size P (the (zheap s (real_ptr P p)))\<rparr>"
  have "z_ok P ?s1 (Z - {p})" by (rule z_ok_remove [OF Z]) simp_all
  then show "z_ok P s' (insert r (Z - {p}))"
    using \<open>r \<notin> Z - {p}\<close> q(2) by (rule z_ok_insert) (use keep s'(2) q(3) in auto)
qed

context lawful_libc
begin

lemma realloc_sized:
  assumes "z_ok P s Z" "p \<in> Z" "sz \<noteq> 0" "have_malloc_size P" "lc_realloc P (zheap s) p sz = Some (q, bs)"
  shows "\<exists>s' u. ztryrealloc_usable P s (Some p) sz = Some (s', Some q, Some u) \<and> resizes P s Z p sz s' q u"
proof -
  have own: "owned_block P s p" using assms(1,2) by (simp add: z_ok_def)
  then obtain old where old: "zheap s p = Some old" using assms(4) by (auto simp: owned_block_def real_ptr_def)
  note law = realloc_law [OF old assms(5)]
  define s' where "s' = s\<lparr>zheap := (zheap s)(p := None, q \<mapsto> bs),
    used_memory := used_memory s - of_nat (length old) + of_nat (length bs)\<rparr>"
  have u: "unat (of_nat (length bs) :: uint64) = length bs" using law by (simp add: unat_of_nat_64)
  have "owned_block P s' q" using law assms(4) by (simp add: owned_block_def s'_def real_ptr_def block_ok_def)
  from z_ok_move [OF assms(1,2) _ this refl]
  have Z: "z_ok P s' (insert q (Z - {p}))" "q \<notin> Z - {p}" "\<And>x. x \<in> Z - {p} \<Longrightarrow> zheap s' (real_ptr P x) = zheap s (real_ptr P x)"
    using law assms(4) old by (auto simp: s'_def real_ptr_def block_size_def)
  have "ztryrealloc_usable P s (Some p) sz = Some (s', Some q, Some (of_nat (length bs)))"
    using assms(3-5) old
    by (simp add: ztryrealloc_usable_def ASSERT_NO_SIZE_OVERFLOW_def zmalloc_size_def move_block_def stat_defs s'_def)
  moreover have "resizes P s Z p sz s' q (of_nat (length bs))"
    using Z law u assms(4) old
    by (auto simp: resizes_def allocates_def user_bytes_def real_ptr_def s'_def word_le_nat_alt Let_def)
  ultimately show ?thesis by blast
qed

lemma realloc_prefixed:
  assumes "z_ok P s Z" "p \<in> Z" "sz \<noteq> 0" "\<not> have_malloc_size P" "sz < sz + 8"
    "lc_realloc P (zheap s) (p - 8) (sz + 8) = Some (q, bs)"
  shows "\<exists>s' u. ztryrealloc_usable P s (Some p) sz = Some (s', Some (q + 8), Some u) \<and> resizes P s Z p sz s' (q + 8) u"
proof -
  have own: "owned_block P s p" using assms(1,2) by (simp add: z_ok_def)
  then obtain old where old: "zheap s (p - 8) = Some old" "8 \<le> p" "8 \<le> length old"
    using assms(4) by (auto simp: owned_block_def real_ptr_def block_ok_def)
  note law = realloc_law [OF old(1) assms(6), unfolded no_overflow_add [OF assms(5)]]
  define b where "b = put_bytes bs 0 (le_bytes 8 (uint sz))"
  define osz :: uint64 where "osz = word_of_int (le_uint (get_bytes old 0 8))"
  define s' where "s' = s\<lparr>zheap := (zheap s)(p - 8 := None, q \<mapsto> b), used_memory := used_memory s - osz + sz\<rparr>"
  have b: "block_ok P b" "block_size P b = sz + 8" "drop 8 b = drop 8 bs" "length b = length bs"
    using put_block_ok [of sz bs P] law assms(4) by (simp_all add: b_def put_bytes_def)
  have "owned_block P s' (q + 8)" using law assms(4) b(1) by (simp add: owned_block_def s'_def real_ptr_def)
  from z_ok_move [OF assms(1,2) _ this, of q]
  have Z: "z_ok P s' (insert (q + 8) (Z - {p}))" "q + 8 \<notin> Z - {p}"
    "\<And>x. x \<in> Z - {p} \<Longrightarrow> zheap s' (real_ptr P x) = zheap s (real_ptr P x)"
    using law assms(4) old b(2) by (auto simp: s'_def real_ptr_def block_size_def osz_def)
  have "ztryrealloc_usable P s (Some p) sz = Some (s', Some (q + 8), Some sz)"
    using assms(3-6) old law
    by (simp add: ztryrealloc_usable_def ASSERT_NO_SIZE_OVERFLOW_def PREFIX_SIZE_def load_size_def store_size_def
      move_block_def stat_defs s'_def b_def osz_def)
  moreover have "take k (drop 8 bs) = take k (drop 8 old)" if "k = min (unat sz) (length old - 8)" for k
  proof -
    have "k + 8 = min (unat sz + 8) (length old)" using that old(3) by simp
    then have "take (k + 8) bs = take (k + 8) old" using law by simp
    then show ?thesis by (metis add.commute add_diff_cancel_right' drop_take)
  qed
  then have "resizes P s Z p sz s' (q + 8) sz"
    using Z law assms(4) old b(3,4)
    by (auto simp: resizes_def allocates_def user_bytes_def real_ptr_def s'_def Let_def)
  ultimately show ?thesis by blast
qed

lemma realloc_correct:
  assumes "z_ok P s Z" "p \<in> Z" "sz \<noteq> 0" "ASSERT_NO_SIZE_OVERFLOW P sz"
  shows "case lc_realloc P (zheap s) (real_ptr P p) (sz + PREFIX_SIZE P) of
      None \<Rightarrow> ztryrealloc_usable P s (Some p) sz = Some (s, None, Some 0)
    | Some _ \<Rightarrow> \<exists>s' q u. ztryrealloc_usable P s (Some p) sz = Some (s', Some q, Some u) \<and> resizes P s Z p sz s' q u"
proof -
  have own: "owned_block P s p" using assms(1,2) by (simp add: z_ok_def)
  then obtain bs where bs: "zheap s (real_ptr P p) = Some bs" "have_malloc_size P \<or> 8 \<le> p \<and> 8 \<le> length bs"
    by (auto simp: owned_block_def block_ok_def)
  show ?thesis
  proof (cases "lc_realloc P (zheap s) (real_ptr P p) (sz + PREFIX_SIZE P)")
    case None
    then show ?thesis using assms(3,4) bs owned_size [OF own]
      by (cases "have_malloc_size P") (simp_all add: ztryrealloc_usable_def PREFIX_SIZE_def load_size_def real_ptr_def)
  next
    case (Some r)
    obtain q b where r: "r = (q, b)" by (cases r)
    show ?thesis
    proof (cases "have_malloc_size P")
      case True
      then show ?thesis using realloc_sized [OF assms(1-3) True, of q b] Some r
        by (auto simp: real_ptr_def PREFIX_SIZE_def)
    next
      case False
      moreover have "sz < sz + 8" using assms(4) False by (simp add: ASSERT_NO_SIZE_OVERFLOW_def PREFIX_SIZE_def)
      ultimately show ?thesis using realloc_prefixed [OF assms(1-3) False, of q b] Some r
        by (auto simp: real_ptr_def PREFIX_SIZE_def)
    qed
  qed
qed

end

section \<open>Every history of calls\<close>

text \<open>
  The states a program can reach with the blocks \<open>Z\<close> in use: by the operations of this file on
  these blocks, by writes of the clients into them, and by whatever happens to memory that
  is not theirs.
\<close>

inductive zreach :: "platform \<Rightarrow> zstate \<Rightarrow> nat set \<Rightarrow> bool" for P where
  z_start: "zreach P \<lparr>zheap = h, used_memory = 0\<rparr> {}"
| z_trymalloc: "zreach P s Z \<Longrightarrow> ztrymalloc_usable P s sz = Some (s', ptr, u) \<Longrightarrow> zreach P s' (Z \<union> set_option ptr)"
| z_trycalloc: "zreach P s Z \<Longrightarrow> ztrycalloc_usable P s sz = Some (s', ptr, u) \<Longrightarrow> zreach P s' (Z \<union> set_option ptr)"
| z_tryrealloc_null: "zreach P s Z \<Longrightarrow> ztryrealloc_usable P s None sz = Some (s', ptr, u) \<Longrightarrow> zreach P s' (Z \<union> set_option ptr)"
| z_tryrealloc: "zreach P s Z \<Longrightarrow> p \<in> Z \<Longrightarrow> ztryrealloc_usable P s (Some p) sz = Some (s', ptr, u) \<Longrightarrow>
    zreach P s' (if ptr = None \<and> sz \<noteq> 0 then Z else Z - {p} \<union> set_option ptr)"
| z_free_null: "zreach P s Z \<Longrightarrow> zfree P s None = Some s' \<Longrightarrow> zreach P s' Z"
| z_free: "zreach P s Z \<Longrightarrow> p \<in> Z \<Longrightarrow> zfree P s (Some p) = Some s' \<Longrightarrow> zreach P s' (Z - {p})"
| z_write: "zreach P s Z \<Longrightarrow> p \<in> Z \<Longrightarrow> write_block P s p off bs = Some s' \<Longrightarrow> zreach P s' Z"
| z_other: "zreach P s Z \<Longrightarrow> (\<And>p. p \<in> Z \<Longrightarrow> h (real_ptr P p) = zheap s (real_ptr P p)) \<Longrightarrow> zreach P (s\<lparr>zheap := h\<rparr>) Z"

lemma z_ok_cong:
  assumes "z_ok P s Z" "used_memory s' = used_memory s"
    "\<And>p. p \<in> Z \<Longrightarrow> \<exists>bs bs'. zheap s (real_ptr P p) = Some bs \<and> zheap s' (real_ptr P p) = Some bs' \<and>
      length bs' = length bs \<and> (have_malloc_size P \<or> get_bytes bs' 0 8 = get_bytes bs 0 8)"
  shows "z_ok P s' Z"
  unfolding z_ok_def
proof (intro conjI ballI)
  have same: "block_size P (the (zheap s' (real_ptr P p))) = block_size P (the (zheap s (real_ptr P p)))" if "p \<in> Z" for p
    using assms(3) [OF that] by (auto simp: block_size_def)
  show "used_memory s' = (\<Sum>p \<in> Z. block_size P (the (zheap s' (real_ptr P p))))"
    using assms(1,2) same by (simp add: z_ok_def)
  show "owned_block P s' p" if "p \<in> Z" for p
    using assms(1) assms(3) [OF that] that by (fastforce simp: z_ok_def owned_block_def block_ok_def)
qed (use assms(1) in \<open>simp add: z_ok_def\<close>)

lemma write_correct:
  assumes "z_ok P s Z" "p \<in> Z" "write_block P s p off bs = Some s'"
  shows "z_ok P s' Z"
proof (rule z_ok_cong [OF assms(1)])
  let ?k = "unat (PREFIX_SIZE P)"
  obtain b where b: "zheap s (p - ?k) = Some b" "?k + off + length bs \<le> length b" "?k \<le> p"
    "s' = s\<lparr>zheap := (zheap s)(p - ?k \<mapsto> put_bytes b (?k + off) bs)\<rparr>"
    using assms(3) by (auto simp: write_block_def Let_def bind_eq_Some_conv split: if_splits)
  have r: "real_ptr P p = p - ?k" by (simp add: real_ptr_def PREFIX_SIZE_def)
  show "used_memory s' = used_memory s" using b(4) by simp
  fix x assume "x \<in> Z"
  then obtain bx where bx: "zheap s (real_ptr P x) = Some bx" using assms(1) by (auto simp: z_ok_def owned_block_def)
  have "have_malloc_size P \<or> get_bytes (put_bytes b (?k + off) bs) 0 8 = get_bytes b 0 8"
    using b(2) by (cases "have_malloc_size P") (simp_all add: get_put_disjoint PREFIX_SIZE_def)
  then show "\<exists>bs bs'. zheap s (real_ptr P x) = Some bs \<and> zheap s' (real_ptr P x) = Some bs' \<and>
      length bs' = length bs \<and> (have_malloc_size P \<or> get_bytes bs' 0 8 = get_bytes bs 0 8)"
    using bx b r by (cases "real_ptr P x = p - ?k") auto
qed

context lawful_libc
begin

lemma zreach_ok: "zreach P s Z \<Longrightarrow> z_ok P s Z"
proof (induction rule: zreach.induct)
  case (z_start h)
  then show ?case by (simp add: z_ok_def)
next
  case (z_trymalloc s Z sz s' ptr u)
  moreover have "ASSERT_NO_SIZE_OVERFLOW P sz"
    using z_trymalloc.hyps(2) by (auto simp: ztrymalloc_usable_def split: if_splits)
  ultimately show ?case using malloc_correct [of s Z sz] by (auto simp: allocates_def)
next
  case (z_trycalloc s Z sz s' ptr u)
  moreover have "ASSERT_NO_SIZE_OVERFLOW P sz"
    using z_trycalloc.hyps(2) by (auto simp: ztrycalloc_usable_def split: if_splits)
  ultimately show ?case using calloc_correct [of s Z sz] by (auto simp: allocates_def)
next
  case (z_tryrealloc_null s Z sz s' ptr u)
  moreover have "ASSERT_NO_SIZE_OVERFLOW P sz" "ztrymalloc_usable P s sz = Some (s', ptr, u)"
    using z_tryrealloc_null.hyps(2) by (auto simp: ztryrealloc_usable_def split: if_splits)
  ultimately show ?case using malloc_correct [of s Z sz] by (auto simp: allocates_def)
next
  case (z_tryrealloc s Z p sz s' ptr u)
  have a: "ASSERT_NO_SIZE_OVERFLOW P sz"
    using z_tryrealloc.hyps(3) by (auto simp: ztryrealloc_usable_def split: if_splits)
  show ?case
  proof (cases "sz = 0")
    case True
    then show ?thesis
      using zfree_correct [OF z_tryrealloc.IH z_tryrealloc.hyps(2)] z_tryrealloc.hyps(3) a
      by (auto simp: ztryrealloc_usable_def)
  next
    case False
    then show ?thesis
      using realloc_correct [OF z_tryrealloc.IH z_tryrealloc.hyps(2) False a] z_tryrealloc.hyps(3) z_tryrealloc.IH
      by (auto simp: resizes_def allocates_def split: option.splits)
  qed
next
  case (z_free_null s Z s')
  then show ?case by (simp add: zfree_def)
next
  case (z_free s Z p s')
  then show ?case using zfree_correct [of P s Z p] by auto
next
  case (z_write s Z p off bs s')
  then show ?case using write_correct by blast
next
  case (z_other s Z h)
  show ?case
    by (rule z_ok_cong [OF z_other.IH]) (use z_other in \<open>auto simp: z_ok_def owned_block_def\<close>)
qed

end

lemma z_ok_sizes:
  assumes "z_ok P s Z"
  shows "used_memory s = (\<Sum>p \<in> Z. the (zmalloc_size P s p))" "finite Z"
    "\<And>p. p \<in> Z \<Longrightarrow> \<exists>n. zmalloc_usable_size P s p = Some n \<and> unat n \<le> length (user_bytes P s p)"
proof -
  have own: "owned_block P s p" if "p \<in> Z" for p using that assms by (simp add: z_ok_def)
  show "used_memory s = (\<Sum>p \<in> Z. the (zmalloc_size P s p))" "finite Z"
    using assms owned_size [OF own] by (simp_all add: z_ok_def)
  fix p assume "p \<in> Z"
  note o = own [OF this]
  obtain bs where bs: "zheap s (real_ptr P p) = Some bs" "block_ok P bs" using o by (auto simp: owned_block_def)
  show "\<exists>n. zmalloc_usable_size P s p = Some n \<and> unat n \<le> length (user_bytes P s p)"
  proof (cases "have_malloc_size P")
    case True
    then show ?thesis using bs owned_size [OF o]
      by (simp add: zmalloc_usable_size_def block_size_def user_bytes_def PREFIX_SIZE_def block_ok_def unat_of_nat_64)
  next
    case False
    let ?u = "le_uint (get_bytes bs 0 8)"
    have "0 \<le> ?u" "?u + 8 \<le> int (length bs)" "length bs < 2 ^ 64" using bs(2) False by (simp_all add: block_ok_def)
    moreover from this have "unat (word_of_int ?u :: uint64) = nat ?u"
      by (simp add: unsigned_of_int take_bit_int_eq_self)
    ultimately have "unat (word_of_int ?u :: uint64) + 8 \<le> length bs" by linarith
    then show ?thesis using False bs owned_size [OF o]
      by (simp add: zmalloc_usable_size_def block_size_def user_bytes_def PREFIX_SIZE_def)
  qed
qed

text \<open>A small allocator with two slots, for examples.\<close>

definition slot_alloc :: "heap \<Rightarrow> uint64 \<Rightarrow> (nat \<times> byte list) option" where
  "slot_alloc h n =
     (if n > 4096 then None
      else if h 65536 = None then Some (65536, replicate (unat n) 0)
      else if h 131072 = None then Some (131072, replicate (unat n) 0) else None)"

definition slot_realloc :: "heap \<Rightarrow> nat \<Rightarrow> uint64 \<Rightarrow> (nat \<times> byte list) option" where
  "slot_realloc h p n =
     (case h p of None \<Rightarrow> None
      | Some old \<Rightarrow> map_option (\<lambda>(q, bs). (q, realloc_bytes (\<lambda>_. 0) old (unat n))) (slot_alloc h n))"

definition slots :: "bool \<Rightarrow> platform" where
  "slots sized = \<lparr>have_malloc_size = sized, lc_malloc = slot_alloc, lc_calloc = slot_alloc, lc_realloc = slot_realloc\<rparr>"

interpretation slots: lawful_libc "slots sized"
proof unfold_locales
  fix h n p bs q old
  have n: "unat n \<le> 4096" if "n \<le> 4096" for n :: uint64 using that by (simp add: word_le_nat_alt)
  show "p \<noteq> 0 \<and> p \<notin> dom h \<and> unat n \<le> length bs \<and> p + length bs < 2 ^ 64"
    if "lc_malloc (slots sized) h n = Some (p, bs)"
    using that n [of n] by (auto simp: slots_def slot_alloc_def not_less split: if_splits)
  show "p \<noteq> 0 \<and> p \<notin> dom h \<and> unat n \<le> length bs \<and> p + length bs < 2 ^ 64 \<and> take (unat n) bs = replicate (unat n) 0"
    if "lc_calloc (slots sized) h n = Some (p, bs)"
    using that n [of n] by (auto simp: slots_def slot_alloc_def not_less split: if_splits)
  show "q \<noteq> 0 \<and> (q = p \<or> q \<notin> dom h) \<and> unat n \<le> length bs \<and> q + length bs < 2 ^ 64 \<and>
      take (min (unat n) (length old)) bs = take (min (unat n) (length old)) old"
    if "h p = Some old" "lc_realloc (slots sized) h p n = Some (q, bs)"
    using that n [of n] by (auto simp: slots_def slot_realloc_def slot_alloc_def not_less realloc_bytes_def min_def split: if_splits)
qed

text \<open>
  C7: after any sequence of allocations, reallocations, releases and writes, whatever else happens
  in memory, the counter of used memory is the sum of the sizes of exactly the blocks in use,
  and every block in use has room for the size it reports.
\<close>

theorem zmalloc_accounting:
  assumes "lawful_libc P" "zreach P s Z"
  shows "finite Z \<and> zmalloc_used_memory s = (\<Sum>p \<in> Z. the (zmalloc_size P s p)) \<and>
    (\<forall>p \<in> Z. \<exists>n. zmalloc_usable_size P s p = Some n \<and> unat n \<le> length (user_bytes P s p))"
  using z_ok_sizes [OF lawful_libc.zreach_ok [OF assms]] by (simp add: zmalloc_used_memory_def)

definition ex_zstate :: zstate where
  "ex_zstate = \<lparr>zheap = [65536 \<mapsto> put_bytes (replicate 13 0) 0 (le_bytes 8 5)], used_memory = 13\<rparr>"

lemma ex_zreach: "zreach (slots False) ex_zstate {65544}"
proof -
  have "zreach (slots False) \<lparr>zheap = Map.empty, used_memory = 0\<rparr> {}" by (rule zreach.z_start)
  moreover have "ztrymalloc_usable (slots False) \<lparr>zheap = Map.empty, used_memory = 0\<rparr> 5 = Some (ex_zstate, Some 65544, Some 5)"
    by (simp add: ztrymalloc_usable_def ASSERT_NO_SIZE_OVERFLOW_def MALLOC_MIN_SIZE_def PREFIX_SIZE_def slots_def slot_alloc_def
      account_block_def store_size_def stat_defs ex_zstate_def)
  ultimately show ?thesis using zreach.z_trymalloc by fastforce
qed

theorem zmalloc_accounting_witness:
  "zmalloc_used_memory ex_zstate = the (zmalloc_size (slots False) ex_zstate 65544) \<and>
    (\<exists>n. zmalloc_usable_size (slots False) ex_zstate 65544 = Some n \<and>
      unat n \<le> length (user_bytes (slots False) ex_zstate 65544))"
  using zmalloc_accounting [OF slots.lawful_libc_axioms ex_zreach] by simp

text \<open>
  C35: reallocating a block in use to a new size that does not overflow fails exactly when the
  allocator does, and then changes nothing; otherwise the new block keeps the contents up
  to the smaller of the two sizes, and every other block keeps its contents.
\<close>

theorem ztryrealloc_keeps:
  assumes "lawful_libc P" "zreach P s Z" "p \<in> Z" "sz \<noteq> 0" "ASSERT_NO_SIZE_OVERFLOW P sz"
  shows "case lc_realloc P (zheap s) (real_ptr P p) (sz + PREFIX_SIZE P) of
      None \<Rightarrow> ztryrealloc P s (Some p) sz = Some (s, None)
    | Some _ \<Rightarrow> \<exists>s' q. ztryrealloc P s (Some p) sz = Some (s', Some q) \<and> q \<notin> Z - {p} \<and>
        unat sz \<le> length (user_bytes P s' q) \<and>
        (let k = min (unat sz) (length (user_bytes P s p)) in take k (user_bytes P s' q) = take k (user_bytes P s p)) \<and>
        (\<forall>x \<in> Z - {p}. user_bytes P s' x = user_bytes P s x)"
  using lawful_libc.realloc_correct [OF assms(1) lawful_libc.zreach_ok [OF assms(1,2)] assms(3-5)]
  by (auto simp: ztryrealloc_def resizes_def allocates_def word_le_nat_alt Let_def split: option.splits)

theorem ztryrealloc_keeps_witness:
  "\<exists>s' q. ztryrealloc (slots False) ex_zstate (Some 65544) 9 = Some (s', Some q) \<and>
     take 5 (user_bytes (slots False) s' q) = replicate 5 0"
proof -
  have "lc_realloc (slots False) (zheap ex_zstate) (real_ptr (slots False) 65544) (9 + PREFIX_SIZE (slots False)) \<noteq> None"
    by (simp add: slots_def slot_realloc_def slot_alloc_def ex_zstate_def real_ptr_def PREFIX_SIZE_def)
  moreover have "user_bytes (slots False) ex_zstate 65544 = replicate 5 0"
    by (simp add: user_bytes_def ex_zstate_def real_ptr_def slots_def put_bytes_def)
  moreover have "ASSERT_NO_SIZE_OVERFLOW (slots False) 9" by (simp add: ASSERT_NO_SIZE_OVERFLOW_def slots_def PREFIX_SIZE_def)
  ultimately show ?thesis
    using ztryrealloc_keeps [OF slots.lawful_libc_axioms ex_zreach, of 65544 9] by (auto simp: Let_def)
qed

end
