(* ===== verification/Listpack.thy ===== *)
theory Listpack
  imports Sds
begin

text \<open>
  The listpack of \<^verbatim>\<open>src/listpack.c\<close>: a list of strings and integers in one block of bytes, used for
  stream nodes.  A listpack is the bytes of its allocation, of which the first
  \<^verbatim>\<open>lpGetTotalBytes\<close> are in use, and a pointer into it is an offset.  Every access is checked
  against the allocation; a result \<open>None\<close> is an access outside of it, a failed assertion, or an
  allocation that aborts.  This theory holds the definitions; the encoding and the list are
  treated in the theories that import it.
\<close>

unbundle bit_operations_syntax

section \<open>Constants and the header\<close>

definition LP_HDR_SIZE :: nat where "LP_HDR_SIZE = 6"
definition LP_HDR_NUMELE_UNKNOWN :: nat where "LP_HDR_NUMELE_UNKNOWN = 65535"
definition LP_EOF :: byte where "LP_EOF = 0xFF"
definition LP_ENCODING_6BIT_STR :: byte where "LP_ENCODING_6BIT_STR = 0x80"
definition LP_ENCODING_13BIT_INT :: byte where "LP_ENCODING_13BIT_INT = 0xC0"
definition LP_ENCODING_12BIT_STR :: byte where "LP_ENCODING_12BIT_STR = 0xE0"
definition LP_ENCODING_16BIT_INT :: byte where "LP_ENCODING_16BIT_INT = 0xF1"
definition LP_ENCODING_24BIT_INT :: byte where "LP_ENCODING_24BIT_INT = 0xF2"
definition LP_ENCODING_32BIT_INT :: byte where "LP_ENCODING_32BIT_INT = 0xF3"
definition LP_ENCODING_64BIT_INT :: byte where "LP_ENCODING_64BIT_INT = 0xF4"
definition LP_ENCODING_32BIT_STR :: byte where "LP_ENCODING_32BIT_STR = 0xF0"

definition LP_ENCODING_IS_7BIT_UINT :: "byte \<Rightarrow> bool" where
  "LP_ENCODING_IS_7BIT_UINT b \<longleftrightarrow> b AND 0x80 = 0"

definition LP_ENCODING_IS_6BIT_STR :: "byte \<Rightarrow> bool" where
  "LP_ENCODING_IS_6BIT_STR b \<longleftrightarrow> b AND 0xC0 = LP_ENCODING_6BIT_STR"

definition LP_ENCODING_IS_13BIT_INT :: "byte \<Rightarrow> bool" where
  "LP_ENCODING_IS_13BIT_INT b \<longleftrightarrow> b AND 0xE0 = LP_ENCODING_13BIT_INT"

definition LP_ENCODING_IS_12BIT_STR :: "byte \<Rightarrow> bool" where
  "LP_ENCODING_IS_12BIT_STR b \<longleftrightarrow> b AND 0xF0 = LP_ENCODING_12BIT_STR"

text \<open>The masks of the remaining encodings select the whole byte.\<close>

lemmas lp_consts = LP_HDR_SIZE_def LP_HDR_NUMELE_UNKNOWN_def LP_EOF_def LP_ENCODING_6BIT_STR_def
  LP_ENCODING_13BIT_INT_def LP_ENCODING_12BIT_STR_def LP_ENCODING_16BIT_INT_def LP_ENCODING_24BIT_INT_def
  LP_ENCODING_32BIT_INT_def LP_ENCODING_64BIT_INT_def LP_ENCODING_32BIT_STR_def

type_synonym listpack = "byte list"

text \<open>Reads of one byte and of \<open>n\<close> bytes, and writes, inside the allocation.\<close>

definition lp_at :: "listpack \<Rightarrow> nat \<Rightarrow> byte option" where
  "lp_at lp p = (if p < length lp then Some (lp ! p) else None)"

definition lp_read :: "listpack \<Rightarrow> nat \<Rightarrow> nat \<Rightarrow> byte list option" where
  "lp_read lp p n = (if p + n \<le> length lp then Some (get_bytes lp p n) else None)"

definition lp_write :: "listpack \<Rightarrow> nat \<Rightarrow> byte list \<Rightarrow> listpack option" where
  "lp_write lp p bs = (if p + length bs \<le> length lp then Some (put_bytes lp p bs) else None)"

definition lp_memmove :: "listpack \<Rightarrow> nat \<Rightarrow> nat \<Rightarrow> nat \<Rightarrow> listpack option" where
  "lp_memmove lp dst src n =
     (if dst + n \<le> length lp \<and> src + n \<le> length lp then Some (memmove lp dst src n) else None)"

text \<open>
  The numbers of the format are little-endian: a shift and disjunction of bytes is the number
  they form, and storing \<open>v >> 8 k\<close> in byte \<open>k\<close> for all \<open>k\<close> stores its bytes.
\<close>

definition lp_number :: "listpack \<Rightarrow> nat \<Rightarrow> nat \<Rightarrow> nat option" where
  "lp_number lp p n = map_option (\<lambda>bs. nat (le_uint bs)) (lp_read lp p n)"

definition lpGetTotalBytes :: "listpack \<Rightarrow> nat option" where
  "lpGetTotalBytes lp = lp_number lp 0 4"

definition lpGetNumElements :: "listpack \<Rightarrow> nat option" where
  "lpGetNumElements lp = lp_number lp 4 2"

definition lpSetTotalBytes :: "listpack \<Rightarrow> nat \<Rightarrow> listpack option" where
  "lpSetTotalBytes lp v = lp_write lp 0 (le_bytes 4 (int v))"

definition lpSetNumElements :: "listpack \<Rightarrow> nat \<Rightarrow> listpack option" where
  "lpSetNumElements lp v = lp_write lp 4 (le_bytes 2 (int v))"

definition lpBytes :: "listpack \<Rightarrow> nat option" where
  "lpBytes lp = lpGetTotalBytes lp"

definition ASSERT_INTEGRITY :: "listpack \<Rightarrow> nat \<Rightarrow> unit option" where
  "ASSERT_INTEGRITY lp p =
     do { n \<leftarrow> lpGetTotalBytes lp; if LP_HDR_SIZE \<le> p \<and> p < n then Some () else None }"

definition ASSERT_INTEGRITY_LEN :: "listpack \<Rightarrow> nat \<Rightarrow> nat \<Rightarrow> unit option" where
  "ASSERT_INTEGRITY_LEN lp p len =
     do { n \<leftarrow> lpGetTotalBytes lp; if LP_HDR_SIZE \<le> p \<and> p + len < n then Some () else None }"

section \<open>Encoding\<close>

fun lpStringLoop :: "uint64 \<Rightarrow> byte list \<Rightarrow> (uint64 \<times> byte list) option" where
  "lpStringLoop v [] = Some (v, [])"
| "lpStringLoop v (c # p) =
     (if 48 \<le> c \<and> c \<le> 57 then
        if v > word_of_int ULLONG_MAX div 10 then None
        else let v = v * 10 in
          if v > word_of_int ULLONG_MAX - ucast (c - 48) then None
          else lpStringLoop (v + ucast (c - 48)) p
      else Some (v, c # p))"

definition lpStringToInt64 :: "byte list \<Rightarrow> int option" where
  "lpStringToInt64 s =
     (if s = [] then None
      else if s = [48] then Some 0
      else
        let negative = (hd s = 45); p = (if negative then tl s else s) in
        if p = [] then None
        else if 49 \<le> hd p \<and> hd p \<le> 57 then
          do {
            (v, rest) \<leftarrow> lpStringLoop (ucast (hd p - 48)) (tl p);
            if rest \<noteq> [] then None
            else if negative then
              if v > word_of_int (- (LLONG_MIN + 1)) + 1 then None else Some (sint (- v))
            else
              if v > word_of_int LLONG_MAX then None else Some (sint v)
          }
        else None)"

text \<open>The encoding of an integer, and of a string only its length.\<close>

datatype lp_enc = Enc_int "byte list" | Enc_str nat

fun enclen :: "lp_enc \<Rightarrow> nat" where
  "enclen (Enc_int intenc) = length intenc"
| "enclen (Enc_str n) = n"

definition lpEncodeGetType :: "byte list \<Rightarrow> lp_enc" where
  "lpEncodeGetType ele =
     (case lpStringToInt64 ele of
        Some v \<Rightarrow>
          if 0 \<le> v \<and> v \<le> 127 then Enc_int [word_of_int v]
          else if - 4096 \<le> v \<and> v \<le> 4095 then
            let v = (if v < 0 then 2 ^ 13 + v else v) in
            Enc_int [word_of_int (v div 256) OR LP_ENCODING_13BIT_INT, word_of_int v]
          else if - 32768 \<le> v \<and> v \<le> 32767 then
            let v = (if v < 0 then 2 ^ 16 + v else v) in Enc_int (LP_ENCODING_16BIT_INT # le_bytes 2 v)
          else if - 8388608 \<le> v \<and> v \<le> 8388607 then
            let v = (if v < 0 then 2 ^ 24 + v else v) in Enc_int (LP_ENCODING_24BIT_INT # le_bytes 3 v)
          else if - 2147483648 \<le> v \<and> v \<le> 2147483647 then
            let v = (if v < 0 then 2 ^ 32 + v else v) in Enc_int (LP_ENCODING_32BIT_INT # le_bytes 4 v)
          else Enc_int (LP_ENCODING_64BIT_INT # le_bytes 8 (v mod 2 ^ 64))
      | None \<Rightarrow>
          if length ele < 64 then Enc_str (1 + length ele)
          else if length ele < 4096 then Enc_str (2 + length ele)
          else Enc_str (5 + length ele))"

text \<open>The bytes of the back length; without a buffer only their number is used.\<close>

definition lpEncodeBacklen :: "nat \<Rightarrow> byte list" where
  "lpEncodeBacklen l =
     (if l \<le> 127 then [of_nat l]
      else if l < 16383 then [of_nat (l div 2 ^ 7), of_nat (l mod 128) OR 128]
      else if l < 2097151 then
        [of_nat (l div 2 ^ 14), of_nat (l div 2 ^ 7 mod 128) OR 128, of_nat (l mod 128) OR 128]
      else if l < 268435455 then
        [of_nat (l div 2 ^ 21), of_nat (l div 2 ^ 14 mod 128) OR 128, of_nat (l div 2 ^ 7 mod 128) OR 128,
         of_nat (l mod 128) OR 128]
      else
        [of_nat (l div 2 ^ 28), of_nat (l div 2 ^ 21 mod 128) OR 128, of_nat (l div 2 ^ 14 mod 128) OR 128,
         of_nat (l div 2 ^ 7 mod 128) OR 128, of_nat (l mod 128) OR 128])"

definition UINT64_MAX :: nat where "UINT64_MAX = 18446744073709551615"

text \<open>The loop of \<^verbatim>\<open>lpDecodeBacklen\<close>, which reads backwards from \<open>p\<close>.\<close>

function lpDecodeBacklenLoop :: "listpack \<Rightarrow> nat \<Rightarrow> nat \<Rightarrow> nat \<Rightarrow> nat option" where
  "lpDecodeBacklenLoop lp p val shift =
     do {
       c \<leftarrow> lp_at lp p;
       let val = val OR push_bit shift (unat (c AND 127));
       if c AND 128 = 0 then Some val
       else if 28 < shift + 7 then Some UINT64_MAX
       else if p = 0 then None
       else lpDecodeBacklenLoop lp (p - 1) val (shift + 7)
     }"
  by pat_completeness auto
termination
  by (relation "measure (\<lambda>(lp, p, val, shift). p)") auto

declare lpDecodeBacklenLoop.simps [simp del]

definition lpDecodeBacklen :: "listpack \<Rightarrow> nat \<Rightarrow> nat option" where
  "lpDecodeBacklen lp p = lpDecodeBacklenLoop lp p 0 0"

definition lpEncodeString :: "byte list \<Rightarrow> byte list" where
  "lpEncodeString s =
     (let len = length s in
      if len < 64 then (of_nat len OR LP_ENCODING_6BIT_STR) # s
      else if len < 4096 then [of_nat (len div 256) OR LP_ENCODING_12BIT_STR, of_nat len] @ s
      else LP_ENCODING_32BIT_STR # le_bytes 4 (int len) @ s)"

definition LP_ENCODING_6BIT_STR_LEN :: "byte \<Rightarrow> nat" where
  "LP_ENCODING_6BIT_STR_LEN b = unat (b AND 0x3F)"

definition LP_ENCODING_12BIT_STR_LEN :: "listpack \<Rightarrow> nat \<Rightarrow> nat option" where
  "LP_ENCODING_12BIT_STR_LEN lp p =
     do { a \<leftarrow> lp_at lp p; b \<leftarrow> lp_at lp (p + 1); Some (push_bit 8 (unat (a AND 0xF)) OR unat b) }"

definition LP_ENCODING_32BIT_STR_LEN :: "listpack \<Rightarrow> nat \<Rightarrow> nat option" where
  "LP_ENCODING_32BIT_STR_LEN lp p = lp_number lp (p + 1) 4"

definition lpCurrentEncodedSizeUnsafe :: "listpack \<Rightarrow> nat \<Rightarrow> nat option" where
  "lpCurrentEncodedSizeUnsafe lp p =
     do {
       b \<leftarrow> lp_at lp p;
       if LP_ENCODING_IS_7BIT_UINT b then Some 1
       else if LP_ENCODING_IS_6BIT_STR b then Some (1 + LP_ENCODING_6BIT_STR_LEN b)
       else if LP_ENCODING_IS_13BIT_INT b then Some 2
       else if b = LP_ENCODING_16BIT_INT then Some 3
       else if b = LP_ENCODING_24BIT_INT then Some 4
       else if b = LP_ENCODING_32BIT_INT then Some 5
       else if b = LP_ENCODING_64BIT_INT then Some 9
       else if LP_ENCODING_IS_12BIT_STR b then map_option (\<lambda>n. 2 + n) (LP_ENCODING_12BIT_STR_LEN lp p)
       else if b = LP_ENCODING_32BIT_STR then map_option (\<lambda>n. (5 + n) mod 2 ^ 32) (LP_ENCODING_32BIT_STR_LEN lp p)
       else if b = LP_EOF then Some 1
       else Some 0
     }"

definition lpCurrentEncodedSizeBytes :: "listpack \<Rightarrow> nat \<Rightarrow> nat option" where
  "lpCurrentEncodedSizeBytes lp p =
     do {
       b \<leftarrow> lp_at lp p;
       if LP_ENCODING_IS_7BIT_UINT b then Some 1
       else if LP_ENCODING_IS_6BIT_STR b then Some 1
       else if LP_ENCODING_IS_13BIT_INT b then Some 1
       else if b = LP_ENCODING_16BIT_INT then Some 1
       else if b = LP_ENCODING_24BIT_INT then Some 1
       else if b = LP_ENCODING_32BIT_INT then Some 1
       else if b = LP_ENCODING_64BIT_INT then Some 1
       else if LP_ENCODING_IS_12BIT_STR b then Some 2
       else if b = LP_ENCODING_32BIT_STR then Some 5
       else if b = LP_EOF then Some 1
       else Some 0
     }"

section \<open>Moving through a listpack\<close>

definition lpSkip :: "listpack \<Rightarrow> nat \<Rightarrow> nat option" where
  "lpSkip lp p =
     do {
       entrylen \<leftarrow> lpCurrentEncodedSizeUnsafe lp p;
       let entrylen = entrylen + length (lpEncodeBacklen entrylen);
       Some (p + entrylen)
     }"

text \<open>
  \<^verbatim>\<open>lpValidateNext\<close> returns whether the entry at \<open>pp\<close> is valid, and the new value of \<open>pp\<close>;
  \<open>None\<close> in the place of a pointer is the null pointer.
\<close>

definition lp_out_of_range :: "nat \<Rightarrow> nat \<Rightarrow> bool" where
  "lp_out_of_range lpbytes p \<longleftrightarrow> p < LP_HDR_SIZE \<or> p \<ge> lpbytes"

definition lpValidateNext :: "listpack \<Rightarrow> nat option \<Rightarrow> nat \<Rightarrow> (bool \<times> nat option) option" where
  "lpValidateNext lp pp lpbytes =
     (case pp of None \<Rightarrow> Some (False, pp)
      | Some p \<Rightarrow>
          if lp_out_of_range lpbytes p then Some (False, pp)
          else do {
            b \<leftarrow> lp_at lp p;
            if b = LP_EOF then Some (True, None)
            else do {
              lenbytes \<leftarrow> lpCurrentEncodedSizeBytes lp p;
              if lenbytes = 0 then Some (False, pp)
              else if lp_out_of_range lpbytes (p + lenbytes) then Some (False, pp)
              else do {
                entrylen \<leftarrow> lpCurrentEncodedSizeUnsafe lp p;
                let encodedBacklen = length (lpEncodeBacklen entrylen);
                let entrylen = entrylen + encodedBacklen;
                if lp_out_of_range lpbytes (p + entrylen) then Some (False, pp)
                else do {
                  let p = p + entrylen;
                  prevlen \<leftarrow> lpDecodeBacklen lp (p - 1);
                  if (prevlen + encodedBacklen) mod 2 ^ 64 \<noteq> entrylen then Some (False, pp)
                  else Some (True, Some p)
                }
              }
            }
          })"

definition lpAssertValidEntry :: "listpack \<Rightarrow> nat \<Rightarrow> nat \<Rightarrow> unit option" where
  "lpAssertValidEntry lp lpbytes p =
     do { (valid, _) \<leftarrow> lpValidateNext lp (Some p) lpbytes; if valid then Some () else None }"

definition lpNext :: "listpack \<Rightarrow> nat \<Rightarrow> nat option option" where
  "lpNext lp p =
     do {
       p \<leftarrow> lpSkip lp p;
       b \<leftarrow> lp_at lp p;
       if b = LP_EOF then Some None
       else do {
         n \<leftarrow> lpBytes lp;
         lpAssertValidEntry lp n p;
         Some (Some p)
       }
     }"

text \<open>A back length that leads in front of the block leaves the allocation.\<close>

definition lpPrev :: "listpack \<Rightarrow> nat \<Rightarrow> nat option option" where
  "lpPrev lp p =
     (if p = LP_HDR_SIZE then Some None
      else if p = 0 then None
      else do {
        let p = p - 1;
        prevlen \<leftarrow> lpDecodeBacklen lp p;
        let prevlen = (prevlen + length (lpEncodeBacklen prevlen)) mod 2 ^ 64;
        if p + 1 < prevlen then None
        else do {
          let p = p + 1 - prevlen;
          n \<leftarrow> lpBytes lp;
          lpAssertValidEntry lp n p;
          Some (Some p)
        }
      })"

definition lpFirst :: "listpack \<Rightarrow> nat option option" where
  "lpFirst lp =
     do {
       let p = LP_HDR_SIZE;
       b \<leftarrow> lp_at lp p;
       if b = LP_EOF then Some None
       else do { n \<leftarrow> lpBytes lp; lpAssertValidEntry lp n p; Some (Some p) }
     }"

definition lpLast :: "listpack \<Rightarrow> nat option option" where
  "lpLast lp =
     do {
       n \<leftarrow> lpGetTotalBytes lp;
       if n = 0 then None else lpPrev lp (n - 1)
     }"

text \<open>An entry and its back length are never empty, so \<^verbatim>\<open>lpNext\<close> and \<^verbatim>\<open>lpValidateNext\<close> move forward.\<close>

lemma backlen_pos [simp]: "lpEncodeBacklen l \<noteq> []"
  by (simp add: lpEncodeBacklen_def)

lemma lpNext_forward: "lpNext lp p = Some (Some q) \<Longrightarrow> p < q \<and> q < length lp"
  by (auto simp: lpNext_def lpSkip_def lp_at_def bind_eq_Some_conv Let_def split: if_splits)

lemma lpValidateNext_forward: "lpValidateNext lp (Some p) n = Some (True, Some q) \<Longrightarrow> p < q \<and> q < n"
  by (auto simp: lpValidateNext_def lp_out_of_range_def bind_eq_Some_conv Let_def split: if_splits)

lemma lpValidateNext_measure: "lpValidateNext lp (Some p) n = Some (True, Some q) \<Longrightarrow> n - q < n - p"
  using lpValidateNext_forward [of lp p n q] by linarith

function lpLengthLoop :: "listpack \<Rightarrow> nat option \<Rightarrow> nat \<Rightarrow> nat option" where
  "lpLengthLoop lp p count =
     (case p of None \<Rightarrow> Some count
      | Some q \<Rightarrow> do { p \<leftarrow> lpNext lp q; lpLengthLoop lp p ((count + 1) mod 2 ^ 32) })"
  by pat_completeness auto
termination
  by (relation "measure (\<lambda>(lp, p, count). case p of None \<Rightarrow> 0 | Some q \<Rightarrow> Suc (length lp - q))")
    (auto dest: lpNext_forward split: option.split)

declare lpLengthLoop.simps [simp del]

definition lpLength :: "listpack \<Rightarrow> (listpack \<times> nat) option" where
  "lpLength lp =
     do {
       numele \<leftarrow> lpGetNumElements lp;
       if numele \<noteq> LP_HDR_NUMELE_UNKNOWN then Some (lp, numele)
       else do {
         p \<leftarrow> lpFirst lp;
         count \<leftarrow> lpLengthLoop lp p 0;
         lp \<leftarrow> (if count < LP_HDR_NUMELE_UNKNOWN then lpSetNumElements lp count else Some lp);
         Some (lp, count)
       }
     }"

section \<open>Reading an entry\<close>

text \<open>
  A string is returned in place, as its offset and length; an integer either as such or, when
  the caller gives a buffer, as the numeral \<^verbatim>\<open>snprintf\<close> prints.
\<close>

datatype lp_got = Got_str nat nat | Got_int int | Got_buf "byte list"

definition lp_signed :: "int \<Rightarrow> int \<Rightarrow> int \<Rightarrow> int" where
  "lp_signed negstart negmax uval = (if uval \<ge> negstart then - (negmax - uval) - 1 else uval)"

definition lpGet :: "listpack \<Rightarrow> nat \<Rightarrow> bool \<Rightarrow> lp_got option" where
  "lpGet lp p intbuf =
     do {
       b \<leftarrow> lp_at lp p;
       let int_result = (\<lambda>val. Some (if intbuf then Got_buf (dec_int val) else Got_int val));
       let int_bytes = (\<lambda>n. do { u \<leftarrow> lp_number lp (p + 1) n;
         int_result (lp_signed (2 ^ (8 * n - 1)) (2 ^ (8 * n) - 1) (int u)) });
       if LP_ENCODING_IS_7BIT_UINT b then
         int_result (lp_signed (int UINT64_MAX) 0 (int (unat (b AND 0x7f))))
       else if LP_ENCODING_IS_6BIT_STR b then Some (Got_str (p + 1) (LP_ENCODING_6BIT_STR_LEN b))
       else if LP_ENCODING_IS_13BIT_INT b then
         do {
           c \<leftarrow> lp_at lp (p + 1);
           int_result (lp_signed (2 ^ 12) 8191 (int (push_bit 8 (unat (b AND 0x1f)) OR unat c)))
         }
       else if b = LP_ENCODING_16BIT_INT then int_bytes 2
       else if b = LP_ENCODING_24BIT_INT then int_bytes 3
       else if b = LP_ENCODING_32BIT_INT then int_bytes 4
       else if b = LP_ENCODING_64BIT_INT then int_bytes 8
       else if LP_ENCODING_IS_12BIT_STR b then
         map_option (\<lambda>n. Got_str (p + 2) n) (LP_ENCODING_12BIT_STR_LEN lp p)
       else if b = LP_ENCODING_32BIT_STR then
         map_option (\<lambda>n. Got_str (p + 5) n) (LP_ENCODING_32BIT_STR_LEN lp p)
       else int_result (lp_signed (int UINT64_MAX) 0 (12345678900000000 + int (unat b)))
     }"

section \<open>Changing a listpack\<close>

definition lp_malloc :: "mem \<Rightarrow> nat \<Rightarrow> listpack option" where
  "lp_malloc M n = do { sz \<leftarrow> usable_size M n; Some (map (fresh M) [0..<sz]) }"

definition lp_realloc :: "mem \<Rightarrow> listpack \<Rightarrow> nat \<Rightarrow> listpack option" where
  "lp_realloc M lp n = do { sz \<leftarrow> usable_size M n; Some (realloc_bytes (fresh M) lp sz) }"

definition lp_malloc_size :: "listpack \<Rightarrow> nat" where
  "lp_malloc_size lp = length lp"

definition lpNew :: "mem \<Rightarrow> nat \<Rightarrow> listpack option" where
  "lpNew M capacity =
     do {
       lp \<leftarrow> lp_malloc M (if capacity > LP_HDR_SIZE + 1 then capacity else LP_HDR_SIZE + 1);
       lp \<leftarrow> lpSetTotalBytes lp (LP_HDR_SIZE + 1);
       lp \<leftarrow> lpSetNumElements lp 0;
       lp_write lp LP_HDR_SIZE [LP_EOF]
     }"

definition lpShrinkToFit :: "mem \<Rightarrow> listpack \<Rightarrow> listpack option" where
  "lpShrinkToFit M lp =
     do {
       n \<leftarrow> lpGetTotalBytes lp;
       if n < lp_malloc_size lp then lp_realloc M lp n else Some lp
     }"

datatype lp_where = LP_BEFORE | LP_AFTER | LP_REPLACE

text \<open>The result of \<^verbatim>\<open>lpInsert\<close>: the null pointer, or the listpack and what is stored in \<^verbatim>\<open>newp\<close>.\<close>

datatype lp_result = Lp_null | Lp_ok listpack "nat option"

text \<open>The bytes written for an element: its encoding, then its back length.\<close>

definition lpStore :: "listpack \<Rightarrow> nat \<Rightarrow> byte list \<Rightarrow> lp_enc \<Rightarrow> byte list \<Rightarrow> listpack option" where
  "lpStore lp dst ele enc backlen =
     do {
       lp \<leftarrow> (case enc of Enc_int intenc \<Rightarrow> lp_write lp dst intenc
              | Enc_str _ \<Rightarrow> lp_write lp dst (lpEncodeString ele));
       lp_write lp (dst + enclen enc) backlen
     }"

text \<open>The update of the element count at the end of \<^verbatim>\<open>lpInsert\<close>; the subtraction is on 32 bits.\<close>

definition lpCount :: "listpack \<Rightarrow> bool \<Rightarrow> listpack option" where
  "lpCount lp added =
     do {
       num_elements \<leftarrow> lpGetNumElements lp;
       if num_elements \<noteq> LP_HDR_NUMELE_UNKNOWN then
         lpSetNumElements lp (if added then num_elements + 1 else num_elements + 2 ^ 32 - 1)
       else Some lp
     }"

text \<open>
  The reallocations and moves in the middle of \<^verbatim>\<open>lpInsert\<close>: \<open>replaced_len\<close> bytes at \<open>dst\<close> make way for \<open>room\<close>
  bytes.
\<close>

definition lpMakeRoom :: "mem \<Rightarrow> listpack \<Rightarrow> lp_where \<Rightarrow> nat \<Rightarrow> nat \<Rightarrow> nat \<Rightarrow> nat \<Rightarrow> nat \<Rightarrow> listpack option" where
  "lpMakeRoom M lp wh dst room replaced_len old_bytes new_bytes =
     do {
       lp \<leftarrow> (if new_bytes > old_bytes \<and> new_bytes > lp_malloc_size lp then lp_realloc M lp new_bytes else Some lp);
       lp \<leftarrow> (if wh = LP_BEFORE then lp_memmove lp (dst + room) dst (old_bytes - dst)
              else lp_memmove lp (dst + room) (dst + replaced_len) (old_bytes - dst - replaced_len));
       if new_bytes < old_bytes then lp_realloc M lp new_bytes else Some lp
     }"

definition lpInsert :: "mem \<Rightarrow> listpack \<Rightarrow> byte list option \<Rightarrow> nat \<Rightarrow> lp_where \<Rightarrow> lp_result option" where
  "lpInsert M lp ele p wh =
     do {
       let wh = (if ele = None then LP_REPLACE else wh);
       (p, wh) \<leftarrow> (if wh = LP_AFTER then do { p \<leftarrow> lpSkip lp p; ASSERT_INTEGRITY lp p; Some (p, LP_BEFORE) }
                   else Some (p, wh));
       let poff = p;
       let enc = (case ele of Some e \<Rightarrow> lpEncodeGetType e | None \<Rightarrow> Enc_str 0);
       let backlen = (if ele = None then [] else lpEncodeBacklen (enclen enc));
       old_bytes \<leftarrow> lpGetTotalBytes lp;
       replaced_len \<leftarrow> (if wh = LP_REPLACE then
           do {
             n \<leftarrow> lpCurrentEncodedSizeUnsafe lp p;
             let n = (n + length (lpEncodeBacklen n)) mod 2 ^ 32;
             ASSERT_INTEGRITY_LEN lp p n;
             Some n
           } else Some 0);
       let new_bytes = old_bytes + enclen enc + length backlen - replaced_len;
       if new_bytes > 2 ^ 32 - 1 then Some Lp_null
       else if old_bytes < poff then None
       else do {
         let dst = poff;
         lp \<leftarrow> lpMakeRoom M lp wh dst (enclen enc + length backlen) replaced_len old_bytes new_bytes;
         b \<leftarrow> lp_at lp dst;
         let newp = (if ele = None \<and> b = LP_EOF then None else Some dst);
         lp \<leftarrow> (case ele of Some e \<Rightarrow> lpStore lp dst e enc backlen | None \<Rightarrow> Some lp);
         lp \<leftarrow> (if wh \<noteq> LP_REPLACE \<or> ele = None then lpCount lp (ele \<noteq> None) else Some lp);
         lp \<leftarrow> lpSetTotalBytes lp new_bytes;
         Some (Lp_ok lp newp)
       }
     }"

definition lpAppend :: "mem \<Rightarrow> listpack \<Rightarrow> byte list \<Rightarrow> lp_result option" where
  "lpAppend M lp ele =
     do {
       n \<leftarrow> lpGetTotalBytes lp;
       if n = 0 then None else lpInsert M lp (Some ele) (n - 1) LP_BEFORE
     }"

definition lpDelete :: "mem \<Rightarrow> listpack \<Rightarrow> nat \<Rightarrow> lp_result option" where
  "lpDelete M lp p = lpInsert M lp None p LP_REPLACE"

section \<open>Seeking\<close>

fun lpSeekForward :: "listpack \<Rightarrow> nat option \<Rightarrow> nat \<Rightarrow> nat option option" where
  "lpSeekForward lp ele 0 = Some ele"
| "lpSeekForward lp ele (Suc n) =
     (case ele of None \<Rightarrow> Some None | Some p \<Rightarrow> do { ele \<leftarrow> lpNext lp p; lpSeekForward lp ele n })"

fun lpSeekBackward :: "listpack \<Rightarrow> nat option \<Rightarrow> nat \<Rightarrow> nat option option" where
  "lpSeekBackward lp ele 0 = Some ele"
| "lpSeekBackward lp ele (Suc n) =
     (case ele of None \<Rightarrow> Some None | Some p \<Rightarrow> do { ele \<leftarrow> lpPrev lp p; lpSeekBackward lp ele n })"

definition lpSeek :: "listpack \<Rightarrow> int \<Rightarrow> nat option option" where
  "lpSeek lp index =
     do {
       numele \<leftarrow> lpGetNumElements lp;
       let known = (numele \<noteq> LP_HDR_NUMELE_UNKNOWN);
       let index = (if known \<and> index < 0 then int numele + index else index);
       if known \<and> (index < 0 \<or> index \<ge> int numele) then Some None
       else do {
         let forward = (if known then \<not> index > int numele div 2 else \<not> index < 0);
         let index = (if known \<and> \<not> forward then index - int numele else index);
         if forward then do { ele \<leftarrow> lpFirst lp; lpSeekForward lp ele (nat index) }
         else do { ele \<leftarrow> lpLast lp; lpSeekBackward lp ele (nat (- 1 - index)) }
       }
     }"

section \<open>Validation\<close>

definition lpValidateFirst :: "listpack \<Rightarrow> nat option option" where
  "lpValidateFirst lp =
     do { b \<leftarrow> lp_at lp LP_HDR_SIZE; Some (if b = LP_EOF then None else Some LP_HDR_SIZE) }"

text \<open>The loop of the deep check: the number of entries, or no number when one is invalid.\<close>

function lpIntegrityLoop :: "listpack \<Rightarrow> nat option \<Rightarrow> nat \<Rightarrow> nat \<Rightarrow> nat option option" where
  "lpIntegrityLoop lp p bytes count =
     (case p of None \<Rightarrow> Some (Some count)
      | Some q \<Rightarrow>
          do {
            b \<leftarrow> lp_at lp q;
            if b = LP_EOF then Some (Some count)
            else do {
              r \<leftarrow> lpValidateNext lp (Some q) bytes;
              if \<not> fst r then Some None else lpIntegrityLoop lp (snd r) bytes ((count + 1) mod 2 ^ 32)
            }
          })"
  by pat_completeness auto
termination
  by (relation "measure (\<lambda>(lp, p, bytes, count). case p of None \<Rightarrow> 0 | Some q \<Rightarrow> Suc (bytes - q))")
    (auto dest: lpValidateNext_measure split: option.split)

declare lpIntegrityLoop.simps [simp del]

definition lpValidateIntegrity :: "listpack \<Rightarrow> nat \<Rightarrow> bool \<Rightarrow> bool option" where
  "lpValidateIntegrity lp sz deep =
     (if sz < LP_HDR_SIZE + 1 then Some False
      else do {
        bytes \<leftarrow> lpGetTotalBytes lp;
        if bytes \<noteq> sz then Some False
        else do {
          b \<leftarrow> lp_at lp (sz - 1);
          if b \<noteq> LP_EOF then Some False
          else if \<not> deep then Some True
          else do {
            r \<leftarrow> lpIntegrityLoop lp (Some LP_HDR_SIZE) bytes 0;
            case r of None \<Rightarrow> Some False
            | Some count \<Rightarrow>
                do {
                  numele \<leftarrow> lpGetNumElements lp;
                  Some (\<not> (numele \<noteq> LP_HDR_NUMELE_UNKNOWN \<and> numele \<noteq> count))
                }
          }
        }
      })"

end
