(* ===== verification/Listpack_Codec.thy ===== *)
theory Listpack_Codec
  imports Listpack
begin

text \<open>
  The encoding of listpack entries: what the first byte of an entry says, that the back length
  is read back, that every string is read back from its encoding, whether it is stored as
  one of the six integer formats or as one of the three string formats, and that reading an
  entry does not depend on the bytes around it.
\<close>

section \<open>Bit operations on bytes\<close>

text \<open>Tables of all bytes, computed once.\<close>

lemma class_table:
  "list_all (\<lambda>n. LP_ENCODING_IS_7BIT_UINT (of_nat n) = (n < 128) \<and>
     LP_ENCODING_IS_6BIT_STR (of_nat n) = (128 \<le> n \<and> n < 192) \<and>
     LP_ENCODING_IS_13BIT_INT (of_nat n) = (192 \<le> n \<and> n < 224) \<and>
     LP_ENCODING_IS_12BIT_STR (of_nat n) = (224 \<le> n \<and> n < 240) \<and>
     unat ((of_nat n :: byte) AND 127) = n mod 128 \<and> ((of_nat n :: byte) AND 128 = 0) = (n < 128) \<and>
     unat ((of_nat n :: byte) AND 0x3F) = n mod 64 \<and> unat ((of_nat n :: byte) AND 0x1F) = n mod 32 \<and>
     unat ((of_nat n :: byte) AND 0xF) = n mod 16) [0..<256]"
  by code_simp

lemma or_table:
  "list_all (\<lambda>n. unat ((of_nat n :: byte) OR 128) = n + 128) [0..<128]"
  "list_all (\<lambda>n. unat ((of_nat n :: byte) OR 0xC0) = n + 192) [0..<32]"
  "list_all (\<lambda>n. unat ((of_nat n :: byte) OR 0xE0) = n + 224) [0..<16]"
  by code_simp+

lemma byte_of_nat: "(of_nat (unat b) :: byte) = b" "unat b < 256"
  by (simp_all add: unat_less_byte)

lemma list_all_upt: "list_all P [0..<n] \<Longrightarrow> k < n \<Longrightarrow> P k"
  by (simp add: list_all_iff)

lemma class_iff:
  "LP_ENCODING_IS_7BIT_UINT b \<longleftrightarrow> unat b < 128"
  "LP_ENCODING_IS_6BIT_STR b \<longleftrightarrow> 128 \<le> unat b \<and> unat b < 192"
  "LP_ENCODING_IS_13BIT_INT b \<longleftrightarrow> 192 \<le> unat b \<and> unat b < 224"
  "LP_ENCODING_IS_12BIT_STR b \<longleftrightarrow> 224 \<le> unat b \<and> unat b < 240"
  and byte_and:
  "unat (b AND 127) = unat b mod 128" "b AND 128 = 0 \<longleftrightarrow> unat b < 128" "unat (b AND 0x3F) = unat b mod 64"
  "unat (b AND 0x1F) = unat b mod 32" "unat (b AND 0xF) = unat b mod 16"
  using list_all_upt [OF class_table byte_of_nat(2) [of b]] unfolding byte_of_nat(1) by blast+

lemma byte_or:
  "n < 128 \<Longrightarrow> unat ((of_nat n :: byte) OR 128) = n + 128"
  "n < 32 \<Longrightarrow> unat ((of_nat n :: byte) OR 0xC0) = n + 192"
  "n < 16 \<Longrightarrow> unat ((of_nat n :: byte) OR 0xE0) = n + 224"
  by (fact or_table [THEN list_all_upt])+

lemma tag_iff:
  "b = LP_ENCODING_16BIT_INT \<longleftrightarrow> unat b = 241" "b = LP_ENCODING_24BIT_INT \<longleftrightarrow> unat b = 242"
  "b = LP_ENCODING_32BIT_INT \<longleftrightarrow> unat b = 243" "b = LP_ENCODING_64BIT_INT \<longleftrightarrow> unat b = 244"
  "b = LP_ENCODING_32BIT_STR \<longleftrightarrow> unat b = 240" "b = LP_EOF \<longleftrightarrow> unat b = 255"
  by (simp_all add: lp_consts word_unat_eq_iff)

lemma or_push: "x < 2 ^ n \<Longrightarrow> x OR push_bit n y = x + y * (2 ^ n :: nat)"
proof -
  assume "x < 2 ^ n"
  then have "concat_bit n (int x) (int y) = int x OR push_bit n (int y)"
    by (simp add: concat_bit_def take_bit_int_eq_self)
  moreover have "concat_bit n (int x) (int y) = int x + push_bit n (int y)"
    using \<open>x < 2 ^ n\<close> by (simp add: concat_bit_eq take_bit_int_eq_self)
  ultimately have "int (x OR push_bit n y) = int (x + push_bit n y)"
    by (simp add: of_nat_or_eq of_nat_push_bit)
  then show ?thesis by (simp only: of_nat_eq_iff push_bit_eq_mult)
qed

section \<open>Reading does not depend on the surroundings\<close>

lemma lp_at_inside [simp]: "i < length e \<Longrightarrow> lp_at (pre @ e @ post) (length pre + i) = Some (e ! i)"
  by (simp add: lp_at_def nth_append)

lemma lp_at_mono: "lp_at e i = Some b \<Longrightarrow> lp_at (pre @ e @ post) (length pre + i) = Some b"
  by (simp add: lp_at_def nth_append split: if_splits)

lemma get_bytes_inside: "i + n \<le> length e \<Longrightarrow> get_bytes (pre @ e @ post) (length pre + i) n = get_bytes e i n"
  by (simp add: get_bytes_def)

lemma lp_number_mono: "lp_number e i n = Some v \<Longrightarrow> lp_number (pre @ e @ post) (length pre + i) n = Some v"
  by (auto simp: lp_number_def lp_read_def get_bytes_inside split: if_splits)

text \<open>\<open>lp\<close> shows at \<open>p\<close> every byte of \<open>e\<close>.\<close>

definition shows_at :: "listpack \<Rightarrow> nat \<Rightarrow> byte list \<Rightarrow> bool" where
  "shows_at lp p e \<longleftrightarrow> (\<exists>pre post. lp = pre @ e @ post \<and> p = length pre)"

lemma shows_at_0 [simp]: "shows_at e 0 e"
  by (auto simp: shows_at_def)

lemma shows_atD:
  assumes "shows_at lp p e"
  shows "lp_at e 0 = Some b \<Longrightarrow> lp_at lp p = Some b" "lp_at e (Suc 0) = Some b \<Longrightarrow> lp_at lp (Suc p) = Some b"
    "lp_number e (Suc 0) n = Some v \<Longrightarrow> lp_number lp (Suc p) n = Some v"
  using assms lp_at_mono [of e 0] lp_at_mono [of e 1] lp_number_mono [of e 1] by (fastforce simp: shows_at_def)+

text \<open>\<open>y\<close> gives the result of \<open>x\<close>, seen through \<open>g\<close>, wherever \<open>x\<close> has one.\<close>

definition follows :: "('a \<Rightarrow> 'b) \<Rightarrow> 'a option \<Rightarrow> 'b option \<Rightarrow> bool" where
  "follows g x y \<longleftrightarrow> (\<forall>v. x = Some v \<longrightarrow> y = Some (g v))"

lemma follows_Some: "g v = w \<Longrightarrow> follows g (Some v) (Some w)"
  by (simp add: follows_def)

lemma follows_if: "follows g x y \<Longrightarrow> follows g x' y' \<Longrightarrow> follows g (if c then x else x') (if c then y else y')"
  by (simp add: follows_def)

lemma follows_bind: "follows id x y \<Longrightarrow> (\<And>v. follows g (f v) (f' v)) \<Longrightarrow> follows g (Option.bind x f) (Option.bind y f')"
  by (auto simp: follows_def bind_eq_Some_conv)

lemma follows_map: "follows id x y \<Longrightarrow> (\<And>v. g (f v) = f' v) \<Longrightarrow> follows g (map_option f x) (map_option f' y)"
  by (auto simp: follows_def)

lemma follows_read:
  assumes "shows_at lp p e"
  shows "follows id (lp_at e 0) (lp_at lp p)" "follows id (lp_at e (0 + 1)) (lp_at lp (p + 1))"
    "follows id (lp_number e (0 + 1) n) (lp_number lp (p + 1) n)"
  using shows_atD [OF assms] by (simp_all add: follows_def)

lemma follows_12BIT:
  "shows_at lp p e \<Longrightarrow> follows id (LP_ENCODING_12BIT_STR_LEN e 0) (LP_ENCODING_12BIT_STR_LEN lp p)"
  unfolding LP_ENCODING_12BIT_STR_LEN_def by (intro follows_bind follows_read follows_Some) simp_all

lemma follows_32BIT:
  "shows_at lp p e \<Longrightarrow> follows id (LP_ENCODING_32BIT_STR_LEN e 0) (LP_ENCODING_32BIT_STR_LEN lp p)"
  unfolding LP_ENCODING_32BIT_STR_LEN_def by (rule follows_read)

lemmas follows_rules = follows_bind follows_if follows_Some follows_map follows_12BIT follows_32BIT follows_read

lemma size_mono:
  assumes "shows_at lp p e"
  shows "follows id (lpCurrentEncodedSizeUnsafe e 0) (lpCurrentEncodedSizeUnsafe lp p)"
  unfolding lpCurrentEncodedSizeUnsafe_def by (intro follows_rules assms) simp_all

lemma size_bytes_mono:
  assumes "shows_at lp p e"
  shows "follows id (lpCurrentEncodedSizeBytes e 0) (lpCurrentEncodedSizeBytes lp p)"
  unfolding lpCurrentEncodedSizeBytes_def by (intro follows_rules assms) simp_all

text \<open>Where the result of \<^verbatim>\<open>lpGet\<close> lies moves with the entry.\<close>

fun got_at :: "nat \<Rightarrow> lp_got \<Rightarrow> lp_got" where
  "got_at p (Got_str off n) = Got_str (p + off) n"
| "got_at p r = r"

lemma get_mono:
  assumes "shows_at lp p e"
  shows "follows (got_at p) (lpGet e 0 intbuf) (lpGet lp p intbuf)"
  unfolding lpGet_def Let_def by (intro follows_rules assms) simp_all

section \<open>Valid encodings\<close>

text \<open>
  The bytes of one entry without its back length: not the end marker, and as many as the first
  byte announces.
\<close>

definition enc_ok :: "byte list \<Rightarrow> bool" where
  "enc_ok e \<longleftrightarrow> e \<noteq> [] \<and> hd e \<noteq> LP_EOF \<and> length e < 2 ^ 32 \<and> lpCurrentEncodedSizeUnsafe e 0 = Some (length e)"

lemma enc_ok_size: "enc_ok e \<Longrightarrow> shows_at lp p e \<Longrightarrow> lpCurrentEncodedSizeUnsafe lp p = Some (length e)"
  using size_mono by (fastforce simp: enc_ok_def follows_def)

lemma enc_ok_at: "enc_ok e \<Longrightarrow> shows_at lp p e \<Longrightarrow> lp_at lp p = Some (hd e)"
  using shows_atD(1) by (simp add: enc_ok_def lp_at_def hd_conv_nth)

lemma enc_ok_size_bytes:
  assumes "enc_ok e" "shows_at lp p e"
  shows "\<exists>n. lpCurrentEncodedSizeBytes lp p = Some n \<and> 0 < n \<and> n \<le> length e"
proof -
  obtain b e' where e: "e = b # e'" using assms(1) by (cases e) (auto simp: enc_ok_def)
  then have "lp_at e 0 = Some b" by (simp add: lp_at_def)
  then have "\<exists>n. lpCurrentEncodedSizeBytes e 0 = Some n \<and> 0 < n \<and> n \<le> length e"
    using assms(1) e
    by (auto simp: enc_ok_def lpCurrentEncodedSizeBytes_def lpCurrentEncodedSizeUnsafe_def tag_iff class_iff
      LP_ENCODING_32BIT_STR_LEN_def lp_number_def lp_read_def Suc_le_eq split: if_splits)
  then show ?thesis using size_bytes_mono [OF assms(2)] by (auto simp: follows_def)
qed

section \<open>The back length\<close>

lemma length_backlen: "length (lpEncodeBacklen l) \<le> 5"
  by (simp add: lpEncodeBacklen_def)

lemma decode_step:
  assumes "lp_at lp p = Some c" "val < 2 ^ shift"
  shows "lpDecodeBacklenLoop lp p val shift =
    (let val = val + unat c mod 128 * 2 ^ shift in
     if unat c < 128 then Some val else if 28 < shift + 7 then Some UINT64_MAX
     else if p = 0 then None else lpDecodeBacklenLoop lp (p - 1) val (shift + 7))"
  using assms by (subst lpDecodeBacklenLoop.simps) (simp add: byte_and or_push)

text \<open>One more byte of the back length is read, more significant than all before.\<close>

lemma decode_more:
  assumes "lp_at lp (Suc p) = Some (of_nat (l mod 128) OR 128)" "val < 2 ^ shift" "shift \<le> 21"
  shows "lpDecodeBacklenLoop lp (Suc p) val shift = lpDecodeBacklenLoop lp p (val + l mod 128 * 2 ^ shift) (shift + 7)"
  using assms byte_or(1) [of "l mod 128"] by (subst decode_step [OF assms(1,2)]) (simp add: mod_add_self2)

lemma decode_last:
  assumes "lp_at lp p = Some (of_nat l)" "val < 2 ^ shift" "l < 128"
  shows "lpDecodeBacklenLoop lp p val shift = Some (val + l * 2 ^ shift)"
  using assms by (subst decode_step [OF assms(1,2)]) (simp add: unsigned_of_nat take_bit_nat_eq_self)

lemma split_128: "l mod 128 * 2 ^ k + l div 128 * 2 ^ (k + 7) = l * (2 ^ k :: nat)"
proof -
  have "l * 2 ^ k = (l mod 128 + l div 128 * 128) * 2 ^ k" by simp
  then show ?thesis by (simp only: add_mult_distrib power_add) simp
qed

lemma bound_128: "val < 2 ^ k \<Longrightarrow> val + l mod 128 * 2 ^ k < (2 ^ (k + 7) :: nat)"
proof -
  assume "val < 2 ^ k"
  moreover have "l mod 128 * 2 ^ k \<le> 127 * (2 :: nat) ^ k" by (rule mult_right_mono) simp_all
  ultimately have "val + l mod 128 * 2 ^ k < 2 ^ k + 127 * 2 ^ k" by (rule add_less_le_mono)
  then show ?thesis by (simp add: power_add)
qed

text \<open>The base 128 digits of \<open>l\<close>, most significant first, all but the first one marked.\<close>

fun base128 :: "nat \<Rightarrow> nat \<Rightarrow> byte list" where
  "base128 0 l = [of_nat l]"
| "base128 (Suc n) l = base128 n (l div 128) @ [of_nat (l mod 128) OR 128]"

lemma length_base128 [simp]: "length (base128 n l) = Suc n"
  by (induction n arbitrary: l) auto

lemma base128_decode:
  assumes "l < 128 ^ Suc n" "val < 2 ^ shift" "shift + 7 * n \<le> 28"
  shows "lpDecodeBacklenLoop (pre @ base128 n l @ post) (length pre + n) val shift = Some (val + l * 2 ^ shift)"
  using assms
proof (induction n arbitrary: l val shift post)
  case 0
  then show ?case using lp_at_inside [of 0 "[of_nat l]" pre post] by (simp add: decode_last)
next
  case (Suc n)
  let ?c = "of_nat (l mod 128) OR 128 :: byte"
  have "lp_at (pre @ base128 (Suc n) l @ post) (length pre + Suc n) = Some ?c"
    using lp_at_inside [of "Suc n" "base128 (Suc n) l" pre post] by (simp add: nth_append)
  then have "lpDecodeBacklenLoop (pre @ base128 (Suc n) l @ post) (length pre + Suc n) val shift =
      lpDecodeBacklenLoop (pre @ base128 n (l div 128) @ ?c # post) (length pre + n) (val + l mod 128 * 2 ^ shift) (shift + 7)"
    using decode_more [of _ "length pre + n" l val shift] Suc.prems by simp
  also have "\<dots> = Some (val + l mod 128 * 2 ^ shift + l div 128 * 2 ^ (shift + 7))"
    using Suc.prems by (intro Suc.IH bound_128) (simp_all add: div_less_iff_less_mult)
  also have "\<dots> = Some (val + l * 2 ^ shift)" using split_128 [of l shift] by simp
  finally show ?case .
qed

definition backlen_digits :: "nat \<Rightarrow> nat" where
  "backlen_digits l =
     (if l \<le> 127 then 0 else if l < 16383 then Suc 0 else if l < 2097151 then Suc (Suc 0)
      else if l < 268435455 then Suc (Suc (Suc 0)) else Suc (Suc (Suc (Suc 0))))"

lemma backlen_base128: "lpEncodeBacklen l = base128 (backlen_digits l) l"
  by (simp add: lpEncodeBacklen_def backlen_digits_def div_mult2_eq [symmetric])

lemma backlen_digits_bound: "l < 2 ^ 35 \<Longrightarrow> l < 128 ^ Suc (backlen_digits l) \<and> backlen_digits l \<le> 4"
  by (simp add: backlen_digits_def)

lemma backlen_decode:
  assumes "l < 2 ^ 35"
  shows "lpDecodeBacklen (pre @ lpEncodeBacklen l @ post) (length pre + length (lpEncodeBacklen l) - 1) = Some l"
  unfolding backlen_base128 lpDecodeBacklen_def
  using base128_decode [of l "backlen_digits l" 0 0 pre post] backlen_digits_bound [OF assms] by simp

section \<open>Every string is read back from its encoding\<close>

lemma lpStringLoop_eq: "lpStringLoop v p = string2llLoop v p"
  by (induction v p rule: string2llLoop.induct) (simp_all add: is_digit_def ULLONG_MAX_def Let_def)

lemma lpStringToInt64_eq: "lpStringToInt64 s = string2ll s"
  by (simp add: lpStringToInt64_def string2ll_def lpStringLoop_eq Let_def split: list.split)

text \<open>The bytes \<^verbatim>\<open>lpInsert\<close> stores for a string, and the string an encoding stands for.\<close>

definition lp_encode :: "byte list \<Rightarrow> byte list" where
  "lp_encode s = (case lpEncodeGetType s of Enc_int b \<Rightarrow> b | Enc_str _ \<Rightarrow> lpEncodeString s)"

definition lp_value :: "listpack \<Rightarrow> nat \<Rightarrow> byte list option" where
  "lp_value lp p =
     (case lpGet lp p True of
        Some (Got_str off n) \<Rightarrow> if off + n \<le> length lp then Some (get_bytes lp off n) else None
      | Some (Got_buf s) \<Rightarrow> Some s
      | _ \<Rightarrow> None)"

definition encodes :: "byte list \<Rightarrow> byte list \<Rightarrow> bool" where
  "encodes e s \<longleftrightarrow> enc_ok e \<and> lp_value e 0 = Some s"

lemma value_mono:
  assumes "shows_at lp p e" "lp_value e 0 = Some s"
  shows "lp_value lp p = Some s"
proof -
  obtain r where r: "lpGet e 0 True = Some r" using assms(2) by (auto simp: lp_value_def split: option.splits)
  then have "lpGet lp p True = Some (got_at p r)" using get_mono [OF assms(1)] by (auto simp: follows_def)
  moreover obtain pre post where "lp = pre @ e @ post" "p = length pre" using assms(1) by (auto simp: shows_at_def)
  ultimately show ?thesis
    using assms(2) r by (cases r) (auto simp: lp_value_def get_bytes_inside split: if_splits)
qed

lemma lp_number_tag: "lp_number (t # le_bytes n w @ post) (Suc 0) n = Some (nat (w mod 256 ^ n))"
  by (simp add: lp_number_def lp_read_def get_bytes_def le_uint_le_bytes)

lemma lp_signed_mod:
  assumes "0 < k" "- (2 ^ (k - 1)) \<le> v" "v < 2 ^ (k - 1)"
  shows "lp_signed (2 ^ (k - 1)) (2 ^ k - 1) (v mod 2 ^ k) = v"
proof -
  have k: "(2 :: int) ^ k = 2 * 2 ^ (k - 1)" using assms(1) by (cases k) auto
  show ?thesis
  proof (cases "v < 0")
    case True
    then have "v mod 2 ^ k = v + 2 ^ k"
      using assms k by (intro mod_pos_pos_trivial [of "v + 2 ^ k" "2 ^ k", simplified mod_add_self2]) auto
    then show ?thesis using True assms k by (simp add: lp_signed_def)
  next
    case False
    then have "v mod 2 ^ k = v" using assms k by (intro mod_pos_pos_trivial) auto
    then show ?thesis using False assms by (simp add: lp_signed_def)
  qed
qed

lemma encodes_tagged:
  assumes "(t, n) \<in> {(LP_ENCODING_16BIT_INT, 2), (LP_ENCODING_24BIT_INT, 3), (LP_ENCODING_32BIT_INT, 4), (LP_ENCODING_64BIT_INT, 8)}"
    "- (2 ^ (8 * n - 1)) \<le> v" "v < 2 ^ (8 * n - 1)" "w mod 256 ^ n = v mod 256 ^ n"
  shows "encodes (t # le_bytes n w) (dec_int v)"
proof -
  have "0 < 8 * n" "(256 :: int) ^ n = 2 ^ (8 * n)" using assms(1) by (auto simp: power_mult)
  then have "lp_signed (2 ^ (8 * n - 1)) (2 ^ (8 * n) - 1) (w mod 256 ^ n) = v"
    using lp_signed_mod [of "8 * n" v] assms by simp
  moreover have "0 \<le> w mod 256 ^ n" by simp
  ultimately show ?thesis
    using assms(1) lp_number_tag [of t n w "[]"]
    by (auto simp: encodes_def enc_ok_def lp_value_def lpCurrentEncodedSizeUnsafe_def lpGet_def lp_at_def lp_consts
      LP_ENCODING_IS_7BIT_UINT_def LP_ENCODING_IS_6BIT_STR_def LP_ENCODING_IS_13BIT_INT_def Let_def)
qed

lemma encodes_wrapped:
  assumes "(t, n) \<in> {(LP_ENCODING_16BIT_INT, 2), (LP_ENCODING_24BIT_INT, 3), (LP_ENCODING_32BIT_INT, 4), (LP_ENCODING_64BIT_INT, 8)}"
    "- (2 ^ (8 * n - 1)) \<le> v" "v < 2 ^ (8 * n - 1)"
  shows "encodes (t # le_bytes n (if v < 0 then 256 ^ n + v else v)) (dec_int v)"
  by (rule encodes_tagged [OF assms]) simp

lemma encodes_small: "0 \<le> v \<Longrightarrow> v \<le> 127 \<Longrightarrow> encodes [word_of_int v] (dec_int v)"
  by (simp add: encodes_def enc_ok_def lp_value_def lpCurrentEncodedSizeUnsafe_def lpGet_def lp_at_def class_iff byte_and
    tag_iff unsigned_of_int take_bit_int_eq_self lp_signed_def UINT64_MAX_def nat_less_iff)

lemma unat_word_of_int_byte: "0 \<le> w \<Longrightarrow> w < 256 \<Longrightarrow> unat (word_of_int w :: byte) = nat w"
  by (simp add: unsigned_of_int take_bit_int_eq_self)

lemma mod_192: "x < 32 \<Longrightarrow> (x + 192) mod 32 = (x :: nat)"
  using mod_mult_self1 [of x 6 32] by simp

lemma encodes_13bit:
  assumes "- 4096 \<le> v" "v \<le> 4095" "w = (if v < 0 then 2 ^ 13 + v else v)"
  shows "encodes [word_of_int (w div 256) OR LP_ENCODING_13BIT_INT, word_of_int w] (dec_int v)"
proof -
  let ?a = "word_of_int (w div 256) OR 0xC0 :: byte"
  have w: "0 \<le> w" "w < 8192" using assms by auto
  have wm: "w mod 2 ^ 13 = v mod 2 ^ 13" unfolding assms(3) by simp
  have "w div 256 = int (nat (w div 256))" "nat (w div 256) < 32" using w by auto
  then have a: "unat ?a = nat (w div 256) + 192" by (metis byte_or(2) of_int_of_nat_eq)
  have "int (unat (word_of_int w :: byte)) = w mod 256" by (simp add: unsigned_of_int take_bit_eq_mod)
  then have b: "unat (word_of_int w :: byte) = nat (w mod 256)" by linarith
  have "push_bit 8 (nat (w div 256)) OR nat (w mod 256) = nat (w mod 256) OR push_bit 8 (nat (w div 256))"
    by (rule or.commute)
  also have "\<dots> = nat (w mod 256) + nat (w div 256) * 2 ^ 8"
    using or_push [of "nat (w mod 256)" 8 "nat (w div 256)"] by simp
  also have "\<dots> = nat w" using w(1) by (simp add: nat_mod_distrib nat_div_distrib)
  finally have num: "push_bit 8 (nat (w div 256)) OR nat (w mod 256) = nat w" .
  have "lp_signed (2 ^ 12) 8191 w = v" using lp_signed_mod [of 13 v] wm w assms(1,2) by simp
  moreover have "nat (w div 256) < 32" using w by auto
  moreover from this have "(nat (w div 256) + 192) mod 32 = nat (w div 256)" by (rule mod_192)
  ultimately show ?thesis
    using a b num w(1)
    by (simp add: encodes_def enc_ok_def lp_value_def lpCurrentEncodedSizeUnsafe_def lpGet_def lp_at_def class_iff
      byte_and tag_iff LP_ENCODING_13BIT_INT_def mod_less)
qed

lemma lpEncodeString_correct:
  assumes "length s + 5 < 2 ^ 32"
  shows "encodes (lpEncodeString s) s"
proof -
  consider "length s < 64" | "64 \<le> length s" "length s < 4096" | "4096 \<le> length s" by linarith
  then show ?thesis
  proof cases
    case 1
    then have "unat (of_nat (length s) OR 0x80 :: byte) = length s + 128" using byte_or(1) by simp
    then show ?thesis using 1
      by (simp add: encodes_def enc_ok_def lp_value_def lpEncodeString_def lpCurrentEncodedSizeUnsafe_def lpGet_def
        lp_at_def class_iff tag_iff LP_ENCODING_6BIT_STR_def LP_ENCODING_6BIT_STR_LEN_def byte_and mod_add_self2 get_bytes_def
        Let_def mod_if)
  next
    case 2
    let ?n = "length s"
    have a: "unat (of_nat (?n div 256) OR 0xE0 :: byte) = ?n div 256 + 224" using byte_or(3) [of "?n div 256"] 2 by simp
    have b: "unat (of_nat ?n :: byte) = ?n mod 256" by (simp add: unsigned_of_nat take_bit_eq_mod)
    have "push_bit 8 (?n div 256) OR ?n mod 256 = ?n mod 256 OR push_bit 8 (?n div 256)" by (rule or.commute)
    also have "\<dots> = ?n" using or_push [of "?n mod 256" 8 "?n div 256"] by simp
    finally have num: "push_bit 8 (?n div 256) OR ?n mod 256 = ?n" .
    have "(?n div 256 + 224) mod 16 = ?n div 256" using 2 by (simp add: mod_if)
    then show ?thesis using 2 a b num
      by (simp add: encodes_def enc_ok_def lp_value_def lpEncodeString_def lpCurrentEncodedSizeUnsafe_def lpGet_def
        lp_at_def class_iff tag_iff LP_ENCODING_12BIT_STR_def LP_ENCODING_12BIT_STR_LEN_def byte_and get_bytes_def Let_def)
  next
    case 3
    have "lp_number (LP_ENCODING_32BIT_STR # le_bytes 4 (int (length s)) @ s) (Suc 0) 4 = Some (length s)"
      using assms by (simp add: lp_number_tag)
    then show ?thesis using 3 assms
      by (simp add: encodes_def enc_ok_def lp_value_def lpEncodeString_def lpCurrentEncodedSizeUnsafe_def lpGet_def
        lp_at_def LP_ENCODING_IS_7BIT_UINT_def LP_ENCODING_IS_6BIT_STR_def LP_ENCODING_IS_13BIT_INT_def
        LP_ENCODING_IS_12BIT_STR_def lp_consts LP_ENCODING_32BIT_STR_LEN_def get_bytes_def Let_def)
  qed
qed

lemma encodes_lp_encode:
  assumes "length s + 5 < 2 ^ 32"
  shows "encodes (lp_encode s) s"
proof (cases "lpStringToInt64 s")
  case None
  then have "lp_encode s = lpEncodeString s" by (simp add: lp_encode_def lpEncodeGetType_def)
  then show ?thesis using lpEncodeString_correct [OF assms] by simp
next
  case (Some v)
  then have v: "LLONG_MIN \<le> v" "v \<le> LLONG_MAX" "s = dec_int v"
    by (simp_all add: lpStringToInt64_eq string2ll_iff is_int64_def)
  consider "0 \<le> v \<and> v \<le> 127" | "\<not> (0 \<le> v \<and> v \<le> 127)" "- 4096 \<le> v \<and> v \<le> 4095"
    | "\<not> (- 4096 \<le> v \<and> v \<le> 4095)" "- 32768 \<le> v \<and> v \<le> 32767"
    | "\<not> (- 32768 \<le> v \<and> v \<le> 32767)" "- 8388608 \<le> v \<and> v \<le> 8388607"
    | "\<not> (- 8388608 \<le> v \<and> v \<le> 8388607)" "- 2147483648 \<le> v \<and> v \<le> 2147483647"
    | "\<not> (- 2147483648 \<le> v \<and> v \<le> 2147483647)" by blast
  then show ?thesis
  proof cases
    case 1
    then show ?thesis using v(3) Some encodes_small by (simp add: lp_encode_def lpEncodeGetType_def)
  next
    case 2
    then show ?thesis using v(3) Some encodes_13bit [of v] by (auto simp: lp_encode_def lpEncodeGetType_def Let_def)
  next
    case 3
    then show ?thesis using v(3) Some encodes_wrapped [of LP_ENCODING_16BIT_INT 2 v]
      by (auto simp: lp_encode_def lpEncodeGetType_def Let_def)
  next
    case 4
    then show ?thesis using v(3) Some encodes_wrapped [of LP_ENCODING_24BIT_INT 3 v]
      by (auto simp: lp_encode_def lpEncodeGetType_def Let_def)
  next
    case 5
    then show ?thesis using v(3) Some encodes_wrapped [of LP_ENCODING_32BIT_INT 4 v]
      by (auto simp: lp_encode_def lpEncodeGetType_def Let_def)
  next
    case 6
    then show ?thesis using v Some encodes_tagged [of LP_ENCODING_64BIT_INT 8 v "v mod 2 ^ 64"]
      by (auto simp: lp_encode_def lpEncodeGetType_def Let_def c_limits)
  qed
qed

lemma enclen_lp_encode: "enclen (lpEncodeGetType s) = length (lp_encode s)"
  by (simp add: lp_encode_def lpEncodeGetType_def lpEncodeString_def Let_def split: option.split)

lemma lp_encode_length: "length (lp_encode s) \<le> length s + 9"
  by (simp add: lp_encode_def lpEncodeGetType_def lpEncodeString_def Let_def split: option.split)

text \<open>
  C15: every string of less than \<open>2 ^ 32 - 5\<close> bytes is encoded into an entry of the length announced by
  its first byte, from which \<^verbatim>\<open>lpGet\<close> gives the same string, anywhere in a listpack; numerals of 64 bit
  integers are stored as integers and printed again.
\<close>

theorem lp_encoding_roundtrip:
  assumes "length s + 5 < 2 ^ 32"
  shows "lpCurrentEncodedSizeUnsafe (pre @ lp_encode s @ post) (length pre) = Some (length (lp_encode s)) \<and>
    lp_value (pre @ lp_encode s @ post) (length pre) = Some s"
proof -
  have at: "shows_at (pre @ lp_encode s @ post) (length pre) (lp_encode s)" by (auto simp: shows_at_def)
  then show ?thesis
    using encodes_lp_encode [OF assms] enc_ok_size [OF _ at] value_mono [OF at] by (simp add: encodes_def)
qed

theorem lp_encoding_roundtrip_witness:
  "lpCurrentEncodedSizeUnsafe ([1, 2] @ lp_encode [45, 51, 48, 48] @ [255]) (length [1, 2 :: byte]) =
      Some (length (lp_encode [45, 51, 48, 48])) \<and>
    lp_value ([1, 2] @ lp_encode [45, 51, 48, 48] @ [255]) (length [1, 2 :: byte]) = Some [45, 51, 48, 48]"
  by (rule lp_encoding_roundtrip) simp

end
