(* ===== verification/Listpack_Ops.thy ===== *)
theory Listpack_Ops
  imports Listpack_Codec Refinement
begin

text \<open>
  A listpack is a list of strings.  \<open>lp_rep lp es\<close> says that the bytes \<open>lp\<close> hold exactly the entries
  whose encodings are \<open>es\<close>, behind a correct header and before the end marker; moving, seeking,
  counting, inserting, replacing and deleting are shown to do to the list what their names say,
  and the whole is an instance of the contract of theory \<open>Refinement\<close>.  The last section treats the
  integrity check.
\<close>

section \<open>The bytes of a list of entries\<close>

definition entry :: "byte list \<Rightarrow> byte list" where
  "entry e = e @ lpEncodeBacklen (length e)"

definition lp_body :: "byte list list \<Rightarrow> byte list" where
  "lp_body es = concat (map entry es)"

definition lp_hdr :: "nat \<Rightarrow> nat \<Rightarrow> byte list" where
  "lp_hdr n num = le_bytes 4 (int n) @ le_bytes 2 (int num)"

definition lp_total :: "byte list list \<Rightarrow> nat" where
  "lp_total es = 7 + length (lp_body es)"

definition lp_rep :: "listpack \<Rightarrow> byte list list \<Rightarrow> bool" where
  "lp_rep lp es \<longleftrightarrow> list_all enc_ok es \<and> lp_total es < 2 ^ 32 \<and>
     (\<exists>num rest. lp = lp_hdr (lp_total es) num @ lp_body es @ LP_EOF # rest \<and>
        num \<le> 65535 \<and> (num = length es \<or> num = 65535))"

text \<open>The offset of entry \<open>i\<close>; the one behind the last entry is that of the end marker.\<close>

definition lp_off :: "byte list list \<Rightarrow> nat \<Rightarrow> nat" where
  "lp_off es i = 6 + length (lp_body (take i es))"

lemma lp_body_simps [simp]:
  "lp_body [] = []" "lp_body (e # es) = entry e @ lp_body es" "lp_body (es @ fs) = lp_body es @ lp_body fs"
  by (simp_all add: lp_body_def)

lemma length_hdr [simp]: "length (lp_hdr n num) = 6"
  by (simp add: lp_hdr_def)

lemma entry_longer: "length e < length (entry e)"
  by (simp add: entry_def)

lemma lp_off_0 [simp]: "lp_off es 0 = 6"
  by (simp add: lp_off_def)

lemma lp_off_Suc: "i < length es \<Longrightarrow> lp_off es (Suc i) = lp_off es i + length (entry (es ! i))"
  by (simp add: lp_off_def take_Suc_conv_app_nth)

lemma lp_off_length: "lp_off es (length es) = lp_total es - 1"
  by (simp add: lp_off_def lp_total_def)

lemma lp_off_mono: "i \<le> j \<Longrightarrow> lp_off es i \<le> lp_off es j"
proof -
  assume "i \<le> j"
  then have "take j es = take i es @ take (j - i) (drop i es)" by (metis add_diff_inverse_nat not_less take_add)
  then show ?thesis by (simp add: lp_off_def)
qed

lemma lp_off_less: "i < length es \<Longrightarrow> lp_off es i + length (es ! i) < lp_off es (Suc i)"
  using entry_longer [of "es ! i"] by (simp add: lp_off_Suc)

lemma lp_off_bound: "i \<le> length es \<Longrightarrow> lp_off es i < lp_total es"
  using lp_off_mono [of i "length es" es] by (simp add: lp_off_length lp_total_def)

lemma lp_off_eq_6: "i \<le> length es \<Longrightarrow> lp_off es i = 6 \<longleftrightarrow> i = 0"
proof (cases i)
  case (Suc j)
  moreover assume "i \<le> length es"
  ultimately have "lp_off es j + length (es ! j) < lp_off es i" using lp_off_less by simp
  moreover have "6 \<le> lp_off es j" by (simp add: lp_off_def)
  ultimately show ?thesis using Suc by simp
qed simp

lemma split_entry:
  assumes "i < length es"
  shows "lp_hdr n num @ lp_body es @ tail =
    (lp_hdr n num @ lp_body (take i es)) @ es ! i @ lpEncodeBacklen (length (es ! i)) @ lp_body (drop (Suc i) es) @ tail"
proof -
  have "lp_body es = lp_body (take i es @ es ! i # drop (Suc i) es)" using assms by (simp add: id_take_nth_drop [symmetric])
  then show ?thesis by (simp add: entry_def)
qed

lemma le_number: "v < 256 ^ n \<Longrightarrow> lp_number (pre @ le_bytes n (int v) @ post) (length pre) n = Some v"
proof -
  assume "v < 256 ^ n"
  then have "int v < 256 ^ n" by (metis of_nat_less_iff of_nat_numeral of_nat_power)
  then show ?thesis by (simp add: lp_number_def lp_read_def get_bytes_def le_uint_le_bytes)
qed

lemma hdr_fields:
  assumes "n < 2 ^ 32" "num \<le> 65535"
  shows "lpGetTotalBytes (lp_hdr n num @ tail) = Some n" "lpGetNumElements (lp_hdr n num @ tail) = Some num"
  using le_number [of n 4 "[]" "le_bytes 2 (int num) @ tail"] le_number [of num 2 "le_bytes 4 (int n)" tail] assms
  by (simp_all add: lpGetTotalBytes_def lpGetNumElements_def lp_hdr_def)

section \<open>Moving\<close>

lemma lp_repE:
  assumes "lp_rep lp es"
  obtains num rest where "lp = lp_hdr (lp_total es) num @ lp_body es @ LP_EOF # rest" "num \<le> 65535"
    "num = length es \<or> num = 65535" "lpGetTotalBytes lp = Some (lp_total es)" "lpGetNumElements lp = Some num"
    "lp_total es < 2 ^ 32" "list_all enc_ok es"
  using assms hdr_fields unfolding lp_rep_def by metis

lemma rep_total: "lp_rep lp es \<Longrightarrow> lpGetTotalBytes lp = Some (lp_total es) \<and> lpBytes lp = Some (lp_total es)"
  by (erule lp_repE) (simp add: lpBytes_def)

lemma rep_eof: "lp_rep lp es \<Longrightarrow> lp_at lp (lp_total es - 1) = Some LP_EOF"
  by (erule lp_repE) (simp add: lp_at_def lp_total_def nth_append)

lemma rep_entry:
  assumes "lp_rep lp es" "i < length es"
  shows "enc_ok (es ! i)" "shows_at lp (lp_off es i) (es ! i)"
    "lpDecodeBacklen lp (lp_off es (Suc i) - 1) = Some (length (es ! i))"
proof -
  obtain num rest where lp: "lp = lp_hdr (lp_total es) num @ lp_body es @ LP_EOF # rest" "list_all enc_ok es"
    using assms(1) by (rule lp_repE)
  show ok: "enc_ok (es ! i)" using lp(2) assms(2) by (simp add: list_all_length)
  let ?pre = "lp_hdr (lp_total es) num @ lp_body (take i es)" and ?b = "lpEncodeBacklen (length (es ! i))"
  note split = lp(1) [unfolded split_entry [OF assms(2)]]
  have off: "lp_off es i = length ?pre" by (simp add: lp_off_def)
  then show "shows_at lp (lp_off es i) (es ! i)" unfolding shows_at_def using split by blast
  have "lp_off es (Suc i) - 1 = length (?pre @ es ! i) + length ?b - 1"
    unfolding lp_off_Suc [OF assms(2)] off by (simp add: entry_def)
  moreover have "lp = (?pre @ es ! i) @ ?b @ lp_body (drop (Suc i) es) @ LP_EOF # rest" using split by simp
  moreover have "length (es ! i) < 2 ^ 35" using ok by (simp add: enc_ok_def)
  ultimately show "lpDecodeBacklen lp (lp_off es (Suc i) - 1) = Some (length (es ! i))"
    using backlen_decode by metis
qed

lemma rep_skip:
  assumes "lp_rep lp es" "i < length es"
  shows "lpSkip lp (lp_off es i) = Some (lp_off es (Suc i))"
  using enc_ok_size [OF rep_entry(1,2) [OF assms]] lp_off_Suc [OF assms(2)] by (simp add: lpSkip_def entry_def)

lemma rep_validate:
  assumes "lp_rep lp es" "i < length es"
  shows "lpValidateNext lp (Some (lp_off es i)) (lp_total es) = Some (True, Some (lp_off es (Suc i)))"
proof -
  note e = rep_entry [OF assms]
  obtain lb where lb: "lpCurrentEncodedSizeBytes lp (lp_off es i) = Some lb" "0 < lb" "lb \<le> length (es ! i)"
    using enc_ok_size_bytes [OF e(1,2)] by blast
  have nx: "lp_off es (Suc i) < lp_total es" using assms(2) by (simp add: lp_off_bound)
  then have "\<not> lp_out_of_range (lp_total es) (lp_off es i)" "\<not> lp_out_of_range (lp_total es) (lp_off es i + lb)"
    "\<not> lp_out_of_range (lp_total es) (lp_off es (Suc i))"
    using lp_off_less [OF assms(2)] lb(3) by (auto simp: lp_out_of_range_def lp_off_def LP_HDR_SIZE_def)
  moreover have "hd (es ! i) \<noteq> LP_EOF" using e(1) by (simp add: enc_ok_def)
  moreover have "length (entry (es ! i)) < 2 ^ 64"
    using e(1) length_backlen [of "length (es ! i)"] by (simp add: enc_ok_def entry_def)
  ultimately show ?thesis
    using enc_ok_at [OF e(1,2)] enc_ok_size [OF e(1,2)] lb e(3) unfolding lp_off_Suc [OF assms(2)]
    by (simp add: lpValidateNext_def entry_def)
qed

lemma rep_assert: "lp_rep lp es \<Longrightarrow> i < length es \<Longrightarrow> lpAssertValidEntry lp (lp_total es) (lp_off es i) = Some ()"
  by (simp add: lpAssertValidEntry_def rep_validate)

text \<open>The pointer to entry \<open>i\<close>, or null.\<close>

definition lp_ptr :: "byte list list \<Rightarrow> nat \<Rightarrow> nat option" where
  "lp_ptr es i = (if i < length es then Some (lp_off es i) else None)"

lemma rep_at:
  assumes "lp_rep lp es" "i \<le> length es"
  shows "\<exists>b. lp_at lp (lp_off es i) = Some b \<and> (b = LP_EOF \<longleftrightarrow> i = length es)"
proof (cases "i < length es")
  case True
  then show ?thesis using enc_ok_at [OF rep_entry(1,2) [OF assms(1) True]] rep_entry(1) [OF assms(1) True]
    by (simp add: enc_ok_def)
next
  case False
  then show ?thesis using assms rep_eof [OF assms(1)] by (simp add: lp_off_length)
qed

lemma rep_next:
  assumes "lp_rep lp es" "i < length es"
  shows "lpNext lp (lp_off es i) = Some (lp_ptr es (Suc i))"
  using rep_at [OF assms(1), of "Suc i"] rep_skip [OF assms] rep_assert [OF assms(1), of "Suc i"] rep_total [OF assms(1)] assms(2)
  by (auto simp: lpNext_def lp_ptr_def)

lemma rep_first: "lp_rep lp es \<Longrightarrow> lpFirst lp = Some (lp_ptr es 0)"
  using rep_at [of lp es 0] rep_assert [of lp es 0] rep_total [of lp es]
  by (auto simp: lpFirst_def lp_ptr_def LP_HDR_SIZE_def)

lemma rep_prev:
  assumes "lp_rep lp es" "i \<le> length es"
  shows "lpPrev lp (lp_off es i) = Some (if i = 0 then None else Some (lp_off es (i - 1)))"
proof (cases i)
  case 0
  then show ?thesis by (simp add: lpPrev_def LP_HDR_SIZE_def)
next
  case (Suc j)
  then have j: "j < length es" using assms(2) by simp
  have "lp_off es i \<noteq> LP_HDR_SIZE" "lp_off es i \<noteq> 0"
    using lp_off_eq_6 [OF assms(2)] Suc by (auto simp: LP_HDR_SIZE_def lp_off_def)
  moreover have "length (entry (es ! j)) < 2 ^ 64"
    using rep_entry(1) [OF assms(1) j] length_backlen [of "length (es ! j)"] by (simp add: enc_ok_def entry_def)
  ultimately show ?thesis
    using rep_entry(3) [OF assms(1) j] rep_assert [OF assms(1) j] rep_total [OF assms(1)] Suc
    unfolding lp_off_Suc [OF j] by (simp add: lpPrev_def entry_def lp_off_Suc [OF j])
qed

lemma rep_last: "lp_rep lp es \<Longrightarrow> lpLast lp = Some (if es = [] then None else Some (lp_off es (length es - 1)))"
  using rep_prev [of lp es "length es"] rep_total [of lp es] by (simp add: lpLast_def lp_off_length lp_total_def)

section \<open>Seeking and counting\<close>

lemma seek_forward:
  "lp_rep lp es \<Longrightarrow> lpSeekForward lp (lp_ptr es i) n = Some (lp_ptr es (i + n))"
proof (induction n arbitrary: i)
  case (Suc n)
  show ?case
  proof (cases "i < length es")
    case True
    then show ?thesis using rep_next [OF Suc.prems True] Suc.IH [OF Suc.prems, of "Suc i"] by (simp add: lp_ptr_def [of es i])
  qed (simp add: lp_ptr_def)
qed simp

lemma seek_backward:
  assumes "lp_rep lp es" "i \<le> length es"
  shows "lpSeekBackward lp (if i = 0 then None else Some (lp_off es (i - 1))) n =
    Some (if i \<le> n then None else Some (lp_off es (i - n - 1)))"
  using assms(2)
proof (induction n arbitrary: i)
  case (Suc n)
  show ?case
  proof (cases i)
    case (Suc j)
    then show ?thesis using rep_prev [OF assms(1), of j] Suc.IH [of j] Suc.prems by simp
  qed simp
qed simp

text \<open>The position an index means: from the end when it is negative.\<close>

definition seek_pos :: "int \<Rightarrow> nat \<Rightarrow> nat option" where
  "seek_pos index n =
     (let j = (if index < 0 then int n + index else index) in if 0 \<le> j \<and> j < int n then Some (nat j) else None)"

lemma rep_seek:
  assumes "lp_rep lp es"
  shows "lpSeek lp index = Some (map_option (lp_off es) (seek_pos index (length es)))"
proof -
  obtain num where num: "lpGetNumElements lp = Some num" "num = length es \<or> num = 65535"
    using assms by (rule lp_repE)
  let ?n = "length es"
  have fwd: "do { ele \<leftarrow> lpFirst lp; lpSeekForward lp ele k } = Some (lp_ptr es k)" for k
    using rep_first [OF assms] seek_forward [OF assms, of 0] by simp
  have bwd: "do { ele \<leftarrow> lpLast lp; lpSeekBackward lp ele k } = Some (if ?n \<le> k then None else Some (lp_off es (?n - k - 1)))" for k
    using rep_last [OF assms] seek_backward [OF assms, of ?n k] by simp
  show ?thesis
  proof (cases "num = LP_HDR_NUMELE_UNKNOWN")
    case True
    show ?thesis
    proof (cases "index < 0")
      case neg: True
      have "?n - nat (- 1 - index) - 1 = nat (int ?n + index)" "?n \<le> nat (- 1 - index) \<longleftrightarrow> \<not> 0 \<le> int ?n + index"
        using neg by linarith+
      then show ?thesis using neg True num(1) bwd by (simp add: lpSeek_def seek_pos_def)
    next
      case False
      then show ?thesis using True num(1) fwd by (simp add: lpSeek_def seek_pos_def lp_ptr_def nat_less_iff)
    qed
  next
    case False
    then have n: "num = ?n" using num(2) by (simp add: LP_HDR_NUMELE_UNKNOWN_def)
    define j where "j = (if index < 0 then int ?n + index else index)"
    have *: "lpSeek lp index = (if j < 0 \<or> int ?n \<le> j then Some None
      else if \<not> j > int ?n div 2 then Some (lp_ptr es (nat j)) 
      else Some (if ?n \<le> nat (- 1 - (j - int ?n)) then None else Some (lp_off es (?n - nat (- 1 - (j - int ?n)) - 1))))"
      using False n num(1) fwd bwd by (simp add: lpSeek_def j_def [symmetric]) linarith
    have "?n - nat (- 1 - (j - int ?n)) - 1 = nat j" "\<not> ?n \<le> nat (- 1 - (j - int ?n))" if "0 \<le> j" "j < int ?n"
      using that by linarith+
    then show ?thesis unfolding * by (auto simp: seek_pos_def j_def [symmetric] lp_ptr_def nat_less_iff)
  qed
qed

lemma length_loop:
  assumes "lp_rep lp es" "count + length es < 2 ^ 32"
  shows "i \<le> length es \<Longrightarrow> lpLengthLoop lp (lp_ptr es i) (count + i) = Some (count + length es)"
proof (induction "length es - i" arbitrary: i)
  case 0
  then show ?case by (subst lpLengthLoop.simps) (simp add: lp_ptr_def)
next
  case (Suc n)
  then have i: "i < length es" by simp
  have "lpLengthLoop lp (lp_ptr es i) (count + i) = lpLengthLoop lp (lp_ptr es (Suc i)) (count + Suc i)"
    using rep_next [OF assms(1) i] i assms(2) by (subst lpLengthLoop.simps) (simp add: lp_ptr_def [of es i])
  then show ?case using Suc.hyps(1) [of "Suc i"] Suc.hyps(2) i by simp
qed

lemma length_body: "length es \<le> length (lp_body es)"
proof (induction es)
  case (Cons e es)
  have "0 < length (entry e)" using entry_longer [of e] by linarith
  then show ?case using Cons by (simp only: lp_body_simps length_append list.size)
qed simp

lemma write_at: "length z = length y \<Longrightarrow> lp_write (pre @ z @ post) (length pre) y = Some (pre @ y @ post)"
  by (simp add: lp_write_def put_bytes_def)

lemma set_num: "lpSetNumElements (lp_hdr n num @ tail) num' = Some (lp_hdr n num' @ tail)"
  using write_at [of "le_bytes 2 (int num)" "le_bytes 2 (int num')" "le_bytes 4 (int n)" tail]
  by (simp add: lpSetNumElements_def lp_hdr_def)

lemma set_total: "lpSetTotalBytes (lp_hdr n num @ tail) n' = Some (lp_hdr n' num @ tail)"
  using write_at [of "le_bytes 4 (int n)" "le_bytes 4 (int n')" "[]" "le_bytes 2 (int num) @ tail"]
  by (simp add: lpSetTotalBytes_def lp_hdr_def)

lemma rep_length:
  assumes "lp_rep lp es"
  shows "\<exists>lp'. lpLength lp = Some (lp', length es) \<and> lp_rep lp' es"
proof -
  obtain num rest where lp: "lp = lp_hdr (lp_total es) num @ lp_body es @ LP_EOF # rest" "num = length es \<or> num = 65535"
    "lpGetNumElements lp = Some num" "lp_total es < 2 ^ 32" "list_all enc_ok es"
    using assms by (rule lp_repE)
  have loop: "lpLengthLoop lp (lp_ptr es 0) 0 = Some (length es)"
    using length_loop [OF assms, of 0 0] length_body [of es] lp(4) by (simp add: lp_total_def)
  show ?thesis
  proof (cases "num \<noteq> LP_HDR_NUMELE_UNKNOWN")
    case True
    then show ?thesis using lp(2,3) assms by (auto simp: lpLength_def LP_HDR_NUMELE_UNKNOWN_def)
  next
    case False
    let ?lp = "lp_hdr (lp_total es) (length es) @ lp_body es @ LP_EOF # rest"
    have "lpLength lp = Some (if length es < 65535 then ?lp else lp, length es)"
      using False lp(3) rep_first [OF assms] loop lp(1) set_num by (simp add: lpLength_def LP_HDR_NUMELE_UNKNOWN_def)
    moreover have "lp_rep ?lp es" if "length es < 65535"
      unfolding lp_rep_def using that lp(4,5) by auto
    ultimately show ?thesis using assms by auto
  qed
qed

section \<open>Changing\<close>

lemma memmove_tail:
  assumes "length pre + k + length post \<le> length (pre @ x @ post @ rest)"
  shows "\<exists>z rest'. lp_memmove (pre @ x @ post @ rest) (length pre + k) (length pre + length x) (length post) =
    Some (pre @ z @ post @ rest') \<and> length z = k \<and>
    length (pre @ z @ post @ rest') = length (pre @ x @ post @ rest)"
proof -
  let ?lp = "pre @ x @ post @ rest"
  define z where "z = take k (x @ post @ rest)"
  define r where "r = drop (length pre + k + length post) ?lp"
  have "get_bytes ?lp (length pre + length x) (length post) = post" by (simp add: get_bytes_def)
  moreover have "take (length pre + k) ?lp = pre @ z" by (simp add: z_def)
  ultimately have "memmove ?lp (length pre + k) (length pre + length x) (length post) = pre @ z @ post @ r"
    by (simp add: memmove_def put_bytes_def r_def)
  moreover have "length z = k" using assms by (simp add: z_def)
  moreover have "length (pre @ z @ post @ r) = length ?lp" using assms \<open>length z = k\<close> by (simp add: r_def)
  ultimately show ?thesis using assms unfolding lp_memmove_def by auto
qed

lemma lpStore_at:
  assumes "length z = length (entry (lp_encode s))"
  shows "lpStore (pre @ z @ post) (length pre) s (lpEncodeGetType s) (lpEncodeBacklen (enclen (lpEncodeGetType s))) =
    Some (pre @ entry (lp_encode s) @ post)"
proof -
  let ?e = "lp_encode s" and ?b = "lpEncodeBacklen (length (lp_encode s))"
  define z1 z2 where "z1 = take (length ?e) z" and "z2 = drop (length ?e) z"
  then have z: "z = z1 @ z2" "length z1 = length ?e" "length z2 = length ?b"
    using assms by (simp_all add: entry_def)
  have w1: "lp_write (pre @ z @ post) (length pre) ?e = Some (pre @ ?e @ z2 @ post)"
    using write_at [of z1 ?e pre "z2 @ post"] z by simp
  have w2: "lp_write (pre @ ?e @ z2 @ post) (length pre + length ?e) ?b = Some (pre @ entry ?e @ post)"
    using write_at [of z2 ?b "pre @ ?e" post] z(3) by (simp add: entry_def)
  have "(case lpEncodeGetType s of Enc_int intenc \<Rightarrow> lp_write lp p intenc | Enc_str _ \<Rightarrow> lp_write lp p (lpEncodeString s)) =
      lp_write lp p ?e" for lp p
    by (simp add: lp_encode_def split: lp_enc.split)
  then show ?thesis using w1 w2 by (simp add: lpStore_def enclen_lp_encode)
qed

lemma lpCount_hdr:
  assumes "n < 2 ^ 32" "num \<le> 65535"
  shows "lpCount (lp_hdr n num @ tail) added =
    Some (lp_hdr n (if num = 65535 then num else if added then num + 1 else num + 2 ^ 32 - 1) @ tail)"
  using hdr_fields [OF assms] by (simp add: lpCount_def set_num LP_HDR_NUMELE_UNKNOWN_def)

text \<open>Removing one from the count on 32 bits is removing one from the stored 16 bits.\<close>

lemma hdr_pred: "0 < num \<Longrightarrow> lp_hdr n (num + 2 ^ 32 - 1) = lp_hdr n (num - 1)"
proof -
  assume "0 < num"
  then have "le_bytes 2 (int (num + 2 ^ 32 - 1)) = le_bytes 2 (int (num - 1) + 256 ^ 2 * 65536)" by (simp add: of_nat_diff)
  moreover have "le_bytes 2 (v + 256 ^ 2 * 65536) = le_bytes 2 v" for v
    by (metis length_le_bytes le_bytes_le_uint le_uint_le_bytes mod_mult_self2)
  ultimately show ?thesis by (simp add: lp_hdr_def)
qed

context lawful_mem
begin

lemma lp_realloc_keeps:
  assumes "length pre \<le> n" "n \<le> 2 ^ 63"
  shows "\<exists>rest'. lp_realloc M (pre @ rest) n = Some (pre @ rest') \<and> n \<le> length (pre @ rest')"
proof -
  obtain sz where sz: "usable_size M n = Some sz" using available [OF assms(2)] by auto
  then have le: "n \<le> sz" by (rule usable_ge)
  let ?r = "realloc_bytes (fresh M) (pre @ rest) sz"
  have "take (length pre) ?r = pre" using assms(1) le by (simp add: realloc_bytes_def)
  then have "?r = pre @ drop (length pre) ?r" by (metis append_take_drop_id)
  moreover have "length ?r = sz" by simp
  ultimately show ?thesis using sz le by (metis bind.bind_lunit lp_realloc_def)
qed

text \<open>
  The work of \<^verbatim>\<open>lpInsert\<close> between the header computations and the header updates: the bytes \<open>x\<close> make
  way for room of another size.
\<close>

lemma room_correct:
  assumes "new = length pre + k + length post" "old = length pre + length x + length post" "new \<le> 2 ^ 63"
    "lp = pre @ x @ post @ rest"
    "wh = LP_BEFORE \<longrightarrow> x = []"
  shows "\<exists>z rest'. lpMakeRoom M lp wh (length pre) k (length x) old new = Some (pre @ z @ post @ rest') \<and> length z = k"
proof -
  obtain rest1 where r1: "(if new > old \<and> new > lp_malloc_size lp then lp_realloc M lp new else Some lp) =
      Some (pre @ x @ post @ rest1)" "new \<le> length (pre @ x @ post @ rest1)"
  proof (cases "new > old \<and> new > lp_malloc_size lp")
    case True
    then show ?thesis using lp_realloc_keeps [of "pre @ x @ post" new rest] assms that by auto
  next
    case False
    then show ?thesis using assms by (intro that [of rest]) (auto simp: lp_malloc_size_def)
  qed
  obtain z rest2 where m: "lp_memmove (pre @ x @ post @ rest1) (length pre + k) (length pre + length x) (length post) =
      Some (pre @ z @ post @ rest2)" "length z = k"
    using memmove_tail [of pre k post x rest1] r1(2) assms(1) by auto
  obtain rest3 where "(if new < old then lp_realloc M (pre @ z @ post @ rest2) new else Some (pre @ z @ post @ rest2)) =
      Some (pre @ z @ post @ rest3)"
    using lp_realloc_keeps [of "pre @ z @ post" new rest2] assms(1,3) m(2) by (cases "new < old") auto
  moreover have "old - length pre - length x = length post" "wh = LP_BEFORE \<Longrightarrow> old - length pre = length post"
    using assms(2,5) by auto
  ultimately have "lpMakeRoom M lp wh (length pre) k (length x) old new = Some (pre @ z @ post @ rest3)"
    using r1(1) m assms(5) by (cases "wh = LP_BEFORE") (simp_all add: lpMakeRoom_def)
  then show ?thesis using m(2) by blast
qed

end

text \<open>The bytes that \<^verbatim>\<open>LP_REPLACE\<close> takes away.\<close>

lemma replaced_correct:
  assumes "lp_rep lp es" "i < length es"
  shows "do {
      n \<leftarrow> lpCurrentEncodedSizeUnsafe lp (lp_off es i);
      let n = (n + length (lpEncodeBacklen n)) mod 2 ^ 32;
      ASSERT_INTEGRITY_LEN lp (lp_off es i) n;
      Some n
    } = Some (length (entry (es ! i)))"
proof -
  have "lp_off es i + length (entry (es ! i)) < lp_total es"
    using lp_off_bound [of "Suc i" es] assms(2) by (simp add: lp_off_Suc)
  moreover have "lp_total es < 2 ^ 32" "lpGetTotalBytes lp = Some (lp_total es)"
    using assms(1) rep_total by (auto simp: lp_rep_def)
  ultimately show ?thesis
    using enc_ok_size [OF rep_entry(1,2) [OF assms]]
    by (simp add: ASSERT_INTEGRITY_LEN_def entry_def LP_HDR_SIZE_def lp_off_def)
qed

text \<open>What is put in the place of the old entries.\<close>

definition new_entries :: "byte list option \<Rightarrow> byte list list" where
  "new_entries ele = (case ele of None \<Rightarrow> [] | Some s \<Rightarrow> [lp_encode s])"

lemma body_new:
  "length (lp_body (new_entries ele)) =
     enclen (case ele of Some e \<Rightarrow> lpEncodeGetType e | None \<Rightarrow> Enc_str 0) +
     length (if ele = None then [] else lpEncodeBacklen (enclen (case ele of Some e \<Rightarrow> lpEncodeGetType e | None \<Rightarrow> Enc_str 0)))"
  by (cases ele) (simp_all add: new_entries_def entry_def enclen_lp_encode)

lemma store_new:
  assumes "length z = length (lp_body (new_entries ele))"
  shows "(case ele of Some e \<Rightarrow> lpStore (pre @ z @ post) (length pre) e
        (case ele of Some e \<Rightarrow> lpEncodeGetType e | None \<Rightarrow> Enc_str 0)
        (if ele = None then [] else lpEncodeBacklen (enclen (case ele of Some e \<Rightarrow> lpEncodeGetType e | None \<Rightarrow> Enc_str 0)))
      | None \<Rightarrow> Some (pre @ z @ post)) = Some (pre @ lp_body (new_entries ele) @ post)"
  using assms lpStore_at by (cases ele) (simp_all add: new_entries_def)

text \<open>The count after the change; an unknown count stays unknown.\<close>

lemma count_new:
  assumes "n < 2 ^ 32" "num \<le> 65535" "num = length (es1 @ old @ es2) \<or> num = 65535"
    "wh = LP_BEFORE \<and> old = [] \<and> ele \<noteq> None \<or> wh = LP_REPLACE \<and> length old = 1"
  shows "\<exists>num'. (if wh \<noteq> LP_REPLACE \<or> ele = None then lpCount (lp_hdr n num @ tail) (ele \<noteq> None) else Some (lp_hdr n num @ tail)) =
      Some (lp_hdr n num' @ tail) \<and> num' \<le> 65535 \<and> (num' = length (es1 @ new_entries ele @ es2) \<or> num' = 65535)"
proof (cases "num = 65535 \<or> wh = LP_REPLACE \<and> ele \<noteq> None")
  case True
  then show ?thesis using assms(2-4) lpCount_hdr [OF assms(1,2)] by (auto simp: new_entries_def)
next
  case False
  then have num: "num = length (es1 @ old @ es2)" "num < 65535" using assms(2,3) by auto
  show ?thesis
  proof (cases ele)
    case None
    then have "0 < num" using num(1) assms(4) by auto
    then show ?thesis using None num assms(4) lpCount_hdr [OF assms(1,2), of tail False] hdr_pred [of num n]
      by (auto simp: new_entries_def)
  next
    case (Some s)
    then show ?thesis using num assms(4) False lpCount_hdr [OF assms(1,2), of tail True]
      by (auto simp: new_entries_def)
  qed
qed

context lawful_mem
begin

lemma lpInsert_at:
  assumes rep: "lp_rep lp (es1 @ old @ es2)"
    and wh: "wh = LP_BEFORE \<and> old = [] \<and> ele \<noteq> None \<or> wh = LP_REPLACE \<and> length old = 1"
    and fits: "\<forall>s. ele = Some s \<longrightarrow> length s + 5 < 2 ^ 32" "lp_total (es1 @ new_entries ele @ es2) < 2 ^ 32"
  shows "\<exists>lp'. lpInsert M lp ele (lp_off (es1 @ old @ es2) (length es1)) wh =
      Some (Lp_ok lp' (lp_ptr (es1 @ new_entries ele @ es2) (length es1))) \<and> lp_rep lp' (es1 @ new_entries ele @ es2)"
proof -
  let ?es = "es1 @ old @ es2" and ?new = "es1 @ new_entries ele @ es2"
  let ?enc = "case ele of Some e \<Rightarrow> lpEncodeGetType e | None \<Rightarrow> Enc_str 0"
  let ?bl = "if ele = None then [] else lpEncodeBacklen (enclen ?enc)"
  obtain num rest where lp: "lp = lp_hdr (lp_total ?es) num @ lp_body ?es @ LP_EOF # rest" "num \<le> 65535"
    "num = length ?es \<or> num = 65535" "lpGetTotalBytes lp = Some (lp_total ?es)" "lp_total ?es < 2 ^ 32" "list_all enc_ok ?es"
    using rep by (rule lp_repE)
  define pre where "pre = lp_hdr (lp_total ?es) num @ lp_body es1"
  define post where "post = lp_body es2 @ [LP_EOF]"
  have off: "lp_off ?es (length es1) = length pre" by (simp add: lp_off_def pre_def)
  have lp': "lp = pre @ lp_body old @ post @ rest" using lp(1) by (simp add: pre_def post_def)
  have tot: "lp_total ?es = length pre + length (lp_body old) + length post"
    "lp_total ?new = length pre + length (lp_body (new_entries ele)) + length post"
    by (simp_all add: lp_total_def pre_def post_def)
  have rl: "(if wh = LP_REPLACE then do {
      n \<leftarrow> lpCurrentEncodedSizeUnsafe lp (length pre);
      let n = (n + length (lpEncodeBacklen n)) mod 2 ^ 32;
      ASSERT_INTEGRITY_LEN lp (length pre) n;
      Some n } else Some 0) = Some (length (lp_body old))"
    using wh replaced_correct [OF rep, of "length es1"] unfolding off by (auto simp: length_Suc_conv)
  obtain z rest' where room: "lpMakeRoom M lp wh (length pre) (length (lp_body (new_entries ele))) (length (lp_body old))
      (lp_total ?es) (lp_total ?new) = Some (pre @ z @ post @ rest')" "length z = length (lp_body (new_entries ele))"
    using room_correct [OF tot(2,1) _ lp', of wh] wh fits(2) by auto
  have "\<exists>b. lp_at (pre @ z @ post @ rest') (length pre) = Some b \<and>
      (if ele = None \<and> b = LP_EOF then None else Some (length pre)) = lp_ptr ?new (length es1)"
  proof (cases ele)
    case None
    then have z: "z = []" using room(2) by (simp add: new_entries_def)
    show ?thesis
    proof (cases es2)
      case Nil
      then show ?thesis using None z by (simp add: lp_at_def post_def lp_ptr_def new_entries_def)
    next
      case (Cons e es3)
      then have "e \<noteq> []" "hd e \<noteq> LP_EOF" using lp(6) by (auto simp: enc_ok_def)
      then show ?thesis using None z Cons
        by (simp add: lp_at_def post_def lp_ptr_def new_entries_def entry_def lp_off_def pre_def nth_append hd_conv_nth)
    qed
  next
    case (Some s)
    then show ?thesis by (simp add: lp_at_def post_def lp_ptr_def new_entries_def lp_off_def pre_def)
  qed
  then obtain b where b: "lp_at (pre @ z @ post @ rest') (length pre) = Some b"
    "(if ele = None \<and> b = LP_EOF then None else Some (length pre)) = lp_ptr ?new (length es1)" by blast
  let ?tail = "lp_body es1 @ lp_body (new_entries ele) @ post @ rest'"
  obtain num' where cnt: "(if wh \<noteq> LP_REPLACE \<or> ele = None then lpCount (lp_hdr (lp_total ?es) num @ ?tail) (ele \<noteq> None)
      else Some (lp_hdr (lp_total ?es) num @ ?tail)) = Some (lp_hdr (lp_total ?es) num' @ ?tail)"
    "num' \<le> 65535" "num' = length ?new \<or> num' = 65535"
    using count_new [OF lp(5,2,3) wh] by blast
  let ?r = "lp_hdr (lp_total ?new) num' @ ?tail"
  have bytes: "lp_total ?es + enclen ?enc + length ?bl - length (lp_body old) = lp_total ?new"
    "enclen ?enc + length ?bl = length (lp_body (new_entries ele))"
    unfolding tot body_new by simp_all
  have "lpInsert M lp ele (length pre) wh = Some (Lp_ok ?r (lp_ptr ?new (length es1)))"
  proof -
    have w: "(if ele = None then LP_REPLACE else wh) = wh" "(wh = LP_AFTER) = False" using wh by auto
    have c: "(2 ^ 32 - 1 < lp_total ?new) = False" "(lp_total ?es < length pre) = False" using fits(2) tot(1) by auto
    have st: "(case ele of Some e \<Rightarrow> lpStore (pre @ z @ post @ rest') (length pre) e ?enc ?bl
        | None \<Rightarrow> Some (pre @ z @ post @ rest')) = Some (lp_hdr (lp_total ?es) num @ ?tail)"
      using store_new [OF room(2), of pre "post @ rest'"] by (simp only: append_assoc pre_def)
    show ?thesis
      unfolding lpInsert_def Let_def
      by (simp only: w lp(4) rl [unfolded Let_def] bytes c room(1) b st cnt(1) set_total if_False
          Option.bind.bind_lunit prod.case)
  qed
  moreover have "lp_rep ?r ?new"
    unfolding lp_rep_def using cnt(2,3) fits lp(6) encodes_lp_encode
    by (auto simp: post_def new_entries_def encodes_def split: option.splits)
  ultimately show ?thesis unfolding off by blast
qed

end

section \<open>The list a listpack stands for\<close>

text \<open>Reading all elements with \<^verbatim>\<open>lpFirst\<close>, \<^verbatim>\<open>lpNext\<close> and \<^verbatim>\<open>lpGet\<close>.\<close>

function lp_elemsLoop :: "listpack \<Rightarrow> nat option \<Rightarrow> byte list list option" where
  "lp_elemsLoop lp p =
     (case p of None \<Rightarrow> Some []
      | Some q \<Rightarrow> do { v \<leftarrow> lp_value lp q; p \<leftarrow> lpNext lp q; vs \<leftarrow> lp_elemsLoop lp p; Some (v # vs) })"
  by pat_completeness auto
termination
  by (relation "measure (\<lambda>(lp, p). case p of None \<Rightarrow> 0 | Some q \<Rightarrow> Suc (length lp - q))")
    (auto dest: lpNext_forward split: option.split)

declare lp_elemsLoop.simps [simp del]

definition lp_elems :: "listpack \<Rightarrow> byte list list option" where
  "lp_elems lp = do { p \<leftarrow> lpFirst lp; lp_elemsLoop lp p }"

definition lp_list :: "listpack \<Rightarrow> byte list list" where
  "lp_list lp = the (lp_elems lp)"

definition enc_string :: "byte list \<Rightarrow> byte list" where
  "enc_string e = the (lp_value e 0)"

text \<open>Every valid encoding can be read.\<close>

lemma enc_ok_value:
  assumes "enc_ok e"
  shows "\<exists>s. lp_value e 0 = Some s"
proof -
  obtain b e' where e: "e = b # e'" using assms by (cases e) (auto simp: enc_ok_def)
  then have b: "lp_at e 0 = Some b" by (simp add: lp_at_def)
  have sz: "lpCurrentEncodedSizeUnsafe e 0 = Some (length e)" "unat b \<noteq> 255" "length e \<noteq> 0"
    using assms e by (simp_all add: enc_ok_def tag_iff)
  have num: "Suc n \<le> length e \<Longrightarrow> \<exists>v. lp_number e (Suc 0) n = Some v" for n
    by (simp add: lp_number_def lp_read_def)
  have mod: "(5 + n) mod 2 ^ 32 = length e \<Longrightarrow> 5 + n = length e" if "LP_ENCODING_32BIT_STR_LEN e 0 = Some n" for n
  proof -
    have "5 \<le> length e" "n < 2 ^ 32"
      using that le_uint_less [of "get_bytes e (Suc 0) 4"]
      by (auto simp: LP_ENCODING_32BIT_STR_LEN_def lp_number_def lp_read_def nat_less_iff split: if_splits)
    then show "(5 + n) mod 2 ^ 32 = length e \<Longrightarrow> 5 + n = length e" by (simp add: mod_if split: if_splits)
  qed
  consider "unat b < 128" | "128 \<le> unat b" "unat b < 192" | "192 \<le> unat b" "unat b < 224" | "224 \<le> unat b" "unat b < 240"
    | "unat b = 240" | "unat b \<in> {241, 242, 243, 244}" | "244 < unat b"
    by fastforce
  then show ?thesis
  proof cases
    case 4
    then show ?thesis using sz b by (auto simp: lpCurrentEncodedSizeUnsafe_def lp_value_def lpGet_def class_iff tag_iff Let_def)
  next
    case 5
    then show ?thesis using sz b mod by (auto simp: lpCurrentEncodedSizeUnsafe_def lp_value_def lpGet_def class_iff tag_iff Let_def)
  next
    case 6
    then show ?thesis using sz b num [of 2] num [of 3] num [of 4] num [of 8]
      by (auto simp: lpCurrentEncodedSizeUnsafe_def lp_value_def lpGet_def class_iff tag_iff Let_def)
  qed (use sz b in \<open>auto simp: lpCurrentEncodedSizeUnsafe_def lp_value_def lpGet_def class_iff tag_iff Let_def lp_at_def\<close>)
qed

lemma rep_value: "lp_rep lp es \<Longrightarrow> i < length es \<Longrightarrow> lp_value lp (lp_off es i) = Some (enc_string (es ! i))"
  using enc_ok_value [OF rep_entry(1)] value_mono [OF rep_entry(2)] by (fastforce simp: enc_string_def)

lemma elems_loop:
  assumes "lp_rep lp es"
  shows "i \<le> length es \<Longrightarrow> lp_elemsLoop lp (lp_ptr es i) = Some (map enc_string (drop i es))"
proof (induction "length es - i" arbitrary: i)
  case 0
  then show ?case by (subst lp_elemsLoop.simps) (simp add: lp_ptr_def)
next
  case (Suc n)
  then have i: "i < length es" by simp
  then have "drop i es = es ! i # drop (Suc i) es" by (simp add: Cons_nth_drop_Suc)
  then show ?case
    using rep_next [OF assms i] rep_value [OF assms i] Suc.hyps(1) [of "Suc i"] Suc.hyps(2) i
    by (subst lp_elemsLoop.simps) (simp add: lp_ptr_def [of es i])
qed

lemma rep_elems: "lp_rep lp es \<Longrightarrow> lp_elems lp = Some (map enc_string es)"
  using elems_loop [of lp es 0] by (simp add: lp_elems_def rep_first)

lemma rep_list: "lp_rep lp es \<Longrightarrow> lp_list lp = map enc_string es"
  by (simp add: lp_list_def rep_elems)

lemma enc_string_encode: "length s + 5 < 2 ^ 32 \<Longrightarrow> enc_string (lp_encode s) = s"
  using encodes_lp_encode [of s] by (simp add: encodes_def enc_string_def)

section \<open>Every operation acts on the list\<close>

lemma total_new: "length (lp_body (new_entries (Some s))) \<le> length s + 14"
  using lp_encode_length [of s] length_backlen [of "length (lp_encode s)"] by (simp add: new_entries_def entry_def)

lemma off_prefix: "i \<le> length es \<Longrightarrow> lp_off (take i es @ old @ es2) (length (take i es)) = lp_off es i"
  by (simp add: lp_off_def)

context lawful_mem
begin

lemma insert_before:
  assumes "lp_rep lp es" "i \<le> length es" "lp_total es + length s + 14 < 2 ^ 32"
  shows "\<exists>lp' np. lpInsert M lp (Some s) (lp_off es i) LP_BEFORE = Some (Lp_ok lp' np) \<and>
    lp_rep lp' (take i es @ lp_encode s # drop i es)"
proof -
  have "lp_total (take i es @ new_entries (Some s) @ drop i es) = lp_total es + length (lp_body (new_entries (Some s)))"
    using lp_body_simps(3) [of "take i es" "drop i es"] by (simp add: lp_total_def)
  then have "lp_total (take i es @ new_entries (Some s) @ drop i es) < 2 ^ 32" using total_new [of s] assms(3) by linarith
  moreover have "length s + 5 < 2 ^ 32" using assms(3) by simp
  ultimately show ?thesis
    using lpInsert_at [of lp "take i es" "[]" "drop i es" LP_BEFORE "Some s"] assms(1,2)
    by (auto simp: new_entries_def min_absorb2)
qed

lemma insert_after:
  assumes "lp_rep lp es" "i < length es"
  shows "lpInsert M lp (Some s) (lp_off es i) LP_AFTER = lpInsert M lp (Some s) (lp_off es (Suc i)) LP_BEFORE"
proof -
  have "ASSERT_INTEGRITY lp (lp_off es (Suc i)) = Some ()"
    using rep_total [OF assms(1)] lp_off_bound [of "Suc i" es] assms(2)
    by (simp add: ASSERT_INTEGRITY_def LP_HDR_SIZE_def lp_off_def)
  then show ?thesis using rep_skip [OF assms] by (simp add: lpInsert_def)
qed

lemma change_at:
  assumes "lp_rep lp es" "i < length es" "lp_total es + length (lp_body (new_entries ele)) < 2 ^ 32"
    "\<forall>s. ele = Some s \<longrightarrow> length s + 5 < 2 ^ 32"
  shows "\<exists>lp' np. lpInsert M lp ele (lp_off es i) LP_REPLACE = Some (Lp_ok lp' np) \<and>
    lp_rep lp' (take i es @ new_entries ele @ drop (Suc i) es)"
proof -
  have es: "es = take i es @ [es ! i] @ drop (Suc i) es" using assms(2) by (simp add: id_take_nth_drop)
  have "lp_body es = lp_body (take i es) @ entry (es ! i) @ lp_body (drop (Suc i) es)"
    by (subst es) (simp del: append_take_drop_id)
  then have "lp_total (take i es @ new_entries ele @ drop (Suc i) es) < 2 ^ 32"
    using assms(3) by (simp add: lp_total_def)
  then show ?thesis
    using lpInsert_at [of lp "take i es" "[es ! i]" "drop (Suc i) es" LP_REPLACE ele] assms(1,4) es
      off_prefix [of i es "[es ! i]" "drop (Suc i) es"] assms(2) by auto
qed

lemma shrink_correct:
  assumes "lp_rep lp es"
  shows "\<exists>lp'. lpShrinkToFit M lp = Some lp' \<and> lp_rep lp' es"
proof -
  obtain num rest where lp: "lp = lp_hdr (lp_total es) num @ lp_body es @ LP_EOF # rest" "num \<le> 65535"
    "num = length es \<or> num = 65535" "lpGetTotalBytes lp = Some (lp_total es)" "lp_total es < 2 ^ 32" "list_all enc_ok es"
    using assms by (rule lp_repE)
  let ?used = "lp_hdr (lp_total es) num @ lp_body es @ [LP_EOF]"
  obtain rest' where "lp_realloc M lp (lp_total es) = Some (?used @ rest')"
    using lp_realloc_keeps [of ?used "lp_total es" rest] lp(1,5) by (auto simp: lp_total_def)
  moreover have "lp_rep (?used @ rest') es" using lp(2,3,5,6) by (auto simp: lp_rep_def)
  ultimately show ?thesis using assms lp(4) by (auto simp: lpShrinkToFit_def)
qed

lemma new_correct_lp:
  assumes "capacity \<le> 2 ^ 63"
  shows "\<exists>lp. lpNew M capacity = Some lp \<and> lp_rep lp []"
proof -
  let ?n = "if capacity > LP_HDR_SIZE + 1 then capacity else LP_HDR_SIZE + 1"
  have "?n \<le> 2 ^ 63" using assms by (simp add: LP_HDR_SIZE_def)
  then obtain sz where sz: "usable_size M ?n = Some sz" using available by blast
  then have "7 \<le> sz" using usable_ge [OF sz] by (simp add: LP_HDR_SIZE_def split: if_splits)
  moreover define bs where "bs = map (fresh M) [0..<sz]"
  moreover have "bs = take 4 bs @ take 2 (drop 4 bs) @ take 1 (drop 6 bs) @ drop 7 bs"
    using append_take_drop_id [of 2 "drop 4 bs"] append_take_drop_id [of 1 "drop 6 bs"] by simp
  ultimately obtain a b c d where bs: "bs = a @ b @ c @ d" "length a = 4" "length b = 2" "length c = 1"
    by (intro that [of "take 4 bs" "take 2 (drop 4 bs)" "take 1 (drop 6 bs)" "drop 7 bs"]) simp_all
  have "lpSetTotalBytes bs 7 = Some (le_bytes 4 7 @ b @ c @ d)"
    using write_at [of a "le_bytes 4 7" "[]" "b @ c @ d"] bs by (simp add: lpSetTotalBytes_def)
  moreover have "lpSetNumElements (le_bytes 4 7 @ b @ c @ d) 0 = Some (lp_hdr 7 0 @ c @ d)"
    using write_at [of b "le_bytes 2 0" "le_bytes 4 7" "c @ d"] bs by (simp add: lpSetNumElements_def lp_hdr_def)
  moreover have "lp_write (lp_hdr 7 0 @ c @ d) 6 [LP_EOF] = Some (lp_hdr 7 0 @ LP_EOF # d)"
    using write_at [of c "[LP_EOF]" "lp_hdr 7 0" d] bs by simp
  ultimately have "lpNew M capacity = Some (lp_hdr 7 0 @ LP_EOF # d)"
    using sz by (simp add: lpNew_def lp_malloc_def bs_def LP_HDR_SIZE_def)
  then show ?thesis by (auto simp: lp_rep_def lp_total_def)
qed

end

section \<open>Refinement\<close>

datatype lp_op =
    Lp_insert lp_where int "byte list" | Lp_append "byte list" | Lp_delete int | Lp_index int | Lp_length | Lp_shrink

datatype lp_reply = R_done bool | R_elem "byte list option" | R_count nat

text \<open>What a client does: it seeks an element by its index and changes or reads the listpack there.\<close>

definition changed :: "lp_result option \<Rightarrow> (listpack \<times> lp_reply) option" where
  "changed r = do { r \<leftarrow> r; case r of Lp_null \<Rightarrow> None | Lp_ok lp _ \<Rightarrow> Some (lp, R_done True) }"

fun lp_step :: "mem \<Rightarrow> lp_op \<Rightarrow> listpack \<Rightarrow> (listpack \<times> lp_reply) option" where
  "lp_step M (Lp_insert wh i s) lp =
     do { p \<leftarrow> lpSeek lp i;
          case p of None \<Rightarrow> Some (lp, R_done False) | Some p \<Rightarrow> changed (lpInsert M lp (Some s) p wh) }"
| "lp_step M (Lp_append s) lp = changed (lpAppend M lp s)"
| "lp_step M (Lp_delete i) lp =
     do { p \<leftarrow> lpSeek lp i;
          case p of None \<Rightarrow> Some (lp, R_done False) | Some p \<Rightarrow> changed (lpDelete M lp p) }"
| "lp_step M (Lp_index i) lp =
     do { p \<leftarrow> lpSeek lp i;
          case p of None \<Rightarrow> Some (lp, R_elem None) | Some p \<Rightarrow> do { v \<leftarrow> lp_value lp p; Some (lp, R_elem (Some v)) } }"
| "lp_step M Lp_length lp = do { (lp, n) \<leftarrow> lpLength lp; Some (lp, R_count n) }"
| "lp_step M Lp_shrink lp = do { lp \<leftarrow> lpShrinkToFit M lp; Some (lp, R_done True) }"

definition list_insert :: "lp_where \<Rightarrow> nat \<Rightarrow> 'a \<Rightarrow> 'a list \<Rightarrow> 'a list" where
  "list_insert wh i x xs =
     (case wh of LP_BEFORE \<Rightarrow> take i xs @ x # drop i xs
      | LP_AFTER \<Rightarrow> take (Suc i) xs @ x # drop (Suc i) xs
      | LP_REPLACE \<Rightarrow> take i xs @ x # drop (Suc i) xs)"

fun list_step :: "lp_op \<Rightarrow> byte list list \<Rightarrow> byte list list \<times> lp_reply" where
  "list_step (Lp_insert wh i s) xs =
     (case seek_pos i (length xs) of None \<Rightarrow> (xs, R_done False) | Some k \<Rightarrow> (list_insert wh k s xs, R_done True))"
| "list_step (Lp_append s) xs = (xs @ [s], R_done True)"
| "list_step (Lp_delete i) xs =
     (case seek_pos i (length xs) of None \<Rightarrow> (xs, R_done False) | Some k \<Rightarrow> (take k xs @ drop (Suc k) xs, R_done True))"
| "list_step (Lp_index i) xs = (xs, R_elem (map_option (\<lambda>k. xs ! k) (seek_pos i (length xs))))"
| "list_step Lp_length xs = (xs, R_count (length xs))"
| "list_step Lp_shrink xs = (xs, R_done True)"

fun lp_cost :: "lp_op \<Rightarrow> nat" where
  "lp_cost (Lp_insert wh i s) = length s + 14"
| "lp_cost (Lp_append s) = length s + 14"
| "lp_cost op = 0"

definition lp_load :: "listpack \<Rightarrow> nat" where
  "lp_load lp = the (lpGetTotalBytes lp)"

definition lp_ok :: "listpack \<Rightarrow> bool" where
  "lp_ok lp \<longleftrightarrow> (\<exists>es. lp_rep lp es)"

lemma rep_load: "lp_rep lp es \<Longrightarrow> lp_load lp = lp_total es"
  using rep_total by (simp add: lp_load_def)

lemma seek_pos_less: "seek_pos i n = Some k \<Longrightarrow> k < n"
  by (auto simp: seek_pos_def Let_def split: if_splits)

text \<open>A step that ends in a listpack for \<open>es'\<close>.\<close>

lemma step_to:
  assumes "lp_rep lp' es'" "map enc_string es' = xs'" "lp_total es' \<le> n" "st = Some (lp', r)" "ab = (xs', r)"
  shows "\<exists>s' r. st = Some (s', r) \<and> lp_ok s' \<and> lp_load s' \<le> n \<and> ab = (lp_list s', r)"
  using assms rep_list rep_load by (auto simp: lp_ok_def)

lemma total_insert: "lp_total (take i es @ lp_encode s # drop i es) \<le> lp_total es + length s + 14"
proof -
  have "lp_total (take i es @ lp_encode s # drop i es) = lp_total es + length (lp_body (new_entries (Some s)))"
    using lp_body_simps(3) [of "take i es" "drop i es"] by (simp add: lp_total_def new_entries_def)
  then show ?thesis using total_new [of s] by simp
qed

lemma total_replace: "lp_total (take i es @ new_entries ele @ drop (Suc i) es) \<le> lp_total es + length (lp_body (new_entries ele))"
proof (cases "i < length es")
  case True
  then have "lp_body es = lp_body (take i es @ [es ! i] @ drop (Suc i) es)" by (simp add: id_take_nth_drop [symmetric])
  then show ?thesis by (simp add: lp_total_def)
qed (simp add: lp_total_def)

context lawful_mem
begin

lemma step_insert:
  assumes "lp_rep lp es" "lp_total es + length s + 14 < 2 ^ 32" "k < length es"
  shows "\<exists>lp' np es'. lpInsert M lp (Some s) (lp_off es k) wh = Some (Lp_ok lp' np) \<and> lp_rep lp' es' \<and>
    map enc_string es' = list_insert wh k s (map enc_string es) \<and> lp_total es' \<le> lp_total es + length s + 14"
proof -
  have s: "enc_string (lp_encode s) = s" using assms(2) by (intro enc_string_encode) simp
  show ?thesis
  proof (cases wh)
    case LP_BEFORE
    then show ?thesis using insert_before [of lp es k s] assms s total_insert [of k es s]
      by (fastforce simp: list_insert_def take_map drop_map)
  next
    case LP_AFTER
    then show ?thesis using insert_before [of lp es "Suc k" s] insert_after [of lp es k s] assms s total_insert [of "Suc k" es s]
      by (fastforce simp: list_insert_def take_map drop_map)
  next
    case LP_REPLACE
    have "lp_total es + length (lp_body (new_entries (Some s))) < 2 ^ 32" using total_new [of s] assms(2) by linarith
    then show ?thesis
      using LP_REPLACE change_at [of lp es k "Some s"] assms s total_replace [of k es "Some s"] total_new [of s]
      by (fastforce simp: list_insert_def take_map drop_map new_entries_def)
  qed
qed

lemma lp_step_refines:
  assumes "lp_ok lp" "lp_load lp + lp_cost op \<le> 2 ^ 32 - 1"
  shows "\<exists>s' r. lp_step M op lp = Some (s', r) \<and> lp_ok s' \<and> lp_load s' \<le> lp_load lp + lp_cost op \<and>
    list_step op (lp_list lp) = (lp_list s', r)"
proof -
  obtain es where rep: "lp_rep lp es" using assms(1) by (auto simp: lp_ok_def)
  note ld = rep_load [OF rep] and ls = rep_list [OF rep] and seek = rep_seek [OF rep]
  have bound: "lp_total es + lp_cost op < 2 ^ 32" using assms(2) ld by simp
  have same: "\<exists>s' r. Some (lp, r0) = Some (s', r) \<and> lp_ok s' \<and> lp_load s' \<le> lp_load lp + lp_cost op \<and>
      (lp_list lp, r0) = (lp_list s', r)" for r0
    using assms(1) by simp
  show ?thesis
  proof (cases op)
    case (Lp_insert wh i s)
    show ?thesis
    proof (cases "seek_pos i (length es)")
      case None
      then show ?thesis using Lp_insert seek same ls by (simp add: length_map)
    next
      case (Some k)
      then obtain lp' np es' where "lpInsert M lp (Some s) (lp_off es k) wh = Some (Lp_ok lp' np)" "lp_rep lp' es'"
        "map enc_string es' = list_insert wh k s (map enc_string es)" "lp_total es' \<le> lp_total es + length s + 14"
        using step_insert [OF rep, of s k wh] bound Lp_insert seek_pos_less by fastforce
      then show ?thesis using Some Lp_insert seek ls ld by (intro step_to) (simp_all add: changed_def add.assoc)
    qed
  next
    case (Lp_append s)
    obtain lp' np where "lpInsert M lp (Some s) (lp_off es (length es)) LP_BEFORE = Some (Lp_ok lp' np)"
      "lp_rep lp' (es @ [lp_encode s])"
      using insert_before [OF rep, of "length es" s] bound Lp_append by auto
    moreover have "enc_string (lp_encode s) = s" using bound Lp_append by (intro enc_string_encode) simp
    ultimately show ?thesis
      using Lp_append ls ld rep_total [OF rep] total_insert [of "length es" es s]
      by (intro step_to [of lp' "es @ [lp_encode s]"]) (simp_all add: changed_def lpAppend_def lp_off_length lp_total_def)
  next
    case (Lp_delete i)
    show ?thesis
    proof (cases "seek_pos i (length es)")
      case None
      then show ?thesis using Lp_delete seek same ls by simp
    next
      case (Some k)
      then obtain lp' np where "lpInsert M lp None (lp_off es k) LP_REPLACE = Some (Lp_ok lp' np)"
        "lp_rep lp' (take k es @ drop (Suc k) es)"
        using change_at [OF rep, of k None] bound Lp_delete seek_pos_less by (fastforce simp: new_entries_def)
      then show ?thesis
        using Some Lp_delete seek ls ld total_replace [of k es None]
        by (intro step_to) (simp_all add: changed_def lpDelete_def new_entries_def take_map drop_map)
    qed
  next
    case (Lp_index i)
    then show ?thesis
      using seek ls same rep_value [OF rep] seek_pos_less [of i "length es"]
      by (cases "seek_pos i (length es)") (simp_all add: assms(1))
  next
    case Lp_length
    then show ?thesis using rep_length [OF rep] ls ld step_to by fastforce
  next
    case Lp_shrink
    then show ?thesis using shrink_correct [OF rep] ls ld step_to by fastforce
  qed
qed

end

sublocale lawful_mem \<subseteq> lpack: data_refinement lp_ok lp_list "\<lambda>_. True" lp_load lp_cost "2 ^ 32 - 1" "lp_step M" list_step
  by unfold_locales (rule lp_step_refines)

context lawful_mem
begin

lemmas lp_runs = lpack.run_refines

end

section \<open>The integrity check\<close>

lemma integrity_loop:
  assumes "lp_rep lp es" "count + length es < 2 ^ 32"
  shows "i \<le> length es \<Longrightarrow> lpIntegrityLoop lp (Some (lp_off es i)) (lp_total es) (count + i) = Some (Some (count + length es))"
proof (induction "length es - i" arbitrary: i)
  case 0
  then show ?case using rep_at [OF assms(1), of i] by (subst lpIntegrityLoop.simps) auto
next
  case (Suc n)
  then have i: "i < length es" by simp
  have "lpIntegrityLoop lp (Some (lp_off es i)) (lp_total es) (count + i) =
      lpIntegrityLoop lp (Some (lp_off es (Suc i))) (lp_total es) (count + Suc i)"
    using rep_at [OF assms(1), of i] rep_validate [OF assms(1) i] i assms(2)
    by (subst lpIntegrityLoop.simps) auto
  then show ?case using Suc.hyps(1) [of "Suc i"] Suc.hyps(2) i by simp
qed

lemma integrity_complete:
  assumes "lp_rep lp es"
  shows "lpValidateIntegrity lp (lp_total es) deep = Some True"
proof -
  obtain num where num: "lpGetNumElements lp = Some num" "num = length es \<or> num = 65535" "lp_total es < 2 ^ 32"
    using assms by (rule lp_repE)
  then have "lpIntegrityLoop lp (Some LP_HDR_SIZE) (lp_total es) 0 = Some (Some (length es))"
    using integrity_loop [OF assms, of 0 0] length_body [of es] by (simp add: lp_total_def LP_HDR_SIZE_def)
  moreover have "\<not> lp_total es < LP_HDR_SIZE + 1" by (simp add: lp_total_def LP_HDR_SIZE_def)
  ultimately show ?thesis
    using rep_total [OF assms] rep_eof [OF assms] num by (auto simp: lpValidateIntegrity_def LP_HDR_NUMELE_UNKNOWN_def)
qed

text \<open>The back length is read from at most five bytes, so the read stays behind the first bytes of the header.\<close>

lemma decode_safe: "p < length lp \<Longrightarrow> 28 \<le> shift + 7 * p \<Longrightarrow> lpDecodeBacklenLoop lp p val shift \<noteq> None"
proof (induction lp p val shift rule: lpDecodeBacklenLoop.induct)
  case (1 lp p val shift)
  then show ?case by (subst lpDecodeBacklenLoop.simps) (auto simp: lp_at_def Let_def)
qed

lemma size_safe:
  assumes "lpCurrentEncodedSizeBytes lp p = Some n" "p + n \<le> length lp" "0 < n"
  shows "lpCurrentEncodedSizeUnsafe lp p \<noteq> None"
  using assms
  by (auto simp: lpCurrentEncodedSizeBytes_def lpCurrentEncodedSizeUnsafe_def LP_ENCODING_12BIT_STR_LEN_def
    LP_ENCODING_32BIT_STR_LEN_def lp_number_def lp_read_def lp_at_def split: if_splits)

lemma validate_safe:
  assumes "n \<le> length lp"
  shows "lpValidateNext lp pp n \<noteq> None"
proof (cases pp)
  case (Some p)
  show ?thesis
  proof (cases "lp_out_of_range n p")
    case False
    then have p: "6 \<le> p" "p < n" by (simp_all add: lp_out_of_range_def LP_HDR_SIZE_def)
    then have "lp_at lp p \<noteq> None" "lpCurrentEncodedSizeBytes lp p \<noteq> None"
      using assms by (simp_all add: lp_at_def lpCurrentEncodedSizeBytes_def)
    then obtain b lb where b: "lp_at lp p = Some b" "lpCurrentEncodedSizeBytes lp p = Some lb" by blast
    show ?thesis
    proof (cases "b = LP_EOF \<or> lb = 0 \<or> lp_out_of_range n (p + lb)")
      case False
      then have "p + lb \<le> length lp" "0 < lb" using assms by (auto simp: lp_out_of_range_def)
      then obtain el where el: "lpCurrentEncodedSizeUnsafe lp p = Some el" using size_safe [OF b(2)] by auto
      let ?k = "el + length (lpEncodeBacklen el)"
      have "lpDecodeBacklen lp (p + ?k - 1) \<noteq> None" if "\<not> lp_out_of_range n (p + ?k)"
        unfolding lpDecodeBacklen_def using that p assms by (intro decode_safe) (auto simp: lp_out_of_range_def)
      then show ?thesis using Some b el False \<open>\<not> lp_out_of_range n p\<close>
        by (cases "lp_out_of_range n (p + ?k)") (auto simp: lpValidateNext_def Let_def)
    qed (use Some b \<open>\<not> lp_out_of_range n p\<close> in \<open>auto simp: lpValidateNext_def\<close>)
  qed (simp add: lpValidateNext_def Some)
qed (simp add: lpValidateNext_def)

lemma integrity_loop_safe:
  "n \<le> length lp \<Longrightarrow> (case p of None \<Rightarrow> True | Some q \<Rightarrow> q < n) \<Longrightarrow> lpIntegrityLoop lp p n count \<noteq> None"
proof (induction lp p n count rule: lpIntegrityLoop.induct)
  case (1 lp p n count)
  show ?case
  proof (cases p)
    case (Some q)
    obtain b where b: "lp_at lp q = Some b" using 1 Some by (simp add: lp_at_def)
    obtain v pp where r: "lpValidateNext lp (Some q) n = Some (v, pp)" using validate_safe [OF 1(2)] by fastforce
    have "v \<Longrightarrow> case pp of None \<Rightarrow> True | Some q \<Rightarrow> q < n" using lpValidateNext_forward [of lp q n] r by (cases pp) auto
    then show ?thesis using 1 Some b r by (subst lpIntegrityLoop.simps) auto
  qed (subst lpIntegrityLoop.simps, simp)
qed

lemma integrity_safe: "lpValidateIntegrity lp (length lp) deep \<noteq> None"
proof (cases "length lp < LP_HDR_SIZE + 1")
  case False
  then have l: "7 \<le> length lp" by (simp add: LP_HDR_SIZE_def)
  then have "lpGetTotalBytes lp \<noteq> None" "lpGetNumElements lp \<noteq> None" "lp_at lp (length lp - 1) \<noteq> None"
    by (simp_all add: lpGetTotalBytes_def lpGetNumElements_def lp_number_def lp_read_def lp_at_def)
  then obtain n num b where n: "lpGetTotalBytes lp = Some n" "lpGetNumElements lp = Some num" "lp_at lp (length lp - 1) = Some b"
    by blast
  obtain r where "lpIntegrityLoop lp (Some LP_HDR_SIZE) (length lp) 0 = Some r"
    using integrity_loop_safe [of "length lp" lp "Some LP_HDR_SIZE" 0] l by (auto simp: LP_HDR_SIZE_def)
  then show ?thesis using False n by (cases r) (auto simp: lpValidateIntegrity_def)
qed (simp add: lpValidateIntegrity_def)

section \<open>Properties\<close>

definition ex_lp :: listpack where
  "ex_lp = lp_hdr 7 0 @ [LP_EOF, 9, 9]"

lemma ex_lp_rep: "lp_rep ex_lp []"
  unfolding lp_rep_def ex_lp_def lp_total_def by (intro conjI exI [of _ 0] exI [of _ "[9, 9]"]) simp_all

lemma ex_lp_ok: "lp_ok ex_lp" "lp_load ex_lp = 7"
  using ex_lp_rep rep_load by (auto simp: lp_ok_def lp_total_def)

text \<open>
  C6: any sequence of insertions before, after and in the place of an element, appends, deletions, reads
  by index, counts and shrinks, with indexes from either end, answers as the list of strings that
  the listpack holds, as long as the bytes fit in 32 bits; no access leaves the block and no
  assertion fails.
\<close>

theorem listpack_runs_as_list:
  assumes "lawful_mem M" "lp_ok lp" "lp_load lp + sum_list (map lp_cost ops) \<le> 2 ^ 32 - 1"
  shows "\<exists>lp' rs. run_concrete (lp_step M) ops lp = Some (lp', rs) \<and> lp_ok lp' \<and>
    run_abstract list_step ops (lp_list lp) = (lp_list lp', rs)"
  using lawful_mem.lp_runs [OF assms(1,2) _ assms(3)] by (simp add: list_all_iff)

theorem listpack_runs_as_list_witness:
  "\<exists>lp' rs. run_concrete (lp_step round16_mem) [Lp_append [45, 55], Lp_insert LP_BEFORE (- 1) [97], Lp_delete 1, Lp_index 0] ex_lp =
      Some (lp', rs) \<and> lp_ok lp' \<and>
    run_abstract list_step [Lp_append [45, 55], Lp_insert LP_BEFORE (- 1) [97], Lp_delete 1, Lp_index 0] (lp_list ex_lp) =
      (lp_list lp', rs)"
  by (rule listpack_runs_as_list [OF round16.lawful_mem_axioms ex_lp_ok(1)]) (simp add: ex_lp_ok(2))

text \<open>
  C16: the integrity check never reads outside of the bytes it is given, whatever they are, and accepts
  every well-formed listpack.
\<close>

theorem lpValidateIntegrity_safe:
  "lpValidateIntegrity lp (length lp) deep \<noteq> None \<and>
   (lp_ok lp \<longrightarrow> lpValidateIntegrity lp (lp_load lp) deep = Some True)"
  using integrity_safe integrity_complete rep_load by (fastforce simp: lp_ok_def)

theorem lpValidateIntegrity_safe_witness:
  "lpValidateIntegrity ex_lp 7 True = Some True"
  using lpValidateIntegrity_safe [of ex_lp True] ex_lp_ok by simp

text \<open>
  C36: the deep integrity check stops at the first end marker and does not require it to be the last
  byte: it accepts an empty listpack followed by any bytes and a second end marker, which
  \<^verbatim>\<open>lpFirst\<close> takes for empty and on which \<^verbatim>\<open>lpLast\<close> can run into a failed assertion.
\<close>

theorem lpValidateIntegrity_early_end:
  assumes "8 + length junk < 2 ^ 32" "lp = lp_hdr (8 + length junk) 0 @ LP_EOF # junk @ [LP_EOF]"
  shows "lpValidateIntegrity lp (length lp) True = Some True \<and> lpFirst lp = Some None \<and>
    (junk = [0] \<longrightarrow> lpLast lp = None)"
proof -
  have f: "lpGetTotalBytes lp = Some (length lp)" "lpGetNumElements lp = Some 0"
    using hdr_fields [OF assms(1), of 0] assms(2) by simp_all
  have at: "lp_at lp 6 = Some LP_EOF" "lp_at lp (length lp - 1) = Some LP_EOF"
    using assms(2) by (simp_all add: lp_at_def nth_append)
  have "lpIntegrityLoop lp (Some 6) (length lp) 0 = Some (Some 0)"
    using at(1) by (subst lpIntegrityLoop.simps) simp
  then have "lpValidateIntegrity lp (length lp) True = Some True" "lpFirst lp = Some None"
    using f at assms(2) by (simp_all add: lpValidateIntegrity_def lpFirst_def LP_HDR_SIZE_def)
  moreover have "lpLast lp = None" if j: "junk = [0]"
  proof -
    have l: "length lp = 9" "lp_at lp 7 = Some 0" using assms(2) j by (simp_all add: lp_at_def nth_append)
    have "lpDecodeBacklen lp 7 = Some 0"
      unfolding lpDecodeBacklen_def using l(2) by (subst lpDecodeBacklenLoop.simps) simp
    moreover have "lpValidateNext lp (Some 7) 9 = Some (False, Some 7)"
      using l(2) by (simp add: lpValidateNext_def lp_out_of_range_def LP_HDR_SIZE_def LP_EOF_def
        lpCurrentEncodedSizeBytes_def lpCurrentEncodedSizeUnsafe_def LP_ENCODING_IS_7BIT_UINT_def lpEncodeBacklen_def)
    ultimately show ?thesis
      using f l by (simp add: lpLast_def lpPrev_def lpBytes_def lpAssertValidEntry_def LP_HDR_SIZE_def lpEncodeBacklen_def)
  qed
  ultimately show ?thesis by blast
qed

theorem lpValidateIntegrity_early_end_witness:
  "lpValidateIntegrity (lp_hdr 9 0 @ [LP_EOF, 0, LP_EOF]) 9 True = Some True \<and>
   lpLast (lp_hdr 9 0 @ [LP_EOF, 0, LP_EOF]) = None"
  using lpValidateIntegrity_early_end [of "[0]"] by simp

end
