(* ===== verification/Lzf.thy ===== *)
theory Lzf
  imports Redis_Prelude "HOL-Library.Monad_Syntax"
begin

text \<open>
  The LZF compression of \<^verbatim>\<open>src/lzf_c.c\<close> and \<^verbatim>\<open>src/lzf_d.c\<close>, in the configuration \<^verbatim>\<open>src/lzfP.h\<close> selects:
  \<^verbatim>\<open>VERY_FAST\<close>, \<^verbatim>\<open>CHECK_INPUT\<close>, offsets in the hash table, and a hash table that is not
  initialised (\<^verbatim>\<open>INIT_HTAB\<close> is 0), so its contents are an argument.  Pointers are offsets into the
  input and the output; every access is checked, and \<open>None\<close> is an access outside of a buffer.  The
  theorems show that neither routine makes such an access, whatever the hash table and the
  compressed data hold, and that decompression gives back what was compressed.
\<close>

unbundle bit_operations_syntax

section \<open>Compression\<close>

definition MAX_LIT :: nat where "MAX_LIT = 32"
definition MAX_OFF :: nat where "MAX_OFF = 8192"
definition MAX_REF :: nat where "MAX_REF = 264"

definition rd :: "byte list \<Rightarrow> nat \<Rightarrow> byte option" where
  "rd bs i = (if i < length bs then Some (bs ! i) else None)"

definition wr :: "byte list \<Rightarrow> nat \<Rightarrow> byte \<Rightarrow> byte list option" where
  "wr bs i b = (if i < length bs then Some (bs[i := b]) else None)"

definition FRST :: "byte list \<Rightarrow> nat \<Rightarrow> uint32 option" where
  "FRST inp p = do { a \<leftarrow> rd inp p; b \<leftarrow> rd inp (p + 1); Some (push_bit 8 (ucast a) OR ucast b) }"

definition NEXT :: "uint32 \<Rightarrow> byte list \<Rightarrow> nat \<Rightarrow> uint32 option" where
  "NEXT v inp p = do { c \<leftarrow> rd inp (p + 2); Some (push_bit 8 v OR ucast c) }"

definition IDX :: "uint32 \<Rightarrow> nat" where
  "IDX h = unat ((drop_bit 8 h - h * 5) AND 65535)"

text \<open>The local variables of \<^verbatim>\<open>lzf_compress\<close>; the output starts at offset 0 of \<open>lz_out\<close>.\<close>

record lzf_state =
  lz_ip :: nat
  lz_op :: nat
  lz_lit :: nat
  lz_hval :: uint32
  lz_htab :: "nat \<Rightarrow> uint32"
  lz_out :: "byte list"

text \<open>\<^verbatim>\<open>op [- lit - 1] = lit - 1\<close>: the length of a finished run goes in front of it.\<close>

definition stop_run :: "lzf_state \<Rightarrow> lzf_state option" where
  "stop_run s =
     (if lz_op s < lz_lit s + 1 then None
      else do {
        out \<leftarrow> wr (lz_out s) (lz_op s - lz_lit s - 1) (word_of_int (int (lz_lit s) - 1));
        Some (s\<lparr>lz_out := out\<rparr>)
      })"

definition start_run :: "lzf_state \<Rightarrow> lzf_state" where
  "start_run s = s\<lparr>lz_lit := 0, lz_op := lz_op s + 1\<rparr>"

definition put_byte :: "lzf_state \<Rightarrow> byte \<Rightarrow> lzf_state option" where
  "put_byte s b = do { out \<leftarrow> wr (lz_out s) (lz_op s) b; Some (s\<lparr>lz_out := out, lz_op := lz_op s + 1\<rparr>) }"

text \<open>One literal byte, without and with the check of the main loop.\<close>

definition lzf_copy_literal :: "byte list \<Rightarrow> lzf_state \<Rightarrow> lzf_state option" where
  "lzf_copy_literal inp s =
     do {
       b \<leftarrow> rd inp (lz_ip s);
       s \<leftarrow> put_byte (s\<lparr>lz_lit := lz_lit s + 1\<rparr>) b;
       let s = s\<lparr>lz_ip := lz_ip s + 1\<rparr>;
       if lz_lit s = MAX_LIT then do { s \<leftarrow> stop_run s; Some (start_run s) } else Some s
     }"

text \<open>The comparisons that extend a match: sixteen of them unrolled, then a loop.\<close>

fun lzf_unrolled :: "byte list \<Rightarrow> nat \<Rightarrow> nat \<Rightarrow> nat \<Rightarrow> nat \<Rightarrow> (nat \<times> bool) option" where
  "lzf_unrolled inp ref ip len 0 = Some (len, False)"
| "lzf_unrolled inp ref ip len (Suc n) =
     do {
       let len = len + 1;
       a \<leftarrow> rd inp (ref + len);
       b \<leftarrow> rd inp (ip + len);
       if a \<noteq> b then Some (len, True) else lzf_unrolled inp ref ip len n
     }"

function lzf_extend :: "byte list \<Rightarrow> nat \<Rightarrow> nat \<Rightarrow> nat \<Rightarrow> nat \<Rightarrow> nat option" where
  "lzf_extend inp ref ip maxlen len =
     (let len' = len + 1 in
      if len' < maxlen then
        do {
          a \<leftarrow> rd inp (ref + len');
          b \<leftarrow> rd inp (ip + len');
          if a = b then lzf_extend inp ref ip maxlen len' else Some len'
        }
      else Some len')"
  by pat_completeness auto
termination
  by (relation "measure (\<lambda>(inp, ref, ip, maxlen, len). maxlen - len)") auto

declare lzf_extend.simps [simp del]

definition lzf_matchlen :: "byte list \<Rightarrow> nat \<Rightarrow> nat \<Rightarrow> nat \<Rightarrow> nat option" where
  "lzf_matchlen inp ref ip maxlen =
     do {
       (len, stop) \<leftarrow> (if maxlen > 16 then lzf_unrolled inp ref ip 2 16 else Some (2, False));
       if stop then Some len else lzf_extend inp ref ip maxlen len
     }"

definition lzf_hash_step :: "byte list \<Rightarrow> lzf_state \<Rightarrow> lzf_state option" where
  "lzf_hash_step inp s =
     do {
       hval \<leftarrow> NEXT (lz_hval s) inp (lz_ip s);
       Some (s\<lparr>lz_hval := hval, lz_htab := (lz_htab s)(IDX hval := of_nat (lz_ip s)), lz_ip := lz_ip s + 1\<rparr>)
     }"

text \<open>The two positions before the new one are entered into the hash table.\<close>

definition lzf_rehash :: "byte list \<Rightarrow> lzf_state \<Rightarrow> lzf_state option" where
  "lzf_rehash inp s =
     do {
       let s = s\<lparr>lz_ip := lz_ip s - 2\<rparr>;
       hval \<leftarrow> FRST inp (lz_ip s);
       s \<leftarrow> lzf_hash_step inp (s\<lparr>lz_hval := hval\<rparr>);
       lzf_hash_step inp s
     }"

text \<open>The two or three bytes of a back reference.\<close>

definition lzf_write_ref :: "lzf_state \<Rightarrow> nat \<Rightarrow> nat \<Rightarrow> lzf_state option" where
  "lzf_write_ref s off len =
     do {
       s \<leftarrow> (if len < 7 then put_byte s (of_nat (off div 256 + len * 32))
             else do { s \<leftarrow> put_byte s (of_nat (off div 256 + 7 * 32)); put_byte s (of_nat (len - 7)) });
       put_byte s (of_nat off)
     }"

text \<open>
  A match of the input at \<open>ref\<close>, \<open>off + 1\<close> bytes back.  The result \<open>Some None\<close> is the return of 0;
  otherwise the flag says that the main loop is left.
\<close>

definition lzf_emit_match :: "byte list \<Rightarrow> lzf_state \<Rightarrow> nat \<Rightarrow> nat \<Rightarrow> (lzf_state \<times> bool) option option" where
  "lzf_emit_match inp s ref off =
     (let maxlen = min (length inp - lz_ip s - 2) MAX_REF;
          out_end = length (lz_out s);
          undo = (if lz_lit s = 0 then 1 else 0) in
      if lz_op s + 3 + 1 \<ge> out_end \<and> lz_op s - undo + 3 + 1 \<ge> out_end then Some None
      else do {
        s \<leftarrow> stop_run s;
        let s = s\<lparr>lz_op := lz_op s - undo\<rparr>;
        len \<leftarrow> lzf_matchlen inp ref (lz_ip s) maxlen;
        let len = len - 2;
        let s = s\<lparr>lz_ip := lz_ip s + 1\<rparr>;
        s \<leftarrow> lzf_write_ref s off len;
        let s = start_run s;
        let s = s\<lparr>lz_ip := lz_ip s + (len + 1)\<rparr>;
        if lz_ip s + 2 \<ge> length inp then Some (Some (s, True))
        else do {
          s \<leftarrow> lzf_rehash inp s;
          Some (Some (s, False))
        }
      })"

text \<open>The test for a match, and one round of the main loop; \<^verbatim>\<open>off\<close> is an unsigned difference of pointers.\<close>

definition lzf_found :: "byte list \<Rightarrow> nat \<Rightarrow> nat \<Rightarrow> nat \<Rightarrow> bool option" where
  "lzf_found inp ip ref off =
     (if off < MAX_OFF \<and> ref > 0 then
        do {
          r2 \<leftarrow> rd inp (ref + 2); i2 \<leftarrow> rd inp (ip + 2);
          if r2 \<noteq> i2 then Some False
          else do {
            r0 \<leftarrow> rd inp ref; r1 \<leftarrow> rd inp (ref + 1);
            i0 \<leftarrow> rd inp ip; i1 \<leftarrow> rd inp (ip + 1);
            Some (r0 = i0 \<and> r1 = i1)
          }
        }
      else Some False)"

definition lzf_round :: "byte list \<Rightarrow> lzf_state \<Rightarrow> (lzf_state \<times> bool) option option" where
  "lzf_round inp s =
     do {
       hval \<leftarrow> NEXT (lz_hval s) inp (lz_ip s);
       let ref = unat (lz_htab s (IDX hval));
       let s = s\<lparr>lz_hval := hval, lz_htab := (lz_htab s)(IDX hval := of_nat (lz_ip s))\<rparr>;
       let off = nat ((int (lz_ip s) - int ref - 1) mod 2 ^ 64);
       found \<leftarrow> lzf_found inp (lz_ip s) ref off;
       if found then lzf_emit_match inp s ref off
       else if lz_op s \<ge> length (lz_out s) then Some None
       else do { s \<leftarrow> lzf_copy_literal inp s; Some (Some (s, False)) }
     }"

lemmas lzf_bind = bind_eq_Some_conv Let_def

lemma put_byte_ip: "put_byte s b = Some s' \<Longrightarrow> lz_ip s' = lz_ip s"
  by (auto simp: put_byte_def lzf_bind)

lemma stop_run_ip: "stop_run s = Some s' \<Longrightarrow> lz_ip s' = lz_ip s"
  by (auto simp: stop_run_def lzf_bind split: if_splits)

lemma hash_step_ip: "lzf_hash_step inp s = Some s' \<Longrightarrow> lz_ip s' = lz_ip s + 1"
  by (auto simp: lzf_hash_step_def lzf_bind)

lemma rehash_ip: "lzf_rehash inp s = Some s' \<Longrightarrow> lz_ip s \<le> lz_ip s'"
  by (auto simp: lzf_rehash_def lzf_bind dest!: hash_step_ip)

lemma write_ref_ip: "lzf_write_ref s off len = Some s' \<Longrightarrow> lz_ip s' = lz_ip s"
  by (auto simp: lzf_write_ref_def lzf_bind dest!: put_byte_ip split: if_splits)

lemma copy_literal_ip: "lzf_copy_literal inp s = Some s' \<Longrightarrow> lz_ip s' = lz_ip s + 1"
  by (auto simp: lzf_copy_literal_def start_run_def lzf_bind dest!: put_byte_ip stop_run_ip split: if_splits)

lemma emit_match_ip: "lzf_emit_match inp s ref off = Some (Some (s', b)) \<Longrightarrow> lz_ip s < lz_ip s'"
  by (auto simp: lzf_emit_match_def start_run_def lzf_bind dest!: stop_run_ip write_ref_ip rehash_ip split: if_splits)

lemma lzf_round_forward: "lzf_round inp s = Some (Some (s', b)) \<Longrightarrow> lz_ip s < lz_ip s'"
  by (auto simp: lzf_round_def lzf_bind dest!: emit_match_ip copy_literal_ip split: if_splits)

function lzf_loop :: "byte list \<Rightarrow> lzf_state \<Rightarrow> lzf_state option option" where
  "lzf_loop inp s =
     (if lz_ip s + 2 < length inp then
        do {
          r \<leftarrow> lzf_round inp s;
          case r of None \<Rightarrow> Some None
          | Some (s', stop) \<Rightarrow> if stop then Some (Some s') else lzf_loop inp s'
        }
      else Some (Some s))"
  by pat_completeness auto
termination
  by (relation "measure (\<lambda>(inp, s). length inp - lz_ip s)") (auto dest!: lzf_round_forward)

declare lzf_loop.simps [simp del]

function lzf_tail :: "byte list \<Rightarrow> lzf_state \<Rightarrow> lzf_state option" where
  "lzf_tail inp s =
     (if lz_ip s < length inp then do { s \<leftarrow> lzf_copy_literal inp s; lzf_tail inp s } else Some s)"
  by pat_completeness auto
termination
  by (relation "measure (\<lambda>(inp, s). length inp - lz_ip s)") (auto dest!: copy_literal_ip)

declare lzf_tail.simps [simp del]

text \<open>The output buffer afterwards and the number of bytes used in it, 0 for a failure.\<close>

definition lzf_compress :: "byte list \<Rightarrow> byte list \<Rightarrow> (nat \<Rightarrow> uint32) \<Rightarrow> (byte list option \<times> nat) option" where
  "lzf_compress inp out htab =
     (if length inp = 0 \<or> length out = 0 then Some (None, 0)
      else do {
        hval \<leftarrow> FRST inp 0;
        r \<leftarrow> lzf_loop inp \<lparr>lz_ip = 0, lz_op = 1, lz_lit = 0, lz_hval = hval, lz_htab = htab, lz_out = out\<rparr>;
        case r of None \<Rightarrow> Some (None, 0)
        | Some s \<Rightarrow>
            if lz_op s + 3 > length (lz_out s) then Some (None, 0)
            else do {
              s \<leftarrow> lzf_tail inp s;
              s \<leftarrow> stop_run s;
              let n = lz_op s - (if lz_lit s = 0 then 1 else 0);
              Some (Some (lz_out s), n)
            }
      })"

section \<open>Decompression\<close>

datatype lzf_errno = E2BIG | EINVAL

datatype lzf_result = Lzf_error lzf_errno | Lzf_ok "byte list" nat

text \<open>Copying inside the output byte by byte, from \<open>ref\<close> to \<open>op\<close>.\<close>

fun lzf_octets :: "byte list \<Rightarrow> nat \<Rightarrow> nat \<Rightarrow> nat \<Rightarrow> byte list option" where
  "lzf_octets out op ref 0 = Some out"
| "lzf_octets out op ref (Suc k) =
     do { b \<leftarrow> rd out ref; out \<leftarrow> wr out op b; lzf_octets out (op + 1) (ref + 1) k }"

text \<open>
  The copy of a literal run: \<^verbatim>\<open>*op++ = *ip++\<close> once for every byte, as the unrolled \<^verbatim>\<open>switch\<close> does.  A
  back reference whose length code is above nine is copied by \<^verbatim>\<open>memcpy\<close> if it does not overlap.
\<close>

fun lzf_literals :: "byte list \<Rightarrow> byte list \<Rightarrow> nat \<Rightarrow> nat \<Rightarrow> nat \<Rightarrow> byte list option" where
  "lzf_literals inp out ip op 0 = Some out"
| "lzf_literals inp out ip op (Suc k) =
     do { b \<leftarrow> rd inp ip; out \<leftarrow> wr out op b; lzf_literals inp out (ip + 1) (op + 1) k }"

definition lzf_backref :: "byte list \<Rightarrow> nat \<Rightarrow> nat \<Rightarrow> nat \<Rightarrow> byte list option" where
  "lzf_backref out op ref len =
     (if len > 9 \<and> op \<ge> ref + (len + 2) then
        if ref + (len + 2) \<le> length out \<and> op + (len + 2) \<le> length out then Some (put_bytes out op (get_bytes out ref (len + 2))) else None
      else lzf_octets out op ref (len + 2))"

definition lzf_reflen :: "byte list \<Rightarrow> nat \<Rightarrow> nat \<Rightarrow> (nat \<times> nat) option" where
  "lzf_reflen inp len ip =
     (if len = 7 then do { b \<leftarrow> rd inp ip; Some (len + unat b, ip + 1) } else Some (len, ip))"

lemma reflen_ip: "lzf_reflen inp len ip = Some (len', ip') \<Longrightarrow> ip \<le> ip'"
  by (auto simp: lzf_reflen_def bind_eq_Some_conv split: if_splits)

function lzf_dloop :: "byte list \<Rightarrow> byte list \<Rightarrow> nat \<Rightarrow> nat \<Rightarrow> lzf_result option" where
  "lzf_dloop inp out ip op =
     (if ip < length inp then
        do {
          ctrl \<leftarrow> rd inp ip;
          let ctrl = unat ctrl;
          let ip = ip + 1;
          if ctrl < 32 then
            (let ctrl = ctrl + 1 in
             if op + ctrl > length out then Some (Lzf_error E2BIG)
             else if ip + ctrl > length inp then Some (Lzf_error EINVAL)
             else do {
               out \<leftarrow> lzf_literals inp out ip op ctrl;
               lzf_dloop inp out (ip + ctrl) (op + ctrl)
             })
          else
            (let len = ctrl div 32; ref = int op - int (ctrl mod 32 * 256) - 1 in
             if ip \<ge> length inp then Some (Lzf_error EINVAL)
             else do {
               (len, ip) \<leftarrow> lzf_reflen inp len ip;
               if ip \<ge> length inp then Some (Lzf_error EINVAL)
               else do {
                 b \<leftarrow> rd inp ip;
                 let ref = ref - int (unat b);
                 if op + len + 2 > length out then Some (Lzf_error E2BIG)
                 else if ref < 0 then Some (Lzf_error EINVAL)
                 else do {
                   out \<leftarrow> lzf_backref out op (nat ref) len;
                   lzf_dloop inp out (ip + 1) (op + len + 2)
                 }
               }
             })
        }
      else Some (Lzf_ok out op))"
  by pat_completeness auto
termination
  by (relation "measure (\<lambda>(inp, out, ip, op). length inp - ip)") (auto dest!: reflen_ip)

declare lzf_dloop.simps [simp del]

definition lzf_decompress :: "byte list \<Rightarrow> byte list \<Rightarrow> lzf_result option" where
  "lzf_decompress inp out = lzf_dloop inp out 0 0"

section \<open>The compressed format\<close>

text \<open>
  A compressed text is a sequence of literal runs and back references; a back reference copies
  \<open>len + 2\<close> bytes from \<open>off + 1\<close> bytes before the end of what has been produced, which may overlap
  with what it produces.
\<close>

datatype lzf_token = Lit "byte list" | Ref nat nat

fun tok_bytes :: "lzf_token \<Rightarrow> byte list" where
  "tok_bytes (Lit bs) = of_nat (length bs - 1) # bs"
| "tok_bytes (Ref off len) =
     (if len < 7 then [of_nat (off div 256 + len * 32), of_nat off]
      else [of_nat (off div 256 + 7 * 32), of_nat (len - 7), of_nat off])"

fun tok_ok :: "lzf_token \<Rightarrow> bool" where
  "tok_ok (Lit bs) \<longleftrightarrow> bs \<noteq> [] \<and> length bs \<le> 32"
| "tok_ok (Ref off len) \<longleftrightarrow> off < 8192 \<and> 1 \<le> len \<and> len \<le> 262"

fun lz_copy :: "byte list \<Rightarrow> nat \<Rightarrow> nat \<Rightarrow> byte list" where
  "lz_copy acc r 0 = acc"
| "lz_copy acc r (Suc k) = lz_copy (acc @ [acc ! r]) (r + 1) k"

fun lz_run :: "lzf_token list \<Rightarrow> byte list \<Rightarrow> byte list option" where
  "lz_run [] acc = Some acc"
| "lz_run (Lit bs # ts) acc = lz_run ts (acc @ bs)"
| "lz_run (Ref off len # ts) acc =
     (if off < length acc then lz_run ts (lz_copy acc (length acc - off - 1) (len + 2)) else None)"

definition lz_bytes :: "lzf_token list \<Rightarrow> byte list" where
  "lz_bytes ts = concat (map tok_bytes ts)"

lemma lz_bytes_simps [simp]:
  "lz_bytes [] = []" "lz_bytes (t # ts) = tok_bytes t @ lz_bytes ts" "lz_bytes (ts @ us) = lz_bytes ts @ lz_bytes us"
  by (simp_all add: lz_bytes_def)

lemma lz_run_append: "lz_run (ts @ us) acc = Option.bind (lz_run ts acc) (lz_run us)"
  by (induction ts acc rule: lz_run.induct) auto

lemma length_lz_copy [simp]: "length (lz_copy acc r k) = length acc + k"
  by (induction acc r k rule: lz_copy.induct) auto

lemma lz_run_length: "lz_run ts acc = Some res \<Longrightarrow> length acc \<le> length res"
  by (induction ts acc rule: lz_run.induct) (auto split: if_splits)

text \<open>Copying from a place where the same bytes stand as at the end goes on with the input.\<close>

lemma lz_copy_input:
  assumes "r < ip" "ip + k \<le> length inp" "\<And>i. i < k \<Longrightarrow> inp ! (r + i) = inp ! (ip + i)"
  shows "lz_copy (take ip inp) r k = take (ip + k) inp"
  using assms
proof (induction k arbitrary: r ip)
  case (Suc k)
  have "take ip inp @ [take ip inp ! r] = take (ip + 1) inp"
    using Suc.prems(1,2) Suc.prems(3) [of 0] by (simp add: take_Suc_conv_app_nth)
  moreover have "lz_copy (take (ip + 1) inp) (r + 1) k = take (ip + 1 + k) inp"
    using Suc.prems(1,2) Suc.prems(3) [of "Suc _"] by (intro Suc.IH) auto
  ultimately show ?case by simp
qed simp

lemma lz_copy_disjoint: "r + k \<le> length acc \<Longrightarrow> lz_copy acc r k = acc @ take k (drop r acc)"
proof (induction k arbitrary: acc r)
  case (Suc k)
  then have "lz_copy (acc @ [acc ! r]) (r + 1) k = acc @ acc ! r # take k (drop (r + 1) acc)" by simp
  moreover have "take (Suc k) (drop r acc) = acc ! r # take k (drop (r + 1) acc)"
    using Suc.prems by (simp add: Cons_nth_drop_Suc [symmetric])
  ultimately show ?case by simp
qed simp

section \<open>Decompression follows the tokens\<close>

lemma wr_append [simp]: "wr (pre @ x # post) (length pre) b = Some (pre @ b # post)"
  by (simp add: wr_def)

lemma rd_append: "i < length pre \<Longrightarrow> rd (pre @ post) i = Some (pre ! i)"
  by (simp add: rd_def nth_append)

lemma octets_correct:
  assumes "r < length acc" "k \<le> length rest"
  shows "lzf_octets (acc @ rest) (length acc) r k = Some (lz_copy acc r k @ drop k rest)"
  using assms
proof (induction k arbitrary: acc r rest)
  case (Suc k)
  then obtain x rest' where rest: "rest = x # rest'" by (cases rest) auto
  then show ?case
    using Suc.prems Suc.IH [of "r + 1" "acc @ [acc ! r]" rest'] by (simp add: rd_append)
qed simp

lemma backref_correct:
  assumes "r < length acc" "len + 2 \<le> length rest"
  shows "lzf_backref (acc @ rest) (length acc) r len = Some (lz_copy acc r (len + 2) @ drop (len + 2) rest)"
proof (cases "len > 9 \<and> length acc \<ge> r + (len + 2)")
  case True
  then have "lz_copy acc r (len + 2) = acc @ take (len + 2) (drop r acc)" by (intro lz_copy_disjoint) simp
  moreover have "get_bytes (acc @ rest) r (len + 2) = take (len + 2) (drop r acc)"
    using True by (simp add: get_bytes_def)
  moreover have "length (take (len + 2) (drop r acc)) = len + 2" using True by auto
  ultimately show ?thesis
    using True assms(2) unfolding lzf_backref_def put_bytes_def by (simp del: lz_copy.simps length_take)
next
  case False
  show ?thesis unfolding lzf_backref_def if_not_P [OF False] by (rule octets_correct [OF assms])
qed

lemma literals_copy:
  "ip + k \<le> length inp \<Longrightarrow> op + k \<le> length out \<Longrightarrow> lzf_literals inp out ip op k = Some (put_bytes out op (get_bytes inp ip k))"
proof (induction k arbitrary: out ip op)
  case (Suc k)
  have "drop ip inp = inp ! ip # drop (ip + 1) inp" using Suc.prems(1) by (simp add: Cons_nth_drop_Suc)
  then have "get_bytes inp ip (Suc k) = inp ! ip # get_bytes inp (ip + 1) k" by (simp add: get_bytes_def)
  moreover have "put_bytes (out[op := b]) (op + 1) ys = put_bytes out op (b # ys)" for b ys
    using Suc.prems(2) by (simp add: put_bytes_def take_Suc_conv_app_nth)
  ultimately show ?case using Suc.IH [of "ip + 1" "op + 1" "out[op := inp ! ip]"] Suc.prems by (simp add: rd_def wr_def)
qed (simp add: put_bytes_def get_bytes_def)

lemma dloop_lit:
  assumes "rd inp ip = Some c" "unat c < 32" "k = unat c + 1" "op + k \<le> length out" "ip + 1 + k \<le> length inp"
  shows "lzf_dloop inp out ip op = lzf_dloop inp (put_bytes out op (get_bytes inp (ip + 1) k)) (ip + 1 + k) (op + k)"
  using assms literals_copy [of "ip + 1" k inp op out] by (subst lzf_dloop.simps) (simp add: Let_def del: lzf_literals.simps)

lemma dloop_ref:
  assumes "rd inp ip = Some c" "32 \<le> unat c" "ip + 1 < length inp" "lzf_reflen inp (unat c div 32) (ip + 1) = Some (len, ip')"
    "rd inp ip' = Some b" "op + len + 2 \<le> length out"
    "int op - int (unat c mod 32 * 256) - 1 - int (unat b) = int r" "lzf_backref out op r len = Some out'"
  shows "lzf_dloop inp out ip op = lzf_dloop inp out' (ip' + 1) (op + len + 2)"
proof -
  have "\<not> ip' \<ge> length inp" using assms(5) by (auto simp: rd_def split: if_splits)
  then show ?thesis using assms by (subst lzf_dloop.simps) (simp add: Let_def)
qed

text \<open>The bytes of a back reference mean what they should.\<close>

lemma ref_bytes:
  assumes "off < 8192" "1 \<le> len" "len \<le> 262" "inp = pre @ tok_bytes (Ref off len) @ post"
  shows "\<exists>c b ip'. rd inp (length pre) = Some c \<and> 32 \<le> unat c \<and> length pre + 1 < length inp \<and>
    lzf_reflen inp (unat c div 32) (length pre + 1) = Some (len, ip') \<and> rd inp ip' = Some b \<and>
    ip' + 1 = length pre + length (tok_bytes (Ref off len)) \<and> unat c mod 32 * 256 + unat b = off"
proof -
  have o: "off div 256 < 32" using assms(1) by simp
  have b: "unat (of_nat off :: byte) = off mod 256" by (simp add: unsigned_of_nat take_bit_eq_mod)
  show ?thesis
  proof (cases "len < 7")
    case True
    define c :: byte where "c = of_nat (off div 256 + len * 32)"
    have c: "unat c = off div 256 + len * 32" using o True by (simp add: c_def unsigned_of_nat take_bit_nat_eq_self del: of_nat_add)
    have "unat c div 32 = len" "unat c mod 32 = off div 256" using o by (simp_all add: c)
    moreover have "inp = pre @ [c, of_nat off] @ post" using assms(4) True by (simp add: c_def)
    ultimately show ?thesis
      using assms(2) True b c by (intro exI [of _ c] exI [of _ "of_nat off"] exI [of _ "length pre + 1"])
        (simp add: rd_def nth_append lzf_reflen_def)
  next
    case False
    define c d :: byte where "c = of_nat (off div 256 + 7 * 32)" and "d = of_nat (len - 7)"
    have c: "unat c = off div 256 + 7 * 32" using o by (simp add: c_def unsigned_of_nat take_bit_nat_eq_self del: of_nat_add)
    have d: "unat d = len - 7" using assms(3) by (simp add: d_def unsigned_of_nat take_bit_nat_eq_self del: of_nat_diff)
    have "unat c div 32 = 7" "unat c mod 32 = off div 256"
      using o mod_mult_self1 [of "off div 256" 7 32] by (simp_all add: c)
    moreover have "inp = pre @ [c, d, of_nat off] @ post" using assms(4) False by (simp add: c_def d_def)
    ultimately show ?thesis
      using False b c d by (intro exI [of _ c] exI [of _ "of_nat off"] exI [of _ "length pre + 2"])
        (simp add: rd_def nth_append lzf_reflen_def)
  qed
qed

lemma dloop_tokens:
  assumes "list_all tok_ok ts" "lz_run ts acc = Some res" "length res \<le> length (acc @ rest)"
  shows "lzf_dloop (pre @ lz_bytes ts) (acc @ rest) (length pre) (length acc) =
    Some (Lzf_ok (res @ drop (length res - length acc) rest) (length res))"
  using assms
proof (induction ts arbitrary: pre acc rest)
  case Nil
  then show ?case by (subst lzf_dloop.simps) simp
next
  case (Cons t ts)
  show ?case
  proof (cases t)
    case (Lit bs)
    then have bs: "bs \<noteq> []" "length bs \<le> 32" and run: "lz_run ts (acc @ bs) = Some res" using Cons.prems by simp_all
    then have len: "length acc + length bs \<le> length res" using lz_run_length [of ts "acc @ bs" res] by simp
    define c :: byte where "c = of_nat (length bs - 1)"
    have c: "unat c + 1 = length bs"
      using bs by (simp add: c_def unsigned_of_nat take_bit_nat_eq_self del: of_nat_diff)
    define rest' where "rest' = drop (length bs) rest"
    let ?inp = "pre @ lz_bytes (t # ts)"
    have inp: "?inp = pre @ c # bs @ lz_bytes ts" using Lit by (simp add: c_def)
    have "lzf_dloop ?inp (acc @ rest) (length pre) (length acc) =
        lzf_dloop ?inp (put_bytes (acc @ rest) (length acc) (get_bytes ?inp (length pre + 1) (length bs)))
          (length pre + 1 + length bs) (length acc + length bs)"
      using bs c len Cons.prems(3) unfolding inp by (intro dloop_lit [of _ _ c]) (simp_all add: rd_def nth_append)
    also have "get_bytes ?inp (length pre + 1) (length bs) = bs" unfolding inp by (simp add: get_bytes_def)
    also have "put_bytes (acc @ rest) (length acc) bs = (acc @ bs) @ rest'" by (simp add: put_bytes_def rest'_def)
    also have "lzf_dloop ?inp ((acc @ bs) @ rest') (length pre + 1 + length bs) (length acc + length bs) =
        lzf_dloop ((pre @ c # bs) @ lz_bytes ts) ((acc @ bs) @ rest') (length (pre @ c # bs)) (length (acc @ bs))"
      unfolding inp by simp
    also have "\<dots> = Some (Lzf_ok (res @ drop (length res - length (acc @ bs)) rest') (length res))"
      using Cons.prems len run by (intro Cons.IH) (auto simp: rest'_def)
    also have "drop (length res - length (acc @ bs)) rest' = drop (length res - length acc) rest"
      using len by (simp add: rest'_def)
    finally show ?thesis .
  next
    case (Ref off len)
    then have ok: "off < 8192" "1 \<le> len" "len \<le> 262" "off < length acc"
      and run: "lz_run ts (lz_copy acc (length acc - off - 1) (len + 2)) = Some res"
      using Cons.prems by (auto split: if_splits)
    let ?acc = "lz_copy acc (length acc - off - 1) (len + 2)"
    have len: "length acc + (len + 2) \<le> length res" using lz_run_length [OF run] by simp
    then have br: "lzf_backref (acc @ rest) (length acc) (length acc - off - 1) len = Some (?acc @ drop (len + 2) rest)"
      using Cons.prems(3) ok(4) by (intro backref_correct) auto
    obtain c b ip' where cb: "rd (pre @ lz_bytes (t # ts)) (length pre) = Some c" "32 \<le> unat c"
      "length pre + 1 < length (pre @ lz_bytes (t # ts))"
      "lzf_reflen (pre @ lz_bytes (t # ts)) (unat c div 32) (length pre + 1) = Some (len, ip')"
      "rd (pre @ lz_bytes (t # ts)) ip' = Some b" "ip' + 1 = length pre + length (tok_bytes t)" "unat c mod 32 * 256 + unat b = off"
      using ref_bytes [OF ok(1-3), of _ pre "lz_bytes ts"] Ref by auto
    have "int (length acc) - int (unat c mod 32 * 256) - 1 - int (unat b) = int (length acc - off - 1)"
      using ok(4) cb(7) by linarith
    then have "lzf_dloop (pre @ lz_bytes (t # ts)) (acc @ rest) (length pre) (length acc) =
        lzf_dloop (pre @ lz_bytes (t # ts)) (?acc @ drop (len + 2) rest) (ip' + 1) (length acc + len + 2)"
      using len Cons.prems(3) br by (intro dloop_ref [OF cb(1-5)]) auto
    also have "\<dots> = lzf_dloop ((pre @ tok_bytes t) @ lz_bytes ts) (?acc @ drop (len + 2) rest) (length (pre @ tok_bytes t)) (length ?acc)"
      unfolding cb(6) by simp
    also have "\<dots> = Some (Lzf_ok (res @ drop (length res - length ?acc) (drop (len + 2) rest)) (length res))"
      using Cons.prems len run by (intro Cons.IH) auto
    also have "drop (length res - length ?acc) (drop (len + 2) rest) = drop (length res - length acc) rest"
    proof -
      have "length res - length ?acc + (len + 2) = length res - length acc" using len by (simp only: length_lz_copy)
      then show ?thesis by (simp only: drop_drop)
    qed
    finally show ?thesis .
  qed
qed

text \<open>Decompression never leaves its buffers, whatever the compressed bytes are.\<close>

lemma octets_safe: "op + k \<le> length out \<Longrightarrow> ref < op \<Longrightarrow> \<exists>out'. lzf_octets out op ref k = Some out' \<and> length out' = length out"
proof (induction k arbitrary: out op ref)
  case (Suc k)
  then have "rd out ref = Some (out ! ref)" "wr out op (out ! ref) = Some (out[op := out ! ref])" by (simp_all add: rd_def wr_def)
  then show ?case using Suc.IH [of "op + 1" "out[op := out ! ref]" "ref + 1"] Suc.prems by simp
qed simp

lemma backref_safe:
  assumes "op + len + 2 \<le> length out" "ref < op"
  shows "\<exists>out'. lzf_backref out op ref len = Some out' \<and> length out' = length out"
  using octets_safe [of op "len + 2" out ref] assms by (auto simp: lzf_backref_def simp del: lzf_octets.simps)

lemma dloop_safe:
  "op \<le> length out \<Longrightarrow>
   \<exists>r. lzf_dloop inp out ip op = Some r \<and> (\<forall>out' n. r = Lzf_ok out' n \<longrightarrow> length out' = length out \<and> n \<le> length out)"
proof (induction "length inp - ip" arbitrary: out ip op rule: less_induct)
  case less
  show ?case
  proof (cases "ip < length inp")
    case False
    then show ?thesis using less.prems by (subst lzf_dloop.simps) simp
  next
    case ip: True
    then obtain c where c: "rd inp ip = Some c" by (simp add: rd_def)
    show ?thesis
    proof (cases "unat c < 32")
      case True
      let ?k = "unat c + 1"
      show ?thesis
      proof (cases "op + ?k \<le> length out \<and> ip + 1 + ?k \<le> length inp")
        case fits: True
        let ?out = "put_bytes out op (get_bytes inp (ip + 1) ?k)"
        have "length ?out = length out" using fits by (intro length_put_bytes) auto
        moreover have "length inp - (ip + 1 + ?k) < length inp - ip" using ip by simp
        ultimately show ?thesis
          using dloop_lit [OF c True refl, of op out] less.hyps [of "ip + 1 + ?k" "op + ?k" ?out] fits by simp
      next
        case False
        then show ?thesis using c True ip by (subst lzf_dloop.simps) (auto simp: Let_def)
      qed
    next
      case False
      then have c32: "32 \<le> unat c" by simp
      show ?thesis
      proof (cases "ip + 1 < length inp")
        case False
        then show ?thesis using c c32 ip by (subst lzf_dloop.simps) (simp add: Let_def)
      next
        case ip1: True
        then obtain len ip' where len: "lzf_reflen inp (unat c div 32) (ip + 1) = Some (len, ip')" "ip < ip'"
          by (cases "unat c div 32 = 7") (auto simp: lzf_reflen_def rd_def)
        show ?thesis
        proof (cases "ip' < length inp")
          case False
          then show ?thesis using c c32 ip ip1 len by (subst lzf_dloop.simps) (simp add: Let_def)
        next
          case True
          then obtain b where b: "rd inp ip' = Some b" by (simp add: rd_def)
          let ?ref = "int op - int (unat c mod 32 * 256) - 1 - int (unat b)"
          show ?thesis
          proof (cases "op + len + 2 \<le> length out \<and> 0 \<le> ?ref")
            case fits: True
            then have "nat ?ref < op" by linarith
            then obtain out' where out': "lzf_backref out op (nat ?ref) len = Some out'" "length out' = length out"
              using backref_safe fits by blast
            have "lzf_dloop inp out ip op = lzf_dloop inp out' (ip' + 1) (op + len + 2)"
              using fits out'(1) by (intro dloop_ref [OF c c32 ip1 len(1) b]) auto
            then show ?thesis using less.hyps [of "ip' + 1" "op + len + 2" out'] fits out'(2) ip len(2) by simp
          next
            case False
            then show ?thesis using c c32 ip ip1 len b by (subst lzf_dloop.simps) (auto simp: Let_def)
          qed
        qed
      qed
    qed
  qed
qed

section \<open>Compression writes tokens\<close>

definition matches :: "byte list \<Rightarrow> nat \<Rightarrow> nat \<Rightarrow> nat \<Rightarrow> bool" where
  "matches inp ref ip len \<longleftrightarrow> ip + len \<le> length inp \<and> (\<forall>i < len. inp ! (ref + i) = inp ! (ip + i))"

lemma matches_Suc:
  "matches inp ref ip len \<Longrightarrow> ip + len < length inp \<Longrightarrow> inp ! (ref + len) = inp ! (ip + len) \<Longrightarrow> matches inp ref ip (Suc len)"
  by (auto simp: matches_def less_Suc_eq)

text \<open>The position after the last comparison that succeeded; \<open>len\<close> positions are known to agree, and the next one as well.\<close>

lemma unrolled_correct:
  assumes "ref < ip" "matches inp ref ip (Suc len)" "ip + len + n < length inp"
  shows "\<exists>len' stop. lzf_unrolled inp ref ip len n = Some (len', stop) \<and> len \<le> len' \<and> len' \<le> len + n \<and>
    (if stop then len < len' \<and> matches inp ref ip len' else len' = len + n \<and> matches inp ref ip (Suc len'))"
  using assms
proof (induction n arbitrary: len)
  case (Suc n)
  let ?l = "len + 1"
  have r: "rd inp (ref + ?l) = Some (inp ! (ref + ?l))" "rd inp (ip + ?l) = Some (inp ! (ip + ?l))"
    using Suc.prems by (simp_all add: rd_def)
  show ?case
  proof (cases "inp ! (ref + ?l) = inp ! (ip + ?l)")
    case True
    then have "matches inp ref ip (Suc ?l)" using Suc.prems by (intro matches_Suc) simp_all
    then show ?thesis using Suc.IH [of ?l] Suc.prems r True by fastforce
  next
    case False
    then show ?thesis using Suc.prems r by (intro exI [of _ ?l] exI [of _ True]) simp
  qed
qed auto

lemma extend_correct:
  assumes "ref < ip" "matches inp ref ip (Suc len)" "ip + maxlen \<le> length inp"
  shows "\<exists>len'. lzf_extend inp ref ip maxlen len = Some len' \<and> len < len' \<and> (len' = Suc len \<or> len' \<le> maxlen) \<and> matches inp ref ip len'"
  using assms
proof (induction "maxlen - len" arbitrary: len rule: less_induct)
  case less
  let ?l = "len + 1"
  show ?case
  proof (cases "?l < maxlen")
    case True
    have r: "rd inp (ref + ?l) = Some (inp ! (ref + ?l))" "rd inp (ip + ?l) = Some (inp ! (ip + ?l))"
      using less.prems True by (simp_all add: rd_def)
    show ?thesis
    proof (cases "inp ! (ref + ?l) = inp ! (ip + ?l)")
      case eq: True
      then have "matches inp ref ip (Suc ?l)" using less.prems True by (intro matches_Suc) simp_all
      then have "\<exists>len'. lzf_extend inp ref ip maxlen ?l = Some len' \<and> ?l < len' \<and> (len' = Suc ?l \<or> len' \<le> maxlen) \<and>
          matches inp ref ip len'"
        using less.prems True by (intro less.hyps) simp_all
      then show ?thesis using r eq True by (subst lzf_extend.simps) (fastforce simp: Let_def)
    next
      case False
      then show ?thesis using r True less.prems by (subst lzf_extend.simps) (simp add: Let_def)
    qed
  next
    case False
    then show ?thesis using less.prems by (subst lzf_extend.simps) (simp add: Let_def)
  qed
qed

lemma matchlen_correct:
  assumes "ref < ip" "matches inp ref ip 3" "maxlen = min (length inp - ip - 2) MAX_REF"
  shows "\<exists>len. lzf_matchlen inp ref ip maxlen = Some len \<and> 3 \<le> len \<and> len \<le> 264 \<and> matches inp ref ip len"
proof -
  have m: "ip + maxlen \<le> length inp" "maxlen \<le> 264" using assms(2,3) by (auto simp: matches_def MAX_REF_def)
  show ?thesis
  proof (cases "maxlen > 16")
    case True
    then have "ip + 2 + 16 < length inp" using assms(3) by auto
    then obtain len stop where u: "lzf_unrolled inp ref ip 2 16 = Some (len, stop)" "2 \<le> len" "len \<le> 18"
      "if stop then 2 < len \<and> matches inp ref ip len else len = 2 + 16 \<and> matches inp ref ip (Suc len)"
      using unrolled_correct [of ref ip inp 2 16] assms(1,2) by (auto simp: numeral_3_eq_3)
    show ?thesis
    proof (cases stop)
      case True
      then show ?thesis using u \<open>maxlen > 16\<close> by (simp add: lzf_matchlen_def)
    next
      case False
      then show ?thesis using u extend_correct [of ref ip inp len maxlen] assms(1) m \<open>maxlen > 16\<close>
        by (fastforce simp: lzf_matchlen_def)
    qed
  next
    case False
    then show ?thesis using extend_correct [of ref ip inp 2 maxlen] assms(1,2) m
      by (auto simp: lzf_matchlen_def numeral_3_eq_3)
  qed
qed

text \<open>
  The state of the compressor: complete tokens \<open>ts\<close> for the input up to the current run, then one byte
  for the length of the run, then its literals.  The length byte of an empty run may lie
  behind the buffer.  Only a full run of literals costs an extra byte.
\<close>

definition lz_state :: "byte list \<Rightarrow> nat \<Rightarrow> lzf_token list \<Rightarrow> lzf_state \<Rightarrow> bool" where
  "lz_state inp n ts s \<longleftrightarrow>
     list_all tok_ok ts \<and> lz_lit s \<le> 31 \<and> lz_lit s \<le> lz_ip s \<and> lz_ip s \<le> length inp \<and> length (lz_out s) = n \<and>
     lz_op s = length (lz_bytes ts) + 1 + lz_lit s \<and> lz_run ts [] = Some (take (lz_ip s - lz_lit s) inp) \<and>
     32 * length (lz_bytes ts) \<le> 33 * (lz_ip s - lz_lit s) \<and>
     (if lz_lit s = 0 then \<exists>rest. lz_out s = lz_bytes ts @ rest
      else \<exists>x rest. lz_out s = lz_bytes ts @ x # get_bytes inp (lz_ip s - lz_lit s) (lz_lit s) @ rest)"

lemma lz_stateD:
  assumes "lz_state inp n ts s"
  shows "list_all tok_ok ts" "lz_lit s \<le> 31" "lz_lit s \<le> lz_ip s" "lz_ip s \<le> length inp" "length (lz_out s) = n"
    "lz_op s = length (lz_bytes ts) + 1 + lz_lit s" "lz_run ts [] = Some (take (lz_ip s - lz_lit s) inp)"
    "32 * length (lz_bytes ts) \<le> 33 * (lz_ip s - lz_lit s)"
    "lz_lit s = 0 \<Longrightarrow> \<exists>rest. lz_out s = lz_bytes ts @ rest"
    "lz_lit s \<noteq> 0 \<Longrightarrow> \<exists>x rest. lz_out s = lz_bytes ts @ x # get_bytes inp (lz_ip s - lz_lit s) (lz_lit s) @ rest"
  using assms by (auto simp: lz_state_def)

lemma get_bytes_snoc: "i + k < length inp \<Longrightarrow> get_bytes inp i (Suc k) = get_bytes inp i k @ [inp ! (i + k)]"
  by (simp add: get_bytes_def take_Suc_conv_app_nth)

lemma take_get_bytes: "take i inp @ get_bytes inp i k = take (i + k) inp"
  by (simp add: get_bytes_def take_add)

text \<open>A finished run becomes a token.\<close>

lemma run_token:
  assumes "lz_run ts [] = Some (take i inp)" "list_all tok_ok ts" "0 < k" "k \<le> 32" "i + k \<le> length inp"
    "lz_op s = length (lz_bytes ts) + 1 + k" "lz_lit s = k" "lz_out s = lz_bytes ts @ x # get_bytes inp i k @ rest"
    "t = Lit (get_bytes inp i k)"
  shows "stop_run s = Some (s\<lparr>lz_out := lz_bytes (ts @ [t]) @ rest\<rparr>)" "list_all tok_ok (ts @ [t])"
    "lz_run (ts @ [t]) [] = Some (take (i + k) inp)" "length (lz_bytes (ts @ [t])) = length (lz_bytes ts) + 1 + k"
proof -
  have len: "length (get_bytes inp i k) = k" using assms(5) by (simp add: get_bytes_def)
  have "wr (lz_out s) (length (lz_bytes ts)) (word_of_int (int k - 1)) = Some (lz_bytes ts @ word_of_int (int k - 1) # get_bytes inp i k @ rest)"
    unfolding assms(8) by (rule wr_append)
  moreover have "word_of_int (int k - 1) = (of_nat (k - 1) :: byte)" using assms(3) by (simp add: of_nat_diff)
  ultimately show "stop_run s = Some (s\<lparr>lz_out := lz_bytes (ts @ [t]) @ rest\<rparr>)"
    using assms(6,7,9) len by (simp add: stop_run_def)
  show "list_all tok_ok (ts @ [t])" using assms(2-4,9) len by (cases "get_bytes inp i k = []") auto
  show "lz_run (ts @ [t]) [] = Some (take (i + k) inp)" using assms(1,9) by (simp add: lz_run_append take_get_bytes)
  show "length (lz_bytes (ts @ [t])) = length (lz_bytes ts) + 1 + k" using assms(9) len by simp
qed

lemma literal_correct:
  assumes "lz_state inp n ts s" "lz_ip s < length inp" "lz_op s < n"
  shows "\<exists>s' ts'. lzf_copy_literal inp s = Some s' \<and> lz_state inp n ts' s' \<and> lz_ip s' = lz_ip s + 1 \<and>
    (lz_op s' = lz_op s + 1 \<or> lz_op s' = lz_op s + 2 \<and> lz_lit s' = 0) \<and> (lz_lit s = 0 \<longrightarrow> lz_op s' = lz_op s + 1)"
proof -
  note I = lz_stateD [OF assms(1)]
  let ?i = "lz_ip s - lz_lit s" and ?k = "lz_lit s + 1" and ?b = "inp ! lz_ip s"
  obtain x rest where out: "lz_out s = lz_bytes ts @ x # get_bytes inp ?i (lz_lit s) @ rest"
  proof (cases "lz_lit s = 0")
    case True
    then obtain r where r: "lz_out s = lz_bytes ts @ r" using I(9) by blast
    then obtain x rest where "r = x # rest" using assms(3) I(5,6) by (cases r) auto
    then show ?thesis using that True r by (simp add: get_bytes_def)
  next
    case False
    then show ?thesis using that I(10) by blast
  qed
  have lk: "length (get_bytes inp ?i (lz_lit s)) = lz_lit s" using I(3,4) by (simp add: get_bytes_def)
  obtain y rest' where rest: "rest = y # rest'" using out assms(3) I(5,6) lk by (cases rest) auto
  define t where "t = s\<lparr>lz_lit := ?k, lz_out := lz_bytes ts @ x # get_bytes inp ?i ?k @ rest', lz_op := lz_op s + 1, lz_ip := lz_ip s + 1\<rparr>"
  have "get_bytes inp ?i ?k = get_bytes inp ?i (lz_lit s) @ [?b]" using get_bytes_snoc [of ?i "lz_lit s" inp] I(3) assms(2) by simp
  moreover have "wr (lz_out s) (lz_op s) ?b = Some ((lz_bytes ts @ x # get_bytes inp ?i (lz_lit s)) @ ?b # rest')"
    using wr_append [of "lz_bytes ts @ x # get_bytes inp ?i (lz_lit s)" y rest' ?b] out rest I(6) lk by simp
  ultimately have copy: "lzf_copy_literal inp s = (if ?k = MAX_LIT then do { s \<leftarrow> stop_run t; Some (start_run s) } else Some t)"
    using assms(2) by (cases "?k = MAX_LIT") (simp_all add: lzf_copy_literal_def put_byte_def rd_def t_def del: One_nat_def add_Suc_right)
  have ik: "?i + ?k \<le> length inp" "lz_ip t - lz_lit t = ?i" using I(3) assms(2) by (simp_all add: t_def)
  show ?thesis
  proof (cases "?k = MAX_LIT")
    case True
    let ?l = "Lit (get_bytes inp ?i ?k)"
    note r = run_token [OF I(7,1), of ?k t x rest' ?l]
    have k: "?k = 32" "?k \<le> 32" "0 < ?k" using True by (simp_all add: MAX_LIT_def)
    have r': "stop_run t = Some (t\<lparr>lz_out := lz_bytes (ts @ [?l]) @ rest'\<rparr>)" "list_all tok_ok (ts @ [?l])"
      "lz_run (ts @ [?l]) [] = Some (take (?i + ?k) inp)" "length (lz_bytes (ts @ [?l])) = length (lz_bytes ts) + 1 + ?k"
      using r k ik I(6) by (simp_all add: t_def add.commute)
    define u where "u = start_run (t\<lparr>lz_out := lz_bytes (ts @ [?l]) @ rest'\<rparr>)"
    have n: "length (lz_bytes (ts @ [?l]) @ rest') = n"
      using I(5) out rest r'(4) lk k(1) by simp
    have "lz_state inp n (ts @ [?l]) u"
      unfolding lz_state_def using r'(2-4) n I(3,6,8) assms(2) k(1)
      by (simp add: u_def start_run_def t_def del: lz_bytes_simps)
    then show ?thesis using copy True r'(1) I(6) by (intro exI [of _ u]) (auto simp: u_def start_run_def t_def MAX_LIT_def)
  next
    case False
    then have "lz_state inp n ts t"
      unfolding lz_state_def using I(1-8) assms(2) out rest lk ik
      by (auto simp: t_def MAX_LIT_def)
    then show ?thesis using copy False by (intro exI [of _ t]) (auto simp: t_def)
  qed
qed

definition undo_run :: "lzf_state \<Rightarrow> lzf_state" where
  "undo_run s = s\<lparr>lz_op := lz_op s - (if lz_lit s = 0 then 1 else 0)\<rparr>"

text \<open>The pending literals become a token; the length byte of an empty run is given up.\<close>

lemma flush_correct:
  assumes "lz_state inp n ts s" "lz_op s \<le> n"
  shows "\<exists>s' ts' rest. stop_run s = Some s' \<and> s' = s\<lparr>lz_out := lz_bytes ts' @ rest\<rparr> \<and> list_all tok_ok ts' \<and>
    lz_run ts' [] = Some (take (lz_ip s) inp) \<and> lz_op (undo_run s') = length (lz_bytes ts') \<and>
    length (lz_bytes ts' @ rest) = n \<and> 32 * length (lz_bytes ts') \<le> 33 * lz_ip s + 32"
proof (cases "lz_lit s = 0")
  case True
  note I = lz_stateD [OF assms(1)]
  obtain r where r: "lz_out s = lz_bytes ts @ r" using I(9) True by blast
  then obtain x rest where x: "r = x # rest" using assms(2) I(5,6) True by (cases r) auto
  have "stop_run s = Some (s\<lparr>lz_out := lz_bytes ts @ word_of_int (- 1) # rest\<rparr>)"
    using r x I(6) True by (simp add: stop_run_def)
  then show ?thesis using I r x True by (intro exI [of _ ts] exI conjI) (auto simp: undo_run_def)
next
  case False
  note I = lz_stateD [OF assms(1)]
  let ?i = "lz_ip s - lz_lit s"
  obtain x rest where out: "lz_out s = lz_bytes ts @ x # get_bytes inp ?i (lz_lit s) @ rest" using I(10) False by blast
  let ?l = "Lit (get_bytes inp ?i (lz_lit s))"
  have len: "length (get_bytes inp ?i (lz_lit s)) = lz_lit s" using I(3,4) by (simp add: get_bytes_def)
  note r = run_token [OF I(7,1) _ _ _ I(6) refl out refl]
  have "lz_op (undo_run (s\<lparr>lz_out := lz_bytes (ts @ [?l]) @ rest\<rparr>)) = length (lz_bytes (ts @ [?l]))"
    using r(4) False I by (simp add: undo_run_def)
  moreover have "32 * length (lz_bytes (ts @ [?l])) \<le> 33 * lz_ip s + 32"
    using r(4) False I(2-4,8) by simp
  moreover have "length (lz_bytes (ts @ [?l]) @ rest) = n" using out I(5) len by simp
  ultimately show ?thesis
    using r(1-3) False I(2-4) by (intro exI [of _ "ts @ [?l]"] exI [of _ rest] exI conjI) simp_all
qed

lemma put_byte_append:
  "lz_out s = pre @ x # rest \<Longrightarrow> lz_op s = length pre \<Longrightarrow>
    put_byte s b = Some (s\<lparr>lz_out := (pre @ [b]) @ rest, lz_op := length (pre @ [b])\<rparr>)"
  by (simp add: put_byte_def)

lemma write_ref_correct:
  assumes "lz_out s = pre @ rest" "lz_op s = length pre" "3 \<le> length rest"
  shows "\<exists>rest'. lzf_write_ref s off len =
    Some (s\<lparr>lz_out := (pre @ tok_bytes (Ref off len)) @ rest', lz_op := length (pre @ tok_bytes (Ref off len))\<rparr>) \<and>
    length rest = length (tok_bytes (Ref off len)) + length rest'"
proof -
  obtain x y z r where rest: "rest = x # y # z # r"
    using assms(3) by (metis Suc_le_length_iff numeral_3_eq_3)
  show ?thesis
  proof (cases "len < 7")
    case True
    then show ?thesis using assms(1,2) rest
      by (intro exI [of _ "z # r"])
        (simp add: lzf_write_ref_def put_byte_append [where pre = pre] put_byte_append [where pre = "pre @ [c]" for c])
  next
    case False
    then show ?thesis using assms(1,2) rest
      by (intro exI [of _ r])
        (simp add: lzf_write_ref_def put_byte_append [where pre = pre] put_byte_append [where pre = "pre @ [c]" for c]
          put_byte_append [where pre = "pre @ [c, d]" for c d])
  qed
qed

text \<open>A reference to a match produces the matched input.\<close>

lemma match_token:
  assumes "lz_run ts [] = Some (take ip inp)" "matches inp ref ip (len + 2)" "ref + off + 1 = ip"
  shows "lz_run (ts @ [Ref off len]) [] = Some (take (ip + (len + 2)) inp)"
proof -
  have "ip \<le> length inp" using assms(2) by (simp add: matches_def)
  then show ?thesis using assms lz_copy_input [of ref ip "len + 2" inp] by (auto simp: lz_run_append matches_def)
qed

text \<open>What a round of the loop leaves, unless it gives up because the output is full.\<close>

definition lz_next :: "byte list \<Rightarrow> nat \<Rightarrow> lzf_state \<Rightarrow> (lzf_state \<times> bool) option option \<Rightarrow> bool" where
  "lz_next inp n s r \<longleftrightarrow>
     (case r of None \<Rightarrow> False
      | Some None \<Rightarrow> 32 * n < 33 * length inp + 192
      | Some (Some (s', stop)) \<Rightarrow> lz_ip s < lz_ip s' \<and> (\<exists>ts'. lz_state inp n ts' s') \<and> (stop \<longrightarrow> lz_ip s' + 2 \<ge> length inp))"

lemma lz_state_op: "lz_state inp n ts s \<Longrightarrow> 32 * lz_op s \<le> 33 * lz_ip s + 32"
  using lz_stateD(3,6,8) [of inp n ts s] by linarith

lemma rehash_correct:
  assumes "2 \<le> lz_ip s" "lz_ip s + 2 < length inp"
  shows "\<exists>h t. lzf_rehash inp s = Some (s\<lparr>lz_hval := h, lz_htab := t\<rparr>)"
proof -
  obtain k where "lz_ip s = Suc (Suc k)" using assms(1) by (metis add_2_eq_Suc le_Suc_ex)
  then have "lzf_rehash inp s = Some (s\<lparr>lz_hval := h, lz_htab := t, lz_ip := lz_ip s\<rparr>)"
    if "h = push_bit 8 (push_bit 8 (push_bit 8 (ucast (inp ! k)) OR ucast (inp ! Suc k)) OR ucast (inp ! Suc (Suc k))) OR
          ucast (inp ! Suc (Suc (Suc k)))"
      "t = (lz_htab s)(IDX (push_bit 8 (push_bit 8 (ucast (inp ! k)) OR ucast (inp ! Suc k)) OR ucast (inp ! Suc (Suc k))) := of_nat k,
          IDX h := of_nat (Suc k))" for h t
    using assms(2) that by (simp add: lzf_rehash_def lzf_hash_step_def FRST_def NEXT_def rd_def Let_def)
  then show ?thesis by fastforce
qed

lemma lz_state_hash: "lz_state inp n ts (s\<lparr>lz_hval := h, lz_htab := t\<rparr>) = lz_state inp n ts s"
  by (simp add: lz_state_def)

lemma matchlen_correct2:
  assumes "ref < ip" "matches inp ref ip 3" "maxlen = min (length inp - ip - 2) MAX_REF"
  shows "\<exists>len. lzf_matchlen inp ref ip maxlen = Some (len + 2) \<and> 1 \<le> len \<and> len \<le> 262 \<and> matches inp ref ip (len + 2)"
proof -
  obtain m where m: "lzf_matchlen inp ref ip maxlen = Some m" "3 \<le> m" "m \<le> 264" "matches inp ref ip m"
    using matchlen_correct [OF assms] by blast
  have "(m - 2) + 2 = m" using m(2) by linarith
  then obtain len where "m = len + 2" by metis
  then show ?thesis using m by auto
qed

lemma lz_next_hash: "lz_next inp n (s\<lparr>lz_hval := h, lz_htab := t\<rparr>) r = lz_next inp n s r"
  by (simp add: lz_next_def split: option.split prod.split)

lemma emit_match_correct:
  assumes "lz_state inp n ts s" "matches inp ref (lz_ip s) 3" "ref + off + 1 = lz_ip s" "off < 8192"
  shows "lz_next inp n s (lzf_emit_match inp s ref off)"
proof -
  note I = lz_stateD [OF assms(1)]
  let ?undo = "if lz_lit s = 0 then 1 else 0 :: nat"
  show ?thesis
  proof (cases "lz_op s - ?undo + 3 + 1 \<ge> n")
    case True
    then have "lz_op s + 3 + 1 \<ge> n" by linarith
    moreover have "32 * n < 33 * length inp + 192" using lz_state_op [OF assms(1)] I(4) \<open>lz_op s + 3 + 1 \<ge> n\<close> by linarith
    ultimately show ?thesis using True I(5) by (simp add: lzf_emit_match_def lz_next_def Let_def)
  next
    case room: False
    then have "lz_op s \<le> n" by (auto split: if_splits)
    then obtain ts' rest where f: "stop_run s = Some (s\<lparr>lz_out := lz_bytes ts' @ rest\<rparr>)" "list_all tok_ok ts'"
      "lz_run ts' [] = Some (take (lz_ip s) inp)" "lz_op s - ?undo = length (lz_bytes ts')"
      "length (lz_bytes ts' @ rest) = n" "32 * length (lz_bytes ts') \<le> 33 * lz_ip s + 32"
      using flush_correct [OF assms(1)] by (auto simp: undo_run_def)
    obtain len where m: "lzf_matchlen inp ref (lz_ip s) (min (length inp - lz_ip s - 2) MAX_REF) = Some (len + 2)"
      "1 \<le> len" "len \<le> 262" "matches inp ref (lz_ip s) (len + 2)"
      using matchlen_correct2 [OF _ assms(2) refl] assms(3) by auto
    let ?t = "Ref off len"
    define s1 where "s1 = s\<lparr>lz_out := lz_bytes ts' @ rest, lz_op := length (lz_bytes ts'), lz_ip := lz_ip s + 1\<rparr>"
    obtain rest' where w: "lzf_write_ref s1 off len =
        Some (s1\<lparr>lz_out := (lz_bytes ts' @ tok_bytes ?t) @ rest', lz_op := length (lz_bytes ts' @ tok_bytes ?t)\<rparr>)"
      "length rest = length (tok_bytes ?t) + length rest'"
      using write_ref_correct [of s1 "lz_bytes ts'" rest off len] f(4,5) room by (auto simp: s1_def simp del: tok_bytes.simps)
    define s2 where "s2 = s\<lparr>lz_out := lz_bytes (ts' @ [?t]) @ rest', lz_lit := 0,
      lz_op := length (lz_bytes (ts' @ [?t])) + 1, lz_ip := lz_ip s + (len + 2)\<rparr>"
    have "length (tok_bytes ?t) \<le> (if len < 7 then 2 else 3)" by simp
    then have "32 * length (lz_bytes (ts' @ [?t])) \<le> 33 * (lz_ip s + (len + 2))"
      using f(6) m(2) by (auto split: if_splits)
    moreover have "length (lz_bytes (ts' @ [?t]) @ rest') = n"
      using f(5) w(2) by simp
    moreover have "list_all tok_ok (ts' @ [?t])" using f(2) m(2,3) assms(4) by simp
    ultimately have st: "lz_state inp n (ts' @ [?t]) s2"
      unfolding lz_state_def using m(4) match_token [OF f(3) m(4) assms(3)]
      by (simp add: s2_def matches_def del: lz_bytes_simps)
    have "lzf_emit_match inp s ref off = (if lz_ip s2 + 2 \<ge> length inp then Some (Some (s2, True))
        else do { s \<leftarrow> lzf_rehash inp s2; Some (Some (s, False)) })"
      using room f(1,4) m(1) w(1) I(5)
      by (simp add: lzf_emit_match_def s1_def s2_def start_run_def Let_def del: tok_bytes.simps)
    moreover have "lz_ip s < lz_ip s2" "2 \<le> lz_ip s2" using m(2) by (simp_all add: s2_def)
    moreover have "\<exists>us. lz_state inp n us s2" using st by blast
    moreover have "\<exists>us. lz_state inp n us (s2\<lparr>lz_hval := h, lz_htab := t\<rparr>)" for h t using st lz_state_hash by blast
    ultimately show ?thesis using rehash_correct [of s2 inp] by (auto simp: lz_next_def)
  qed
qed

text \<open>
  The test for a match reads inside the input: a distance below \<^verbatim>\<open>MAX_OFF\<close> as an unsigned number
  means that the reference lies before the position.
\<close>

lemma found_correct:
  assumes "ip + 2 < length inp" "length inp < 2 ^ 32" "ref < 2 ^ 32" "off = nat ((int ip - int ref - 1) mod 2 ^ 64)"
  shows "\<exists>b. lzf_found inp ip ref off = Some b \<and> (b \<longrightarrow> ref + off + 1 = ip \<and> off < 8192 \<and> matches inp ref ip 3)"
proof (cases "off < MAX_OFF \<and> ref > 0")
  case True
  have "ref < ip"
  proof (rule ccontr)
    assume "\<not> ref < ip"
    then have "(int ip - int ref - 1 + 2 ^ 64) mod 2 ^ 64 = int ip - int ref - 1 + 2 ^ 64"
      using assms(1-3) by (intro mod_pos_pos_trivial) auto
    then have "int off = int ip - int ref - 1 + 2 ^ 64" using assms(4) by (simp only: mod_add_self2) simp
    then show False using assms(1-3) True by (simp add: MAX_OFF_def)
  qed
  then have off: "ref + off + 1 = ip" using assms(1,2,4) by (simp add: mod_pos_pos_trivial)
  then show ?thesis using True assms(1)
    by (auto simp: lzf_found_def rd_def matches_def MAX_OFF_def numeral_3_eq_3 less_Suc_eq)
next
  case False
  then have "lzf_found inp ip ref off = Some False" unfolding lzf_found_def by (simp only: if_False)
  then show ?thesis by (intro exI [of _ False]) simp
qed

lemma round_correct:
  assumes "lz_state inp n ts s" "lz_ip s + 2 < length inp" "length inp < 2 ^ 32"
  shows "lz_next inp n s (lzf_round inp s)"
proof -
  let ?h = "push_bit 8 (lz_hval s) OR ucast (inp ! (lz_ip s + 2))"
  let ?ref = "unat (lz_htab s (IDX ?h))"
  let ?off = "nat ((int (lz_ip s) - int ?ref - 1) mod 2 ^ 64)"
  let ?s = "s\<lparr>lz_hval := ?h, lz_htab := (lz_htab s)(IDX ?h := of_nat (lz_ip s))\<rparr>"
  have h: "NEXT (lz_hval s) inp (lz_ip s) = Some ?h" using assms(2) by (simp add: NEXT_def rd_def)
  have s: "lz_state inp n ts ?s" using assms(1) by (simp add: lz_state_hash)
  have "?ref < 2 ^ 32" using unsigned_less [of "lz_htab s (IDX ?h)"] by simp
  then obtain b where b: "lzf_found inp (lz_ip s) ?ref ?off = Some b"
    "b \<longrightarrow> ?ref + ?off + 1 = lz_ip s \<and> ?off < 8192 \<and> matches inp ?ref (lz_ip s) 3"
    using found_correct [OF assms(2,3) _ refl] by blast
  have eq: "lzf_round inp s = (if b then lzf_emit_match inp ?s ?ref ?off
      else if lz_op ?s \<ge> length (lz_out ?s) then Some None
      else do { s \<leftarrow> lzf_copy_literal inp ?s; Some (Some (s, False)) })"
    using h b(1) by (simp add: lzf_round_def Let_def)
  consider "b" | "\<not> b" "lz_op s \<ge> n" | "\<not> b" "lz_op s < n" by fastforce
  then show ?thesis
  proof cases
    case 1
    then have "lz_next inp n ?s (lzf_emit_match inp ?s ?ref ?off)"
      using b(2) by (intro emit_match_correct [OF s]) auto
    then show ?thesis using 1 eq by (simp only: lz_next_hash if_True)
  next
    case 2
    then show ?thesis using eq lz_stateD(4,5) [OF assms(1)] lz_state_op [OF assms(1)] by (simp add: lz_next_def)
  next
    case 3
    then show ?thesis using eq lz_stateD(5) [OF assms(1)] literal_correct [OF s] assms(2) by (auto simp: lz_next_def)
  qed
qed

lemma loop_correct:
  assumes "lz_state inp n ts s" "length inp < 2 ^ 32"
  shows "case lzf_loop inp s of None \<Rightarrow> False
    | Some None \<Rightarrow> 32 * n < 33 * length inp + 192
    | Some (Some s') \<Rightarrow> lz_ip s' + 2 \<ge> length inp \<and> (\<exists>ts'. lz_state inp n ts' s')"
  using assms
proof (induction "length inp - lz_ip s" arbitrary: s ts rule: less_induct)
  case less
  show ?case
  proof (cases "lz_ip s + 2 < length inp")
    case True
    note r = round_correct [OF less.prems(1) True less.prems(2)]
    show ?thesis
    proof (cases "lzf_round inp s")
      case (Some r')
      then show ?thesis
      proof (cases r')
        case None
        then show ?thesis using r Some True by (subst lzf_loop.simps) (simp add: lz_next_def)
      next
        case (Some q)
        obtain s' stop where q: "q = (s', stop)" by fastforce
        obtain ts' where "lz_state inp n ts' s'" "lz_ip s < lz_ip s'" "stop \<longrightarrow> lz_ip s' + 2 \<ge> length inp"
          using r Some \<open>lzf_round inp s = Some r'\<close> q by (auto simp: lz_next_def)
        then show ?thesis using less.hyps [of s' ts'] less.prems(2) True Some \<open>lzf_round inp s = Some r'\<close> q
          by (subst lzf_loop.simps) auto
      qed
    qed (use r in \<open>simp add: lz_next_def\<close>)
  next
    case False
    then show ?thesis using less.prems by (subst lzf_loop.simps) auto
  qed
qed

text \<open>The last two bytes at most are literals, and the three bytes asked for are enough for them.\<close>

lemma tail_correct:
  assumes "lz_state inp n ts s" "lz_ip s + 2 \<ge> length inp" "lz_op s + 3 \<le> n"
  shows "\<exists>s' ts'. lzf_tail inp s = Some s' \<and> lz_state inp n ts' s' \<and> lz_ip s' = length inp \<and> lz_op s' \<le> n"
proof -
  have none: ?thesis if "lz_state inp n ts' s'" "lz_ip s' = length inp" "lz_op s' \<le> n" "lzf_tail inp s = lzf_tail inp s'" for s' ts'
    using that by (auto simp: lzf_tail.simps [of inp s'])
  have one: "\<exists>t us. lzf_tail inp s' = lzf_tail inp t \<and> lz_state inp n us t \<and> lz_ip t = lz_ip s' + 1 \<and>
      (lz_op t = lz_op s' + 1 \<or> lz_op t = lz_op s' + 2 \<and> lz_lit t = 0) \<and> (lz_lit s' = 0 \<longrightarrow> lz_op t = lz_op s' + 1)"
    if "lz_state inp n ts' s'" "lz_ip s' < length inp" "lz_op s' < n" for s' ts'
    using literal_correct [OF that] that(2) by (auto simp: lzf_tail.simps [of inp s'])
  have ip: "lz_ip s \<le> length inp" using lz_stateD(4) [OF assms(1)] .
  show ?thesis
  proof (cases "lz_ip s = length inp")
    case True
    then show ?thesis using none assms by simp
  next
    case False
    then obtain t us where t: "lzf_tail inp s = lzf_tail inp t" "lz_state inp n us t" "lz_ip t = lz_ip s + 1"
      "lz_op t = lz_op s + 1 \<or> lz_op t = lz_op s + 2 \<and> lz_lit t = 0"
      using one [OF assms(1)] assms(3) ip by auto
    show ?thesis
    proof (cases "lz_ip t = length inp")
      case True
      then show ?thesis using none [OF t(2)] t assms(3) by auto
    next
      case False
      then obtain u vs where "lzf_tail inp t = lzf_tail inp u" "lz_state inp n vs u" "lz_ip u = lz_ip t + 1"
        "lz_op u = lz_op t + 1 \<or> lz_op u = lz_op t + 2" "lz_lit t = 0 \<longrightarrow> lz_op u = lz_op t + 1"
        using one [OF t(2)] assms(3) ip t(3,4) lz_stateD(4) [OF t(2)] by auto
      then show ?thesis using none [of vs u] t assms(2,3) lz_stateD(4) [of inp n vs u] by auto
    qed
  qed
qed

text \<open>The compressor writes tokens that stand for its input, or gives up for lack of room.\<close>

lemma compress_tokens:
  assumes "2 \<le> length inp" "length inp < 2 ^ 32" "out \<noteq> []"
  shows "lzf_compress inp out htab = Some (None, 0) \<and> 32 * length out < 33 * length inp + 192 \<or>
    (\<exists>ts rest. lzf_compress inp out htab = Some (Some (lz_bytes ts @ rest), length (lz_bytes ts)) \<and>
      list_all tok_ok ts \<and> lz_run ts [] = Some inp \<and> length (lz_bytes ts @ rest) = length out)"
proof -
  obtain h where h: "FRST inp 0 = Some h" using assms(1) by (cases inp; cases "tl inp") (auto simp: FRST_def rd_def)
  define s where "s = \<lparr>lz_ip = 0, lz_op = 1, lz_lit = 0, lz_hval = h, lz_htab = htab, lz_out = out\<rparr>"
  have "lz_state inp (length out) [] s" by (simp add: lz_state_def s_def)
  note l = loop_correct [OF this assms(2)]
  have ne: "\<not> (length inp = 0 \<or> length out = 0)" using assms(1,3) by auto
  consider "lzf_loop inp s = Some None" "32 * length out < 33 * length inp + 192"
    | t ts where "lzf_loop inp s = Some (Some t)" "lz_ip t + 2 \<ge> length inp" "lz_state inp (length out) ts t"
    using l by (cases "lzf_loop inp s") (auto split: option.splits)
  then show ?thesis
  proof cases
    case 1
    then show ?thesis using ne h by (simp add: lzf_compress_def s_def)
  next
    case 2
    note o = lz_stateD(4,5) [OF 2(3)] lz_state_op [OF 2(3)]
    show ?thesis
    proof (cases "lz_op t + 3 > length out")
      case True
      then show ?thesis using ne h 2(1) o by (simp add: lzf_compress_def s_def)
    next
      case False
      then obtain u us where u: "lzf_tail inp t = Some u" "lz_state inp (length out) us u" "lz_ip u = length inp" "lz_op u \<le> length out"
        using tail_correct [OF 2(3,2)] by auto
      obtain vs rest where v: "stop_run u = Some (u\<lparr>lz_out := lz_bytes vs @ rest\<rparr>)" "list_all tok_ok vs"
        "lz_run vs [] = Some inp" "lz_op u - (if lz_lit u = 0 then 1 else 0) = length (lz_bytes vs)" "length (lz_bytes vs @ rest) = length out"
        using flush_correct [OF u(2,4)] u(3) by (auto simp: undo_run_def)
      have "lzf_compress inp out htab = Some (Some (lz_bytes vs @ rest), length (lz_bytes vs))"
        using ne h 2(1) o(2) False u(1) v(1,4) by (simp add: lzf_compress_def s_def)
      then show ?thesis using v(2,3,5) by blast
    qed
  qed
qed

section \<open>Properties\<close>

text \<open>
  C8: Compression round-trips.  For every input of 2 up to $2^{32} - 1$ bytes, every output buffer
  and whatever the uninitialised hash table holds, \<^verbatim>\<open>lzf_compress\<close> reads and writes inside its buffers only.
  It returns 0 only if the buffer is smaller than the input plus a byte per 32 bytes of
  input plus 6 bytes; otherwise the bytes it reports fit into the buffer and \<^verbatim>\<open>lzf_decompress\<close>, given them and
  a large enough buffer, gives back the input and its length.\<close>

theorem lzf_roundtrip:
  assumes "2 \<le> length inp" "length inp < 2 ^ 32" "length inp \<le> length dst"
  shows "\<exists>r n. lzf_compress inp out htab = Some (r, n) \<and>
    (case r of None \<Rightarrow> n = 0 \<and> 32 * length out < 33 * length inp + 192
     | Some out' \<Rightarrow> 0 < n \<and> n \<le> length out' \<and> length out' = length out \<and>
         lzf_decompress (take n out') dst = Some (Lzf_ok (inp @ drop (length inp) dst) (length inp)))"
proof (cases "lzf_compress inp out htab = Some (None, 0) \<and> 32 * length out < 33 * length inp + 192")
  case True
  then show ?thesis by simp
next
  case False
  then have "out \<noteq> []" by (auto simp: lzf_compress_def)
  then obtain ts rest where c: "lzf_compress inp out htab = Some (Some (lz_bytes ts @ rest), length (lz_bytes ts))"
      "list_all tok_ok ts" "lz_run ts [] = Some inp" "length (lz_bytes ts @ rest) = length out"
    using compress_tokens [OF assms(1,2)] False by blast
  have "lz_bytes ts \<noteq> []" using c(3) assms(1) by (cases ts; cases "hd ts") auto
  moreover have "lzf_decompress (lz_bytes ts) dst = Some (Lzf_ok (inp @ drop (length inp) dst) (length inp))"
    using dloop_tokens [OF c(2,3), of dst "[]"] assms(3) by (simp add: lzf_decompress_def)
  ultimately show ?thesis using c(1,4) by auto
qed

theorem lzf_roundtrip_witness:
  "\<exists>n out'. lzf_compress (replicate 60 7) (replicate 70 0) (\<lambda>_. 1) = Some (Some out', n) \<and>
    lzf_decompress (take n out') (replicate 64 0) = Some (Lzf_ok (replicate 60 7 @ replicate 4 0) 60)"
  using lzf_roundtrip [of "replicate 60 7" "replicate 64 0" "replicate 70 0" "\<lambda>_. 1"] by (auto split: option.splits)

text \<open>
  C9: Decompression of untrusted data is safe.  Whatever the input holds, \<^verbatim>\<open>lzf_decompress\<close> ends, reads and
  writes inside of its buffers only, and either reports an error or returns a
  number of bytes that fits into the output buffer.\<close>

theorem lzf_decompress_safe:
  "case lzf_decompress inp out of None \<Rightarrow> False
   | Some (Lzf_error e) \<Rightarrow> True
   | Some (Lzf_ok out' n) \<Rightarrow> length out' = length out \<and> n \<le> length out"
  unfolding lzf_decompress_def using dloop_safe [of 0 out inp 0] by (auto split: lzf_result.splits)

text \<open>
  The boundary of one byte: given a single byte, \<^verbatim>\<open>lzf_compress\<close> forms its first hash value from two,
  and reads behind the input.\<close>

lemma lzf_compress_one_byte:
  "lzf_compress [b] (x # out) htab = None"
  by (simp add: lzf_compress_def FRST_def rd_def)

end
