(* ===== verification/Spec2Isabelle.thy ===== *)
theory Spec2Isabelle
  imports Intset Dict_Scan Adlist Sds_Strings Zmalloc Listpack_Ops Lzf
begin

text \<open>
  A verification of the data structures of Redis 6.2.6 (\<^verbatim>\<open>redis/redis-6.2.6-annotation/src/\<close>).

  Redis keeps its data in a few containers written for it: dynamic strings (\<^verbatim>\<open>sds\<close>), a linked list
  (\<^verbatim>\<open>adlist\<close>), a hash table that grows while it is in use (\<^verbatim>\<open>dict\<close>), and two compact encodings in one
  block of memory (\<^verbatim>\<open>intset\<close>, \<^verbatim>\<open>listpack\<close>).  They sit on an allocation layer that counts the
  memory in use (\<^verbatim>\<open>zmalloc\<close>) and on string routines (\<^verbatim>\<open>util\<close>); \<^verbatim>\<open>lzf\<close> compresses strings for the dump
  file.  Sets of integers are intsets until they hold something else, and hash tables with \<^verbatim>\<open>sds\<close> keys
  afterwards; the keys of a database, hashes and sets are dictionaries of \<^verbatim>\<open>sds\<close> strings, and streams are
  made of listpacks.  This development models these parts operation by operation and proves that each
  one is the abstract object its users take it for.

  \<^bold>\<open>How the code is rendered.\<close>  A C function is an Isabelle function of the same name; a leading
  underscore becomes \<open>priv_\<close>.  Structures are records, enumerations datatypes; the parts of a
  long function, its loops in particular, are definitions of their own.  State is passed explicitly:
  the linked list lives in a heap of nodes, the packed encodings are lists of bytes, the hash table has
  its two arrays of chains.  Unsigned integers are words or naturals with the reduction written out
  where they can wrap; signed ones are integers with the range stated.  A result of type \<open>option\<close> is
  \<open>None\<close> where the C program has no defined behaviour or stops: an access outside of a block, a null
  pointer, a failed assertion, an overflow of a signed number.  A theorem that gives a result as \<open>Some\<close>
  therefore includes the absence of all of these.  The one exception is the negation of the smallest
  \<^verbatim>\<open>long long\<close> in \<^verbatim>\<open>sdsll2str\<close>, which is taken in two's complement, as the self test of \<^verbatim>\<open>sds.c\<close> does.  Errors the code reports are values of the result.

  \<^bold>\<open>The theories.\<close>

  \<^item> \<open>Redis_Prelude\<close>: machine types, ranges of bytes, little-endian integers, and the facts on words and lists
    the components share.
  \<^item> \<open>Refinement\<close>: runs of operations of a concrete and of an abstract data type, and the locale
    \<open>data_refinement\<close>: if every operation on a well-formed concrete state gives the abstract result and
    keeps well-formedness, within a bound on the size, then every run does.  The integer set, the
    list, the hash table, the string and the listpack are instances.
  \<^item> \<open>Intset\<close> (\<^verbatim>\<open>intset.c\<close>): the sorted packed array with its three widths.  Bisection, widening, insertion and
    removal refine a finite set of integers; the integrity check accepts exactly
    the well-formed blobs and reads only inside of them; the 32 bit byte count of the tail move wraps at $2^{29}$ elements.
  \<^item> \<open>Dict\<close>, \<open>Dict_Ops\<close>, \<open>Dict_Scan\<close> (\<^verbatim>\<open>dict.c\<close>, \<^verbatim>\<open>dict.h\<close>): the two tables, incremental rehashing, insertion, replacement,
    deletion, lookup and clearing.  The hash function and the comparison of keys are the
    parameters of the locale \<open>lawful_dictType\<close>, whose laws are those of an equivalence that the hash
    respects.  The table refines a map; rehashing ends after a bounded number of steps; a scan with its
    reversed cursor hands out every entry that stays in the table, even when the table is resized
    between the calls, and hands out each entry once when the table does not change.
  \<^item> \<open>Adlist\<close> (\<^verbatim>\<open>adlist.c\<close>, \<^verbatim>\<open>adlist.h\<close>): nodes in a heap with an allocator that is a parameter (locale \<open>allocator\<close>).
    Every operation keeps the chain of the two directions consistent and refines a sequence; duplication
    and joining are proved with their effects on the heap.
  \<^item> \<open>Util\<close>, \<open>Util_Strings\<close> (\<^verbatim>\<open>util.c\<close>): printing and parsing of 64 bit integers, which are inverse and accept
    exactly the canonical numerals; the glob matcher, which decides the meaning of a pattern given
    by its tokens; sizes with a unit.
  \<^item> \<open>Sds\<close>, \<open>Sds_Strings\<close> (\<^verbatim>\<open>sds.c\<close>, \<^verbatim>\<open>sds.h\<close>): the five header types, growth and all operations on the contents
    refine byte strings for every lawful allocator (locale \<open>lawful_mem\<close>); splitting and joining, quoting
    and splitting into arguments are inverse; the formatter and the templates print what they say.
  \<^item> \<open>Zmalloc\<close> (\<^verbatim>\<open>zmalloc.c\<close>): the counter of used memory equals the sum of the sizes of the blocks in use after
    every history of calls (the inductive relation \<open>zreach\<close>), with and without size prefixes; the C library
    is the locale \<open>lawful_libc\<close>.
  \<^item> \<open>Listpack\<close>, \<open>Listpack_Codec\<close>, \<open>Listpack_Ops\<close> (\<^verbatim>\<open>listpack.c\<close>): the encodings of strings and integers are read back,
    forwards and backwards; all operations refine a list of strings; the integrity check of foreign
    bytes reads only inside of them.
  \<^item> \<open>Lzf\<close> (\<^verbatim>\<open>lzf_c.c\<close>, \<^verbatim>\<open>lzf_d.c\<close>): compression is inverse to decompression and fails only for lack of room, whatever
    the uninitialised hash table holds; decompression of arbitrary bytes stays in its buffers.

  \<^bold>\<open>Bounds.\<close>  No model uses fuel.  Loops are recursion over the data or functions with a termination
  proof; the walks along pointers of \<open>Adlist\<close> and the scan loop of \<open>Dict_Scan\<close>, which end only on well-formed
  states, are partial functions, and the theorems give their results as \<open>Some\<close>.  Strings are limited to
  $2^{60}$ bytes, far above what the allocator can serve, so that sizes with their headers do not
  wrap; listpacks to the $2^{32} - 1$ bytes of their length field; hash tables to $2^{60}$
  entries; inputs of the compressor to the range of \<^verbatim>\<open>unsigned int\<close>.  Where a counter is an \<^verbatim>\<open>int\<close>, the bound keeps it
  in range: a rehash step is given at most a tenth of \<^verbatim>\<open>INT_MAX\<close> buckets, a string to be split has less
  than $2^{30}$ bytes, and an integer set to be checked has at most $2^{31}$ elements.

  \<^bold>\<open>Parameters.\<close>  Allocation (\<open>mem\<close> in \<open>Sds\<close>, the allocator in \<open>Adlist\<close>, the platform in \<open>Zmalloc\<close>), the hash function
  and comparison of a dictionary type, random numbers and the initial contents of
  memory are arguments.  Their laws are locales, each interpreted on a concrete instance.

  \<^bold>\<open>Not modelled.\<close>  Of the modelled files: iterators, random entries and statistics of \<^verbatim>\<open>dict.c\<close>,
  floating point conversions, paths and random strings of \<^verbatim>\<open>util.c\<close>, the readers of \<^verbatim>\<open>/proc\<close> in \<^verbatim>\<open>zmalloc.c\<close>, functions that only
  release or print, and the self tests.  The rest of the program is the event loop, the network and
  the protocol, persistence, replication, cluster and sentinel, the command handlers, the Lua and module interfaces
  and the client programs: they are mostly calls into the operating system and into foreign code, or act on the
  global server state through them.  The libraries under \<^verbatim>\<open>deps/\<close> and the notes in the repository are not
  part of the program's own code.
\<close>

end
